(* ===== verification/Iros_Prelude.thy ===== *)
theory Iros_Prelude
  imports Main "HOL-Library.Word" "HOL-Library.Monad_Syntax"
begin

unbundle bit_operations_syntax

text \<open>
  Shared vocabulary of the development: the machine integer types of the x86_64 build, the
  option monad in which every C function that can panic or run into undefined behaviour is
  written, bounds-checked memory blocks, and the generic facts about words and lists that the
  component theories use.

  Reading of results: \<open>Some r\<close> means the C function returns normally with \<open>r\<close>; \<open>None\<close> means it
  does not (a failed \<open>assert\<close>, \<open>abort\<close>, a NULL or freed pointer is dereferenced, a copy leaves its
  block, a division by zero, or a loop that never ends). Error returns of the code (\<open>-EINVAL\<close>
  and the like) are ordinary values inside \<open>Some\<close>.
\<close>

section \<open>Machine integers\<close>

type_synonym u8 = "8 word"
type_synonym u16 = "16 word"
type_synonym u32 = "32 word"
type_synonym u64 = "64 word"
type_synonym byte = u8

named_theorems word_nat
  \<open>rewriting word operations to natural numbers under no-overflow side conditions\<close>

lemma u64_bound: "unat (w :: u64) < 18446744073709551616"
proof -
  have "unat w < 2 ^ LENGTH(64)" by (rule unsigned_less)
  then show ?thesis by simp
qed

lemma unat_add_u64 [word_nat]:
  "unat (a :: u64) + unat b < 2 ^ 64 \<Longrightarrow> unat (a + b) = unat a + unat b"
  using unat_add_lem [of a b] by simp

lemma unat_mult_u64 [word_nat]:
  "unat (a :: u64) * unat b < 2 ^ 64 \<Longrightarrow> unat (a * b) = unat a * unat b"
  using unat_mult_lem [of a b] by simp

lemma unat_sub_u64 [word_nat]:
  "unat (b :: u64) \<le> unat a \<Longrightarrow> unat (a - b) = unat a - unat b"
  by (simp add: unat_sub word_le_nat_alt)

lemmas [word_nat] = word_le_nat_alt word_less_nat_alt unat_mod unat_div

lemma u64_neq_0 [word_nat]: "(w :: u64) \<noteq> 0 \<longleftrightarrow> 0 < unat w"
  by (simp add: unat_gt_0)

lemma u64_eq_iff: "(a :: u64) = b \<longleftrightarrow> unat a = unat b"
  by (simp add: word_unat_eq_iff)

lemma unat_of_nat_u64 [simp]: "n < 2 ^ 64 \<Longrightarrow> unat (of_nat n :: u64) = n"
  by (simp add: unat_of_nat take_bit_nat_eq_self)

lemma unat_min_u64 [word_nat]: "unat (min a b :: u64) = min (unat a) (unat b)"
  by (simp add: min_def word_le_nat_alt)

lemma u64_mod_self: "a < b \<Longrightarrow> a mod b = (a :: u64)"
  by (metis mod_less unat_mod word_less_nat_alt word_unat_eq_iff)

lemma sint_u64_small: "unat w < 2 ^ 63 \<Longrightarrow> sint (w :: u64) = int (unat w)"
proof -
  assume "unat w < 2 ^ 63"
  then have "int (unat w) < int (2 ^ 63)" by (simp only: of_nat_less_iff)
  then have "int (unat w) < 2 ^ 63" by (simp only: of_nat_power of_nat_numeral)
  moreover have "0 \<le> int (unat w)" by (rule of_nat_0_le_iff)
  ultimately have "signed_take_bit 63 (int (unat w)) = int (unat w)"
    by (intro signed_take_bit_int_eq_self) linarith+
  then show ?thesis unfolding sint_uint uint_nat by (simp only: len_bit0 len_num1 One_nat_def) simp
qed

lemma mod_once: "x < 2 * n \<Longrightarrow> x mod n = (if x < n then x else x - (n :: nat))"
  by (simp add: le_mod_geq)

section \<open>Panics and memory blocks\<close>

text \<open>The kernel's \<open>assert\<close> and \<open>abort\<close>: execution stops when the condition is false.\<close>

definition assert_that :: "bool \<Rightarrow> unit option" where
  "assert_that b = (if b then Some () else None)"

lemma assert_that_True [simp]: "assert_that True = Some ()"
  by (simp add: assert_that_def)

lemma assert_that_False [simp]: "assert_that False = None"
  by (simp add: assert_that_def)

lemma assert_that_Some [simp]: "assert_that b = Some u \<longleftrightarrow> b"
  by (simp add: assert_that_def)

lemma assert_that_None [simp]: "assert_that b = None \<longleftrightarrow> \<not> b"
  by (simp add: assert_that_def)

lemma bind_assert [simp]: "Option.bind (assert_that b) f = (if b then f () else None)"
  by (simp add: assert_that_def)

text \<open>
  \<open>memcpy\<close> out of and into an allocated block. A block is the list of its bytes; a copy that
  leaves the block is undefined behaviour.
\<close>

definition mem_read :: "'a list \<Rightarrow> nat \<Rightarrow> nat \<Rightarrow> 'a list option" where
  "mem_read blk off n = (if off + n \<le> length blk then Some (take n (drop off blk)) else None)"

definition mem_write :: "'a list \<Rightarrow> nat \<Rightarrow> 'a list \<Rightarrow> 'a list option" where
  "mem_write blk off bs =
     (if off + length bs \<le> length blk
      then Some (take off blk @ bs @ drop (off + length bs) blk) else None)"

lemma mem_read_ok: "off + n \<le> length blk \<Longrightarrow> mem_read blk off n = Some (take n (drop off blk))"
  by (simp add: mem_read_def)

lemma mem_write_ok:
  "off + length bs \<le> length blk \<Longrightarrow>
   mem_write blk off bs = Some (take off blk @ bs @ drop (off + length bs) blk)"
  by (simp add: mem_write_def)

lemma mem_write_length: "mem_write blk off bs = Some blk' \<Longrightarrow> length blk' = length blk"
  by (auto simp: mem_write_def split: if_splits)

lemma mem_write_nth:
  assumes "mem_write blk off bs = Some blk'" and "j < length blk"
  shows "blk' ! j = (if off \<le> j \<and> j < off + length bs then bs ! (j - off) else blk ! j)"
  using assms by (auto simp: mem_write_def nth_append min_def split: if_splits)

text \<open>Reading and writing one cell of a block through a pointer.\<close>

definition cell_get :: "'a list \<Rightarrow> nat \<Rightarrow> 'a option" where
  "cell_get blk i = (if i < length blk then Some (blk ! i) else None)"

definition cell_set :: "'a list \<Rightarrow> nat \<Rightarrow> 'a \<Rightarrow> 'a list option" where
  "cell_set blk i v = (if i < length blk then Some (blk[i := v]) else None)"

text \<open>The address of an object the kernel allocated; \<open>addr option\<close> is a pointer, None being NULL.\<close>

type_synonym addr = nat

section \<open>Counting loops\<close>

text \<open>
  \<^verbatim>\<open>for (size_t i = lo; i < hi; i++) body\<close>, with the state the body changes threaded through.
\<close>

partial_function (option) for_u64 ::
  "u64 \<Rightarrow> u64 \<Rightarrow> (u64 \<Rightarrow> 's \<Rightarrow> 's option) \<Rightarrow> 's \<Rightarrow> 's option" where
  "for_u64 i hi body s =
     (if i < hi then Option.bind (body i s) (\<lambda>s'. for_u64 (i + 1) hi body s') else Some s)"

fun fold_opt :: "('a \<Rightarrow> 's \<Rightarrow> 's option) \<Rightarrow> 'a list \<Rightarrow> 's \<Rightarrow> 's option" where
  "fold_opt f [] s = Some s"
| "fold_opt f (x # xs) s = Option.bind (f x s) (fold_opt f xs)"

lemma unat_Suc_u64: "(i :: u64) < hi \<Longrightarrow> unat (i + 1) = Suc (unat i)"
proof -
  assume "i < hi"
  then have "unat i + 1 < 18446744073709551616"
    using u64_bound [of hi] by (simp only: word_less_nat_alt)
  then show ?thesis using unat_add_u64 [of i 1] by simp
qed

text \<open>The loop always ends, and visits the indices in order.\<close>

lemma for_u64_fold:
  "for_u64 i hi body s = fold_opt (\<lambda>k. body (of_nat k)) [unat i..<unat hi] s"
proof (induction "unat hi - unat i" arbitrary: i s)
  case 0
  then show ?case by (simp add: for_u64.simps [of i] word_less_nat_alt)
next
  case (Suc n)
  then have lt: "i < hi" by (simp add: word_less_nat_alt)
  then have n: "n = unat hi - unat (i + 1)" using Suc.hyps(2) by (simp add: unat_Suc_u64)
  have "for_u64 (i + 1) hi body = fold_opt (\<lambda>k. body (of_nat k)) [Suc (unat i)..<unat hi]"
    using Suc.hyps(1) [OF n] lt by (simp add: unat_Suc_u64 fun_eq_iff)
  with lt show ?case
    by (simp add: for_u64.simps [of i] upt_conv_Cons word_less_nat_alt)
qed

text \<open>A loop fails when one of its rounds fails in every state the earlier rounds can reach.\<close>

lemma fold_opt_fails:
  assumes "P s" "y \<in> set xs" "\<And>s. P s \<Longrightarrow> f y s = None"
    and "\<And>x s s'. P s \<Longrightarrow> f x s = Some s' \<Longrightarrow> P s'"
  shows "fold_opt f xs s = None"
  using assms(1,2)
proof (induction xs arbitrary: s)
  case (Cons x xs)
  show ?case
  proof (cases "f x s")
    case (Some s')
    then show ?thesis using Cons assms(3,4) by auto
  qed simp
qed simp

lemma fold_opt_nil [simp]: "fold_opt f [] = Some"
  by (simp add: fun_eq_iff)

lemma fold_opt_one [simp]: "fold_opt f [x] = f x"
  by (simp add: fun_eq_iff)

lemma fold_opt_append: "fold_opt f (xs @ ys) s = Option.bind (fold_opt f xs s) (fold_opt f ys)"
  by (induction xs arbitrary: s) (auto split: bind_splits simp: Option.bind_eq_None_conv)

text \<open>An invariant of a loop.\<close>

lemma fold_opt_inv:
  assumes "fold_opt f xs s = Some s'" "P s" "\<And>x s s'. x \<in> set xs \<Longrightarrow> P s \<Longrightarrow> f x s = Some s' \<Longrightarrow> P s'"
  shows "P s'"
  using assms
proof (induction xs arbitrary: s)
  case (Cons x xs)
  then obtain t where "f x s = Some t" "fold_opt f xs t = Some s'" by (auto split: bind_splits)
  then show ?case using Cons by (meson list.set_intros)
qed simp

section \<open>Error numbers\<close>

text \<open>The values of \<^verbatim>\<open>libs/libc/include/errno.h\<close> the modelled functions return negated.\<close>

abbreviation (input) EINVAL :: int where "EINVAL \<equiv> 3"
abbreviation (input) EPIPE :: int where "EPIPE \<equiv> 23"
abbreviation (input) ECONNREFUSED :: int where "ECONNREFUSED \<equiv> 26"
abbreviation (input) ECONNRESET :: int where "ECONNRESET \<equiv> 27"
abbreviation (input) EINTR :: int where "EINTR \<equiv> 35"
abbreviation (input) ENXIO :: int where "ENXIO \<equiv> 46"
abbreviation (input) ENOTCONN :: int where "ENOTCONN \<equiv> 50"
abbreviation (input) EAGAIN :: int where "EAGAIN \<equiv> 53"

end
