(* ===== verification/Ring_Buffer.thy ===== *)
theory Ring_Buffer
  imports Iros_Prelude
begin

text \<open>
  The kernel's byte ring buffer, \<^verbatim>\<open>kernel/include/kernel/util/ring_buffer.h\<close> and
  \<^verbatim>\<open>kernel/util/ring_buffer.c\<close>. Sizes and indices keep their C width (\<open>size_t\<close>, 64 bits). The
  theory defines every operation, the representation invariant and the abstraction to the list
  of queued bytes, and shows that the operations implement a bounded first-in first-out queue.
\<close>

section \<open>Model\<close>

record ring_buffer =
  rb_buffer :: "byte list option"  \<comment> \<open>\<open>None\<close> is the NULL pointer\<close>
  rb_max :: u64
  rb_head :: u64
  rb_tail :: u64
  rb_full :: bool

text \<open>\<open>malloc\<close> returns a block of the requested size with unspecified contents \<open>junk\<close>.\<close>

definition init_ring_buffer :: "byte list \<Rightarrow> u64 \<Rightarrow> ring_buffer" where
  "init_ring_buffer junk cap =
     \<lparr>rb_buffer = Some (take (unat cap) (junk @ replicate (unat cap) 0)),
      rb_max = cap, rb_head = 0, rb_tail = 0, rb_full = False\<rparr>"

definition kill_ring_buffer :: "ring_buffer \<Rightarrow> ring_buffer" where
  "kill_ring_buffer rb = rb\<lparr>rb_buffer := None\<rparr>"

definition ring_buffer_size :: "ring_buffer \<Rightarrow> u64" where
  "ring_buffer_size rb =
     (if rb_full rb then rb_max rb
      else if rb_tail rb < rb_head rb then rb_tail rb + rb_max rb - rb_head rb
      else rb_tail rb - rb_head rb)"

definition ring_buffer_space :: "ring_buffer \<Rightarrow> u64" where
  "ring_buffer_space rb = rb_max rb - ring_buffer_size rb"

definition ring_buffer_empty :: "ring_buffer \<Rightarrow> bool" where
  "ring_buffer_empty rb \<longleftrightarrow> rb_head rb = rb_tail rb \<and> \<not> rb_full rb"

definition ring_buffer_max :: "ring_buffer \<Rightarrow> u64" where
  "ring_buffer_max rb = rb_max rb"

definition ring_buffer_full :: "ring_buffer \<Rightarrow> bool" where
  "ring_buffer_full rb = rb_full rb"

definition ring_buffer_dead :: "ring_buffer \<Rightarrow> bool" where
  "ring_buffer_dead rb \<longleftrightarrow> rb_buffer rb = None"

definition ring_buffer_clear :: "ring_buffer \<Rightarrow> ring_buffer" where
  "ring_buffer_clear rb = rb\<lparr>rb_head := 0, rb_tail := 0, rb_full := False\<rparr>"

definition ring_buffer_advance :: "ring_buffer \<Rightarrow> u64 \<Rightarrow> ring_buffer option" where
  "ring_buffer_advance rb amount = do {
     assert_that (rb_max rb \<noteq> 0);
     Some (rb\<lparr>rb_head := (rb_head rb + amount) mod rb_max rb, rb_full := False\<rparr>)
   }"

text \<open>The bytes that \<open>ring_buffer_copy\<close> stores at its destination.\<close>

definition ring_buffer_copy :: "ring_buffer \<Rightarrow> u64 \<Rightarrow> u64 \<Rightarrow> byte list option" where
  "ring_buffer_copy rb offset amount = do {
     buf \<leftarrow> rb_buffer rb;
     assert_that (rb_max rb \<noteq> 0);
     let head = (rb_head rb + offset) mod rb_max rb;
     if head + amount > rb_max rb then do {
       let length_to_end = rb_max rb - head;
       p \<leftarrow> mem_read buf (unat head) (unat length_to_end);
       q \<leftarrow> mem_read buf 0 (unat (amount - length_to_end));
       Some (p @ q)
     } else mem_read buf (unat head) (unat amount)
   }"

definition ring_buffer_user_read :: "ring_buffer \<Rightarrow> u64 \<Rightarrow> (byte list \<times> ring_buffer) option" where
  "ring_buffer_user_read rb amount = do {
     bs \<leftarrow> ring_buffer_copy rb 0 amount;
     rb' \<leftarrow> ring_buffer_advance rb amount;
     Some (bs, rb')
   }"

definition ring_buffer_read :: "ring_buffer \<Rightarrow> u64 \<Rightarrow> (byte list \<times> ring_buffer) option" where
  "ring_buffer_read rb amount = ring_buffer_user_read rb amount"

definition ring_buffer_user_write :: "ring_buffer \<Rightarrow> byte list \<Rightarrow> u64 \<Rightarrow> ring_buffer option" where
  "ring_buffer_user_write rb buffer amount = do {
     buf \<leftarrow> rb_buffer rb;
     buf' \<leftarrow>
       (if rb_tail rb + amount > rb_max rb then do {
          let length_to_end = rb_max rb - rb_tail rb;
          p \<leftarrow> mem_read buffer 0 (unat length_to_end);
          b1 \<leftarrow> mem_write buf (unat (rb_tail rb)) p;
          q \<leftarrow> mem_read buffer (unat length_to_end) (unat (amount - length_to_end));
          mem_write b1 0 q
        } else do {
          p \<leftarrow> mem_read buffer 0 (unat amount);
          mem_write buf (unat (rb_tail rb)) p
        });
     assert_that (rb_max rb \<noteq> 0);
     let tail = (rb_tail rb + amount) mod rb_max rb;
     Some (rb\<lparr>rb_buffer := Some buf', rb_tail := tail, rb_full := (rb_head rb = tail)\<rparr>)
   }"

definition ring_buffer_write :: "ring_buffer \<Rightarrow> byte list \<Rightarrow> u64 \<Rightarrow> ring_buffer option" where
  "ring_buffer_write rb buffer amount = ring_buffer_user_write rb buffer amount"

definition ring_buffer_read_byte :: "ring_buffer \<Rightarrow> (byte \<times> ring_buffer) option" where
  "ring_buffer_read_byte rb = do {
     (bs, rb') \<leftarrow> ring_buffer_read rb 1;
     Some (hd bs, rb')
   }"

definition ring_buffer_write_byte :: "ring_buffer \<Rightarrow> byte \<Rightarrow> ring_buffer option" where
  "ring_buffer_write_byte rb b = ring_buffer_write rb [b] 1"

section \<open>Circular reads and writes on lists\<close>

text \<open>\<open>circ buf h k\<close> is the sequence of \<open>k\<close> bytes that starts at index \<open>h\<close> and wraps around.\<close>

definition circ :: "'a list \<Rightarrow> nat \<Rightarrow> nat \<Rightarrow> 'a list" where
  "circ buf h k = map (\<lambda>i. buf ! ((h + i) mod length buf)) [0..<k]"

lemma length_circ [simp]: "length (circ buf h k) = k"
  by (simp add: circ_def)

lemma circ_nth: "i < k \<Longrightarrow> circ buf h k ! i = buf ! ((h + i) mod length buf)"
  by (simp add: circ_def)

lemma circ_0 [simp]: "circ buf h 0 = []"
  by (simp add: circ_def)

lemma circ_take: "m \<le> k \<Longrightarrow> take m (circ buf h k) = circ buf h m"
  by (rule nth_equalityI) (auto simp: circ_nth)

lemma circ_drop: "circ buf ((h + m) mod length buf) (k - m) = drop m (circ buf h k)"
  by (rule nth_equalityI) (auto simp: circ_nth mod_add_left_eq add.assoc)

lemma circ_straight: "h + k \<le> length buf \<Longrightarrow> circ buf h k = take k (drop h buf)"
  by (rule nth_equalityI) (auto simp: circ_nth)

lemma circ_wrapped:
  assumes "h < length buf" "length buf < h + k" "k \<le> length buf"
  shows "circ buf h k = drop h buf @ take (k - (length buf - h)) buf"
proof (rule nth_equalityI)
  show "length (circ buf h k) = length (drop h buf @ take (k - (length buf - h)) buf)"
    using assms by simp
  fix i assume "i < length (circ buf h k)"
  then have i: "i < k" by simp
  show "circ buf h k ! i = (drop h buf @ take (k - (length buf - h)) buf) ! i"
  proof (cases "i < length buf - h")
    case True
    with i show ?thesis by (simp add: circ_nth nth_append)
  next
    case False
    with i assms have "h + i = i - (length buf - h) + length buf" "i - (length buf - h) < length buf"
      by linarith+
    then have "(h + i) mod length buf = i - (length buf - h)"
      by (metis mod_add_self2 mod_less)
    with False i assms show ?thesis by (simp add: circ_nth nth_append)
  qed
qed

text \<open>
  \<open>written buf t d buf'\<close>: \<open>buf'\<close> holds \<open>d\<close> from index \<open>t\<close> on, wrapping around, and equals \<open>buf\<close>
  elsewhere.
\<close>

definition written :: "'a list \<Rightarrow> nat \<Rightarrow> 'a list \<Rightarrow> 'a list \<Rightarrow> bool" where
  "written buf t d buf' \<longleftrightarrow> length buf' = length buf \<and>
     (\<forall>j < length buf. buf' ! ((t + j) mod length buf) =
        (if j < length d then d ! j else buf ! ((t + j) mod length buf)))"

lemma circ_written_append:
  assumes w: "written buf ((h + s) mod length buf) d buf'"
    and room: "s + length d \<le> length buf" and ne: "buf \<noteq> []"
  shows "circ buf' h (s + length d) = circ buf h s @ d"
proof (rule nth_equalityI)
  let ?n = "length buf"
  fix i assume "i < length (circ buf' h (s + length d))"
  then have i: "i < s + length d" by simp
  have len: "length buf' = ?n" using w by (simp add: written_def)
  show "circ buf' h (s + length d) ! i = (circ buf h s @ d) ! i"
  proof (cases "i < s")
    case True
    let ?j = "?n - s + i"
    have "((h + s) mod ?n + ?j) mod ?n = (h + s + ?j) mod ?n"
      by (simp add: mod_add_left_eq)
    also have "h + s + ?j = (h + i) + ?n" using True room by simp
    finally have idx: "((h + s) mod ?n + ?j) mod ?n = (h + i) mod ?n" by simp
    have "?j < ?n" "\<not> ?j < length d" using True room by auto
    then have "buf' ! ((h + i) mod ?n) = buf ! ((h + i) mod ?n)"
      using w idx unfolding written_def by metis
    with True i len show ?thesis by (simp add: circ_nth nth_append)
  next
    case False
    let ?j = "i - s"
    have "((h + s) mod ?n + ?j) mod ?n = (h + s + ?j) mod ?n"
      by (rule mod_add_left_eq)
    also have "h + s + ?j = h + i" using False by simp
    finally have idx: "((h + s) mod ?n + ?j) mod ?n = (h + i) mod ?n" .
    have "?j < ?n" "?j < length d" using False i room by auto
    then have "buf' ! ((h + i) mod ?n) = d ! ?j"
      using w idx unfolding written_def by metis
    with False i len show ?thesis by (simp add: circ_nth nth_append)
  qed
qed simp

lemma written_straight:
  assumes "t + length d \<le> length buf" "mem_write buf t d = Some buf'"
  shows "written buf t d buf'"
  unfolding written_def
proof (intro conjI allI impI)
  show len: "length buf' = length buf" using assms(2) by (rule mem_write_length)
  fix j assume j: "j < length buf"
  show "buf' ! ((t + j) mod length buf) =
    (if j < length d then d ! j else buf ! ((t + j) mod length buf))"
  proof (cases "t + j < length buf")
    case True
    then show ?thesis using mem_write_nth [OF assms(2), of "t + j"] by simp
  next
    case False
    then have m: "(t + j) mod length buf = t + j - length buf" and lt: "t + j - length buf < t"
      using j assms(1) by (auto simp: mod_once)
    then show ?thesis
      using mem_write_nth [OF assms(2), of "t + j - length buf"] False assms(1) j by auto
  qed
qed

lemma written_wrapped:
  assumes "t < length buf" "length buf < t + length d" "length d \<le> length buf"
    and w1: "mem_write buf t (take (length buf - t) d) = Some b1"
    and w2: "mem_write b1 0 (drop (length buf - t) d) = Some buf'"
  shows "written buf t d buf'"
  unfolding written_def
proof (intro conjI allI impI)
  let ?n = "length buf"
  have l1: "length b1 = ?n" using w1 by (rule mem_write_length)
  then show "length buf' = ?n" using mem_write_length [OF w2] by simp
  fix j assume j: "j < ?n"
  show "buf' ! ((t + j) mod ?n) = (if j < length d then d ! j else buf ! ((t + j) mod ?n))"
  proof (cases "t + j < ?n")
    case True
    then show ?thesis
      using mem_write_nth [OF w2, of "t + j"] mem_write_nth [OF w1, of "t + j"] l1 assms(1-3)
      by auto
  next
    case False
    then have m: "(t + j) mod ?n = t + j - ?n" using j assms(1) by (auto simp: mod_once)
    then show ?thesis
      using mem_write_nth [OF w2, of "t + j - ?n"] mem_write_nth [OF w1, of "t + j - ?n"]
        False j l1 assms(1-3) by (auto simp: min_def)
  qed
qed

section \<open>Invariant and abstraction\<close>

text \<open>
  A live buffer owns a block of exactly \<open>max\<close> bytes; \<open>max\<close> is positive and at most half of the
  address space, which every block \<open>malloc\<close> returns satisfies.
\<close>

definition rb_wf :: "ring_buffer \<Rightarrow> bool" where
  "rb_wf rb \<longleftrightarrow>
     (case rb_buffer rb of None \<Rightarrow> False | Some buf \<Rightarrow> length buf = unat (rb_max rb)) \<and>
     rb_max rb \<noteq> 0 \<and> unat (rb_max rb) \<le> 2 ^ 63 \<and>
     rb_head rb < rb_max rb \<and> rb_tail rb < rb_max rb \<and>
     (rb_full rb \<longrightarrow> rb_head rb = rb_tail rb)"

definition rb_contents :: "ring_buffer \<Rightarrow> byte list" where
  "rb_contents rb = circ (the (rb_buffer rb)) (unat (rb_head rb)) (unat (ring_buffer_size rb))"

definition rb_capacity :: "ring_buffer \<Rightarrow> nat" where
  "rb_capacity rb = unat (rb_max rb)"

lemma rb_wfE:
  assumes "rb_wf rb"
  obtains buf where "rb_buffer rb = Some buf" "length buf = unat (rb_max rb)"
    "0 < unat (rb_max rb)" "unat (rb_max rb) \<le> 2 ^ 63"
    "unat (rb_head rb) < unat (rb_max rb)" "unat (rb_tail rb) < unat (rb_max rb)"
    "rb_full rb \<Longrightarrow> rb_head rb = rb_tail rb" "rb_max rb \<noteq> 0"
  using assms by (auto simp: rb_wf_def word_less_nat_alt split: option.splits)

lemma unat_ring_buffer_size:
  assumes "rb_wf rb"
  shows "unat (ring_buffer_size rb) =
    (if rb_full rb then unat (rb_max rb)
     else if unat (rb_tail rb) < unat (rb_head rb)
       then unat (rb_tail rb) + unat (rb_max rb) - unat (rb_head rb)
       else unat (rb_tail rb) - unat (rb_head rb))"
  using assms by (elim rb_wfE) (simp add: ring_buffer_size_def word_nat)

lemma size_le_max: "rb_wf rb \<Longrightarrow> unat (ring_buffer_size rb) \<le> unat (rb_max rb)"
  by (frule unat_ring_buffer_size) (auto elim!: rb_wfE)

lemma length_rb_contents [simp]: "length (rb_contents rb) = unat (ring_buffer_size rb)"
  by (simp add: rb_contents_def)

lemma unat_ring_buffer_space:
  "rb_wf rb \<Longrightarrow> unat (ring_buffer_space rb) = rb_capacity rb - length (rb_contents rb)"
  using size_le_max [of rb] by (simp add: ring_buffer_space_def rb_capacity_def unat_sub_u64)

lemma tail_eq:
  assumes "rb_wf rb"
  shows "unat (rb_tail rb) =
    (unat (rb_head rb) + unat (ring_buffer_size rb)) mod unat (rb_max rb)"
  using assms
  by (elim rb_wfE) (simp add: unat_ring_buffer_size [OF assms] mod_once)

lemma wrapped_distance:
  fixes h s a n :: nat
  assumes "a \<le> s" "s - a < n"
  shows "((h + s) mod n + n - (h + a) mod n) mod n = s - a"
proof -
  let ?x = "(h + a) mod n" and ?d = "s - a"
  have x: "?x < n" using assms(2) by simp
  have "h + s = h + a + ?d" using assms(1) by simp
  then have "(h + s) mod n = (?x + ?d) mod n" by (metis mod_add_left_eq)
  also have "\<dots> = (if ?x + ?d < n then ?x + ?d else ?x + ?d - n)"
    by (rule mod_once) (use x assms(2) in linarith)
  finally show ?thesis using x assms(2) by (auto simp: mod_once)
qed

lemma size_not_full:
  assumes "rb_wf rb" "\<not> rb_full rb"
  shows "unat (ring_buffer_size rb) =
    (unat (rb_tail rb) + unat (rb_max rb) - unat (rb_head rb)) mod unat (rb_max rb)"
  using assms(1)
  by (elim rb_wfE) (use assms in \<open>auto simp: unat_ring_buffer_size mod_once\<close>)

lemma unat_head_add:
  assumes "rb_wf rb" "unat k \<le> unat (rb_max rb)"
  shows "unat ((rb_head rb + k) mod rb_max rb) =
    (unat (rb_head rb) + unat k) mod unat (rb_max rb)"
  using assms by (elim rb_wfE) (simp add: word_nat)

lemma unat_tail_add:
  assumes "rb_wf rb" "unat k \<le> unat (rb_max rb)"
  shows "unat ((rb_tail rb + k) mod rb_max rb) =
    (unat (rb_tail rb) + unat k) mod unat (rb_max rb)"
  using assms by (elim rb_wfE) (simp add: word_nat)

section \<open>The operations on the queued bytes\<close>

lemma ring_buffer_copy_contents:
  assumes wf: "rb_wf rb" and len: "unat offset + unat amount \<le> length (rb_contents rb)"
  shows "ring_buffer_copy rb offset amount =
    Some (take (unat amount) (drop (unat offset) (rb_contents rb)))"
proof -
  obtain buf where b: "rb_buffer rb = Some buf" "length buf = unat (rb_max rb)"
    and m: "unat (rb_max rb) \<le> 2 ^ 63" "rb_max rb \<noteq> 0" "0 < unat (rb_max rb)"
    using wf by (elim rb_wfE) blast
  define n where "n = unat (rb_max rb)"
  define h where "h = unat ((rb_head rb + offset) mod rb_max rb)"
  have s: "unat (ring_buffer_size rb) \<le> n" using size_le_max [OF wf] by (simp add: n_def)
  have h_eq: "h = (unat (rb_head rb) + unat offset) mod n"
    using unat_head_add [OF wf, of offset] len s by (simp add: h_def n_def)
  have hn: "h < n" using m by (simp add: h_eq n_def)
  have am: "unat amount \<le> n" using len s by simp
  have "circ buf h (unat (ring_buffer_size rb) - unat offset) = drop (unat offset) (rb_contents rb)"
    unfolding rb_contents_def h_eq n_def b(2) [symmetric] using circ_drop b(1) by simp
  then have goal: "take (unat amount) (drop (unat offset) (rb_contents rb)) = circ buf h (unat amount)"
    using circ_take [of "unat amount" "unat (ring_buffer_size rb) - unat offset" buf h] len by simp
  have sum: "unat ((rb_head rb + offset) mod rb_max rb + amount) = h + unat amount"
    using hn am m by (simp add: h_def n_def unat_add_u64)
  show ?thesis
  proof (cases "h + unat amount \<le> n")
    case True
    then have "\<not> (rb_head rb + offset) mod rb_max rb + amount > rb_max rb"
      using sum by (simp add: word_le_nat_alt n_def not_less)
    then show ?thesis
      using True b m goal circ_straight [of h "unat amount" buf]
      by (simp add: ring_buffer_copy_def Let_def mem_read_ok h_def [symmetric] n_def)
  next
    case False
    let ?e = "rb_max rb - (rb_head rb + offset) mod rb_max rb"
    have gt: "(rb_head rb + offset) mod rb_max rb + amount > rb_max rb"
      using False sum by (simp add: word_less_nat_alt n_def)
    have e: "unat ?e = n - h" using hn by (simp add: unat_sub_u64 h_def n_def)
    have r: "unat (amount - ?e) = unat amount - (n - h)"
      using False e by (simp add: unat_sub_u64)
    have "circ buf h (unat amount) = drop h buf @ take (unat amount - (n - h)) buf"
      using circ_wrapped [of h buf "unat amount"] hn am False b(2) by (simp add: n_def)
    then show ?thesis
      using gt b m goal e r hn am
      by (simp add: ring_buffer_copy_def Let_def mem_read_ok h_def [symmetric] n_def [symmetric])
  qed
qed

lemma ring_buffer_advance_contents:
  assumes wf: "rb_wf rb" and len: "unat amount \<le> length (rb_contents rb)"
    and pos: "amount \<noteq> 0 \<or> \<not> rb_full rb"
  shows "\<exists>rb'. ring_buffer_advance rb amount = Some rb' \<and> rb_wf rb' \<and>
    rb_contents rb' = drop (unat amount) (rb_contents rb) \<and> rb_capacity rb' = rb_capacity rb"
proof -
  obtain buf where b: "rb_buffer rb = Some buf" "length buf = unat (rb_max rb)"
    and m: "unat (rb_max rb) \<le> 2 ^ 63" "rb_max rb \<noteq> 0" "0 < unat (rb_max rb)"
      "unat (rb_tail rb) < unat (rb_max rb)"
    using wf by (elim rb_wfE) blast
  define n where "n = unat (rb_max rb)"
  let ?s = "unat (ring_buffer_size rb)" and ?a = "unat amount"
  define rb' where "rb' = rb\<lparr>rb_head := (rb_head rb + amount) mod rb_max rb, rb_full := False\<rparr>"
  have s: "?s \<le> n" using size_le_max [OF wf] by (simp add: n_def)
  have h': "unat (rb_head rb') = (unat (rb_head rb) + ?a) mod n"
    using unat_head_add [OF wf, of amount] len s by (simp add: rb'_def n_def)
  have wf': "rb_wf rb'"
    using b m h' by (simp add: rb_wf_def rb'_def word_less_nat_alt n_def)
  have "?s - ?a < n"
  proof (cases "rb_full rb")
    case True
    with pos have "0 < ?a" by (simp add: unat_gt_0)
    then show ?thesis using s m by (simp add: n_def)
  next
    case False
    then have "?s < n" using size_not_full [OF wf] m by (simp add: n_def)
    then show ?thesis by simp
  qed
  moreover have "unat (rb_tail rb') = (unat (rb_head rb) + ?s) mod n"
    using tail_eq [OF wf] by (simp add: rb'_def n_def)
  ultimately have s': "unat (ring_buffer_size rb') = ?s - ?a"
    using size_not_full [OF wf'] h' len wrapped_distance [of ?a ?s n "unat (rb_head rb)"]
    by (simp add: rb'_def n_def)
  have "rb_contents rb' = drop ?a (rb_contents rb)"
    using circ_drop [of buf "unat (rb_head rb)" ?a ?s] s' h' b
    by (simp add: rb_contents_def rb'_def n_def)
  then show ?thesis
    using wf' m by (auto simp: ring_buffer_advance_def rb'_def rb_capacity_def)
qed

lemma ring_buffer_user_read_contents:
  assumes wf: "rb_wf rb" and len: "unat amount \<le> length (rb_contents rb)"
    and pos: "amount \<noteq> 0 \<or> \<not> rb_full rb"
  shows "\<exists>rb'. ring_buffer_user_read rb amount = Some (take (unat amount) (rb_contents rb), rb') \<and>
    rb_wf rb' \<and> rb_contents rb' = drop (unat amount) (rb_contents rb) \<and>
    rb_capacity rb' = rb_capacity rb"
  using ring_buffer_copy_contents [OF wf, of 0 amount] ring_buffer_advance_contents [OF assms] len
  by (auto simp: ring_buffer_user_read_def)

text \<open>
  The block after a write of \<open>d\<close>: the two \<open>memcpy\<close> calls of the wrapping branch and the single
  one of the other branch both store \<open>d\<close> circularly from the tail on.
\<close>

lemma user_write_block:
  assumes wf: "rb_wf rb" and b: "rb_buffer rb = Some buf"
    and d: "length d = unat amount" "unat amount \<le> unat (rb_max rb)"
  shows "\<exists>buf'. ring_buffer_user_write rb d amount =
      Some (rb\<lparr>rb_buffer := Some buf', rb_tail := (rb_tail rb + amount) mod rb_max rb,
               rb_full := (rb_head rb = (rb_tail rb + amount) mod rb_max rb)\<rparr>) \<and>
    written buf (unat (rb_tail rb)) d buf'"
proof -
  have n: "length buf = unat (rb_max rb)" and m: "unat (rb_max rb) \<le> 2 ^ 63" "rb_max rb \<noteq> 0"
    and t: "unat (rb_tail rb) < unat (rb_max rb)"
    using wf b by (auto elim!: rb_wfE)
  have sum: "unat (rb_tail rb + amount) = unat (rb_tail rb) + unat amount"
    using t m d by (simp add: unat_add_u64)
  show ?thesis
  proof (cases "unat (rb_tail rb) + unat amount \<le> unat (rb_max rb)")
    case True
    then have le: "\<not> rb_tail rb + amount > rb_max rb" using sum by (simp add: word_less_nat_alt)
    obtain buf' where w: "mem_write buf (unat (rb_tail rb)) d = Some buf'"
      using True n d by (simp add: mem_write_def)
    have "written buf (unat (rb_tail rb)) d buf'"
      by (rule written_straight [OF _ w]) (use True n d in simp)
    then show ?thesis
      using le b m w d by (auto simp: ring_buffer_user_write_def Let_def mem_read_ok)
  next
    case False
    let ?e = "rb_max rb - rb_tail rb" and ?t = "unat (rb_tail rb)"
    have gt: "rb_tail rb + amount > rb_max rb" using False sum by (simp add: word_less_nat_alt)
    have e: "unat ?e = length buf - ?t" using t n by (simp add: unat_sub_u64)
    have r: "unat (amount - ?e) = length d - (length buf - ?t)"
      using False e n d by (simp add: unat_sub_u64)
    obtain b1 where w1: "mem_write buf ?t (take (length buf - ?t) d) = Some b1"
      using mem_write_ok [of ?t "take (length buf - ?t) d" buf] t n by auto
    have "length (drop (length buf - ?t) d) \<le> length b1"
      using mem_write_length [OF w1] d n by simp
    then obtain buf' where w2: "mem_write b1 0 (drop (length buf - ?t) d) = Some buf'"
      by (simp add: mem_write_def)
    have "written buf ?t d buf'"
      by (rule written_wrapped [OF _ _ _ w1 w2]) (use False n d t in auto)
    then show ?thesis
      using gt b m w1 w2 d e r False n
      by (auto simp: ring_buffer_user_write_def Let_def mem_read_ok)
  qed
qed

lemma ring_buffer_user_write_contents:
  assumes wf: "rb_wf rb" and d: "length d = unat amount" and pos: "amount \<noteq> 0"
    and room: "length (rb_contents rb) + length d \<le> rb_capacity rb"
  shows "\<exists>rb'. ring_buffer_user_write rb d amount = Some rb' \<and> rb_wf rb' \<and>
    rb_contents rb' = rb_contents rb @ d \<and> rb_capacity rb' = rb_capacity rb"
proof -
  obtain buf where b: "rb_buffer rb = Some buf" "length buf = unat (rb_max rb)"
    and m: "unat (rb_max rb) \<le> 2 ^ 63" "rb_max rb \<noteq> 0" "0 < unat (rb_max rb)"
      "unat (rb_head rb) < unat (rb_max rb)"
    using wf by (elim rb_wfE) blast
  define n where "n = unat (rb_max rb)"
  let ?s = "unat (ring_buffer_size rb)" and ?k = "unat amount" and ?h = "unat (rb_head rb)"
  have k: "?s + ?k \<le> n" "0 < ?k" using room d pos by (auto simp: rb_capacity_def n_def unat_gt_0)
  then have nf: "\<not> rb_full rb" using unat_ring_buffer_size [OF wf] by (auto simp: n_def)
  obtain buf' where eq: "ring_buffer_user_write rb d amount =
      Some (rb\<lparr>rb_buffer := Some buf', rb_tail := (rb_tail rb + amount) mod rb_max rb,
               rb_full := (rb_head rb = (rb_tail rb + amount) mod rb_max rb)\<rparr>)"
    and w: "written buf (unat (rb_tail rb)) d buf'"
    using user_write_block [OF wf b(1) d] k by (auto simp: n_def)
  define rb' where "rb' = rb\<lparr>rb_buffer := Some buf', rb_tail := (rb_tail rb + amount) mod rb_max rb,
               rb_full := (rb_head rb = (rb_tail rb + amount) mod rb_max rb)\<rparr>"
  have t': "unat (rb_tail rb') = (?h + (?s + ?k)) mod n"
    using unat_tail_add [OF wf, of amount] tail_eq [OF wf] k
    by (simp add: rb'_def n_def mod_add_left_eq add.assoc)
  have wf': "rb_wf rb'"
    using b m t' w by (simp add: rb_wf_def rb'_def word_less_nat_alt n_def written_def)
  have full': "rb_full rb' \<longleftrightarrow> ?s + ?k = n"
  proof -
    have "rb_full rb' \<longleftrightarrow> ?h = (?h + (?s + ?k)) mod n"
      using t' by (simp add: rb'_def u64_eq_iff)
    also have "\<dots> \<longleftrightarrow> ?s + ?k = n"
      using k m by (auto simp: n_def mod_once)
    finally show ?thesis .
  qed
  have s': "unat (ring_buffer_size rb') = ?s + ?k"
  proof (cases "rb_full rb'")
    case True
    then show ?thesis using full' unat_ring_buffer_size [OF wf'] by (simp add: rb'_def n_def)
  next
    case False
    then have "?s + ?k < n" using full' k by simp
    then show ?thesis
      using size_not_full [OF wf' False] t' wrapped_distance [of 0 "?s + ?k" n ?h] m
      by (simp add: rb'_def n_def)
  qed
  have "rb_contents rb' = circ buf' ?h (?s + length d)"
    using s' d by (simp add: rb_contents_def rb'_def)
  also have "\<dots> = rb_contents rb @ d"
  proof -
    have "buf \<noteq> []" using b m by auto
    then show ?thesis
      using circ_written_append [of buf ?h ?s d buf'] w k d b tail_eq [OF wf]
      by (simp add: rb_contents_def n_def)
  qed
  finally show ?thesis using eq wf' by (auto simp: rb'_def rb_capacity_def)
qed

section \<open>Interface: a bounded byte queue\<close>

text \<open>
  What the clients of the buffer (pipes, sockets, terminals) rely on. \<open>enqueue\<close> and \<open>dequeue\<close> are
  only required to work on a non-empty amount: with an amount of zero the code's \<open>full\<close> flag goes
  wrong, see \<open>read_nothing_from_full_empties\<close> below.
\<close>

datatype queue_op = Enq "byte list" | Deq nat

text \<open>Every operation of the script moves at least one byte and respects the room and the fill level.\<close>

fun ops_fit :: "nat \<Rightarrow> nat \<Rightarrow> queue_op list \<Rightarrow> bool" where
  "ops_fit cap len [] = True"
| "ops_fit cap len (Enq d # ops) = (d \<noteq> [] \<and> len + length d \<le> cap \<and> ops_fit cap (len + length d) ops)"
| "ops_fit cap len (Deq n # ops) = (0 < n \<and> n \<le> len \<and> ops_fit cap (len - n) ops)"

fun enqueued :: "queue_op list \<Rightarrow> byte list" where
  "enqueued [] = []"
| "enqueued (Enq d # ops) = d @ enqueued ops"
| "enqueued (Deq n # ops) = enqueued ops"

fun run_ops ::
  "('q \<Rightarrow> byte list \<Rightarrow> 'q option) \<Rightarrow> ('q \<Rightarrow> nat \<Rightarrow> (byte list \<times> 'q) option) \<Rightarrow>
   'q \<Rightarrow> queue_op list \<Rightarrow> (byte list \<times> 'q) option" where
  "run_ops enq deq q [] = Some ([], q)"
| "run_ops enq deq q (Enq d # ops) = do { q' \<leftarrow> enq q d; run_ops enq deq q' ops }"
| "run_ops enq deq q (Deq n # ops) = do {
     (bs, q') \<leftarrow> deq q n;
     (out, q'') \<leftarrow> run_ops enq deq q' ops;
     Some (bs @ out, q'')
   }"

locale byte_queue =
  fixes inv :: "'q \<Rightarrow> bool"
    and contents :: "'q \<Rightarrow> byte list"
    and capacity :: "'q \<Rightarrow> nat"
    and enqueue :: "'q \<Rightarrow> byte list \<Rightarrow> 'q option"
    and dequeue :: "'q \<Rightarrow> nat \<Rightarrow> (byte list \<times> 'q) option"
  assumes bounded: "inv q \<Longrightarrow> length (contents q) \<le> capacity q"
    and enqueue_law: "inv q \<Longrightarrow> d \<noteq> [] \<Longrightarrow> length (contents q) + length d \<le> capacity q \<Longrightarrow>
      \<exists>q'. enqueue q d = Some q' \<and> inv q' \<and> contents q' = contents q @ d \<and> capacity q' = capacity q"
    and dequeue_law: "inv q \<Longrightarrow> 0 < n \<Longrightarrow> n \<le> length (contents q) \<Longrightarrow>
      \<exists>q'. dequeue q n = Some (take n (contents q), q') \<and> inv q' \<and>
        contents q' = drop n (contents q) \<and> capacity q' = capacity q"
begin

lemma fifo_script:
  "inv q \<Longrightarrow> ops_fit (capacity q) (length (contents q)) ops \<Longrightarrow>
   \<exists>out q'. run_ops enqueue dequeue q ops = Some (out, q') \<and> inv q' \<and>
     out @ contents q' = contents q @ enqueued ops \<and> capacity q' = capacity q"
proof (induction ops arbitrary: q)
  case Nil
  then show ?case by simp
next
  case (Cons op ops)
  show ?case
  proof (cases op)
    case (Enq d)
    with Cons.prems obtain q1 where q1: "enqueue q d = Some q1" "inv q1"
      "contents q1 = contents q @ d" "capacity q1 = capacity q"
      using enqueue_law [of q d] by auto
    with Cons.IH [of q1] Cons.prems Enq show ?thesis by auto
  next
    case (Deq n)
    with Cons.prems obtain q1 where q1: "dequeue q n = Some (take n (contents q), q1)" "inv q1"
      "contents q1 = drop n (contents q)" "capacity q1 = capacity q"
      using dequeue_law [of q n] by auto
    have "ops_fit (capacity q1) (length (contents q1)) ops"
      using Cons.prems(2) Deq q1 by simp
    then obtain out q2 where r: "run_ops enqueue dequeue q1 ops = Some (out, q2)" "inv q2"
      "out @ contents q2 = contents q1 @ enqueued ops" "capacity q2 = capacity q1"
      using Cons.IH [OF q1(2)] by blast
    have "take n (contents q) @ out @ contents q2 = contents q @ enqueued ops"
      using r(3) q1(3) by (metis append.assoc append_take_drop_id)
    with Deq q1 r show ?thesis by simp
  qed
qed

lemma drained_in_order:
  assumes "inv q" "contents q = []" "ops_fit (capacity q) 0 ops"
    and "run_ops enqueue dequeue q ops = Some (out, q')" "contents q' = []"
  shows "out = enqueued ops"
  using fifo_script [OF assms(1), of ops] assms(2-) by auto

end

text \<open>The ring buffer provides the interface.\<close>

definition rb_enqueue :: "ring_buffer \<Rightarrow> byte list \<Rightarrow> ring_buffer option" where
  "rb_enqueue rb d = ring_buffer_user_write rb d (of_nat (length d))"

definition rb_dequeue :: "ring_buffer \<Rightarrow> nat \<Rightarrow> (byte list \<times> ring_buffer) option" where
  "rb_dequeue rb n = ring_buffer_user_read rb (of_nat n)"

lemma rb_capacity_bound: "rb_wf rb \<Longrightarrow> rb_capacity rb \<le> 2 ^ 63"
  by (auto simp: rb_capacity_def elim: rb_wfE)

lemma of_nat_u64_neq_0: "0 < n \<Longrightarrow> n < 2 ^ 64 \<Longrightarrow> (of_nat n :: u64) \<noteq> 0"
  by (simp add: u64_neq_0)

interpretation rbq: byte_queue rb_wf rb_contents rb_capacity rb_enqueue rb_dequeue
proof unfold_locales
  fix q :: ring_buffer
  assume wf: "rb_wf q"
  show le: "length (rb_contents q) \<le> rb_capacity q"
    using size_le_max [OF wf] by (simp add: rb_capacity_def)
  fix d :: "byte list"
  assume d: "d \<noteq> []" "length (rb_contents q) + length d \<le> rb_capacity q"
  then have "length d < 2 ^ 64" using rb_capacity_bound [OF wf] by simp
  then show "\<exists>q'. rb_enqueue q d = Some q' \<and> rb_wf q' \<and>
      rb_contents q' = rb_contents q @ d \<and> rb_capacity q' = rb_capacity q"
    using ring_buffer_user_write_contents [OF wf, of d "of_nat (length d)"] d
    by (simp add: rb_enqueue_def of_nat_u64_neq_0)
next
  fix q :: ring_buffer and n
  assume wf: "rb_wf q" and n: "0 < n" "n \<le> length (rb_contents q)"
  then have "n < 2 ^ 64"
    using rb_capacity_bound [OF wf] size_le_max [OF wf] by (simp add: rb_capacity_def)
  then show "\<exists>q'. rb_dequeue q n = Some (take n (rb_contents q), q') \<and> rb_wf q' \<and>
      rb_contents q' = drop n (rb_contents q) \<and> rb_capacity q' = rb_capacity q"
    using ring_buffer_user_read_contents [OF wf, of "of_nat n"] n
    by (simp add: rb_dequeue_def of_nat_u64_neq_0)
qed

section \<open>Properties\<close>

lemma init_ring_buffer_wf:
  assumes "cap \<noteq> 0" "unat cap \<le> 2 ^ 63"
  shows "rb_wf (init_ring_buffer junk cap)" "rb_contents (init_ring_buffer junk cap) = []"
    "rb_capacity (init_ring_buffer junk cap) = unat cap"
  using assms
  by (simp_all add: rb_wf_def init_ring_buffer_def rb_contents_def ring_buffer_size_def
      rb_capacity_def word_gt_0)

lemma ring_buffer_clear_wf:
  "rb_wf rb \<Longrightarrow> rb_wf (ring_buffer_clear rb) \<and> rb_contents (ring_buffer_clear rb) = []"
  by (auto simp: rb_wf_def ring_buffer_clear_def rb_contents_def ring_buffer_size_def word_gt_0
      split: option.splits)

lemma ring_buffer_empty_iff: "rb_wf rb \<Longrightarrow> ring_buffer_empty rb \<longleftrightarrow> rb_contents rb = []"
proof -
  assume wf: "rb_wf rb"
  have "rb_contents rb = [] \<longleftrightarrow> unat (ring_buffer_size rb) = 0"
    by (metis length_0_conv length_rb_contents)
  then show ?thesis
    using wf unat_ring_buffer_size [OF wf] u64_eq_iff [of "rb_head rb" "rb_tail rb"]
    by (auto simp: ring_buffer_empty_def elim!: rb_wfE)
qed

lemma ring_buffer_full_iff:
  "rb_wf rb \<Longrightarrow> ring_buffer_full rb \<longleftrightarrow> length (rb_contents rb) = rb_capacity rb"
  using unat_ring_buffer_size [of rb]
  by (auto simp: ring_buffer_full_def rb_capacity_def elim!: rb_wfE)

text \<open>C5 (rb_fifo_stream). Bytes leave a ring buffer in the order in which they were written: for
  every script of non-empty writes that fit and non-empty reads of what is there, all operations
  succeed, no read or write leaves the block, and what was read followed by what is still queued
  is what was queued at the start followed by everything written.\<close>

theorem rb_fifo_stream:
  assumes "rb_wf rb" and "ops_fit (rb_capacity rb) (length (rb_contents rb)) ops"
  shows "\<exists>out rb'. run_ops rb_enqueue rb_dequeue rb ops = Some (out, rb') \<and> rb_wf rb' \<and>
    out @ rb_contents rb' = rb_contents rb @ enqueued ops \<and> rb_capacity rb' = rb_capacity rb"
  using rbq.fifo_script [OF assms] .

lemma rb_fifo_stream_witness:
  "\<exists>out rb'. run_ops rb_enqueue rb_dequeue (init_ring_buffer [] 4)
      [Enq [1, 2, 3], Deq 2, Enq [4, 5, 6], Deq 4] = Some (out, rb') \<and> rb_wf rb' \<and>
    out @ rb_contents rb' = [1, 2, 3, 4, 5, 6] \<and> rb_capacity rb' = 4"
proof -
  have "rb_wf (init_ring_buffer [] 4)" "rb_contents (init_ring_buffer [] 4) = []"
    "rb_capacity (init_ring_buffer [] 4) = 4"
    using init_ring_buffer_wf [of 4 "[]"] by simp_all
  then show ?thesis
    using rb_fifo_stream [of "init_ring_buffer [] 4" "[Enq [1, 2, 3], Deq 2, Enq [4, 5, 6], Deq 4]"]
    by simp
qed

text \<open>C17 (rb_copy_peeks). \<open>ring_buffer_copy\<close> reads any range of the queued bytes, across the
  wrap-around point too, and leaves the buffer alone: the segment TCP (re)transmits from its send
  buffer is exactly that slice of the unacknowledged data.\<close>

theorem rb_copy_peeks:
  assumes "rb_wf rb" and "unat offset + unat amount \<le> unat (ring_buffer_size rb)"
  shows "ring_buffer_copy rb offset amount =
    Some (take (unat amount) (drop (unat offset) (rb_contents rb)))"
  using ring_buffer_copy_contents assms by simp

definition wrapped_example :: ring_buffer where
  "wrapped_example = \<lparr>rb_buffer = Some [30, 40, 10, 20], rb_max = 4, rb_head = 2, rb_tail = 2, rb_full = True\<rparr>"

lemma rb_copy_peeks_witness:
  "rb_wf wrapped_example \<and> ring_buffer_copy wrapped_example 1 3 = Some [20, 30, 40]"
proof -
  have wf: "rb_wf wrapped_example" by (simp add: rb_wf_def wrapped_example_def)
  have "rb_contents wrapped_example = [10, 20, 30, 40]"
    by (simp add: rb_contents_def wrapped_example_def ring_buffer_size_def circ_def upt_rec)
  then show ?thesis
    using wf rb_copy_peeks [OF wf, of 1 3] by (simp add: ring_buffer_size_def wrapped_example_def)
qed

lemma mod_head_tail:
  assumes "rb_wf rb"
  shows "rb_head rb mod rb_max rb = rb_head rb" "rb_tail rb mod rb_max rb = rb_tail rb"
  using assms by (simp_all add: rb_wf_def u64_mod_self)

text \<open>C18 (rb_zero_amount_flips_full). The \<open>full\<close> flag is only right for non-zero amounts: a read
  (or \<open>ring_buffer_advance\<close>) of zero bytes from a full buffer throws everything queued away, and a
  write of zero bytes to an empty buffer makes it report a full load of stale bytes.\<close>

theorem rb_zero_amount_flips_full:
  assumes wf: "rb_wf rb"
  shows "(rb_full rb \<longrightarrow> (\<exists>rb'. ring_buffer_advance rb 0 = Some rb' \<and> rb_wf rb' \<and>
      rb_contents rb' = [] \<and> length (rb_contents rb) = rb_capacity rb)) \<and>
    (rb_contents rb = [] \<longrightarrow> (\<exists>rb'. ring_buffer_user_write rb [] 0 = Some rb' \<and> rb_wf rb' \<and>
      length (rb_contents rb') = rb_capacity rb))"
proof (intro conjI impI)
  assume full: "rb_full rb"
  then have f: "rb_head rb = rb_tail rb" using wf by (elim rb_wfE) blast
  let ?rb' = "rb\<lparr>rb_head := rb_head rb, rb_full := False\<rparr>"
  have "ring_buffer_advance rb 0 = Some ?rb'"
    using mod_head_tail [OF wf] wf by (simp add: ring_buffer_advance_def rb_wf_def)
  moreover have wf': "rb_wf ?rb'" using wf by (simp add: rb_wf_def split: option.splits)
  moreover have "ring_buffer_empty ?rb'" using f by (simp add: ring_buffer_empty_def)
  ultimately show "\<exists>rb'. ring_buffer_advance rb 0 = Some rb' \<and> rb_wf rb' \<and>
      rb_contents rb' = [] \<and> length (rb_contents rb) = rb_capacity rb"
    using ring_buffer_empty_iff [OF wf'] ring_buffer_full_iff [OF wf] full
    by (simp add: ring_buffer_full_def)
next
  assume "rb_contents rb = []"
  then have e: "rb_head rb = rb_tail rb" "\<not> rb_full rb"
    using ring_buffer_empty_iff [OF wf] by (simp_all add: ring_buffer_empty_def)
  obtain buf where b: "rb_buffer rb = Some buf" using wf by (elim rb_wfE) blast
  obtain buf' where w: "ring_buffer_user_write rb [] 0 =
      Some (rb\<lparr>rb_buffer := Some buf', rb_tail := rb_tail rb, rb_full := True\<rparr>)"
    and "written buf (unat (rb_tail rb)) [] buf'"
    using user_write_block [OF wf b, of "[]" 0] e mod_head_tail [OF wf] by auto
  then have wf': "rb_wf (rb\<lparr>rb_buffer := Some buf', rb_tail := rb_tail rb, rb_full := True\<rparr>)"
    using wf e b by (simp add: rb_wf_def written_def)
  show "\<exists>rb'. ring_buffer_user_write rb [] 0 = Some rb' \<and> rb_wf rb' \<and>
      length (rb_contents rb') = rb_capacity rb"
    using w wf' ring_buffer_full_iff [OF wf'] by (simp add: ring_buffer_full_def rb_capacity_def)
qed

lemma rb_zero_amount_flips_full_witness:
  "rb_wf wrapped_example \<and> rb_full wrapped_example \<and>
   (\<exists>rb'. ring_buffer_advance wrapped_example 0 = Some rb' \<and> rb_contents rb' = []) \<and>
   (\<exists>rb'. ring_buffer_user_write (init_ring_buffer [] 4) [] 0 = Some rb' \<and>
      length (rb_contents rb') = 4)"
proof -
  have wf: "rb_wf wrapped_example" "rb_full wrapped_example"
    by (simp_all add: rb_wf_def wrapped_example_def)
  have i: "rb_wf (init_ring_buffer [] 4)" "rb_contents (init_ring_buffer [] 4) = []"
    "rb_capacity (init_ring_buffer [] 4) = 4"
    using init_ring_buffer_wf [of 4 "[]"] by simp_all
  show ?thesis
    using wf i rb_zero_amount_flips_full [OF wf(1)] rb_zero_amount_flips_full [OF i(1)] by auto
qed

end
