(* ===== verification/Hash_Map.thy ===== *)
theory Hash_Map
  imports Iros_Prelude
begin

text \<open>
  The kernel's intrusive chained hash map, \<^verbatim>\<open>kernel/util/hash_map.c\<close>. An entry is the address of the
  \<open>struct hash_entry\<close> inside the caller's object; its \<open>next\<close> field is memory (\<open>hm_next\<close>), and \<open>entry\<close>
  variables of type \<open>struct hash_entry **\<close> are slots: a bucket or the \<open>next\<close> field of an entry. The
  theory relates the pointer structure to the set of stored entries and gives that set as an
  interface to the users of hash maps. Spin locks are left out: every operation is atomic.
\<close>

section \<open>Model\<close>

record 'k hash_map =
  hm_hash :: "'k \<Rightarrow> u64 \<Rightarrow> u64"
  hm_equals :: "'k \<Rightarrow> 'k \<Rightarrow> bool"
  hm_key :: "addr \<Rightarrow> 'k"
  num_buckets :: u64
  hm_size :: u64
  hm_entries :: "addr option list"
  hm_next :: "addr \<Rightarrow> addr option"

abbreviation (input) HASH_DEFAULT_NUM_BUCKETS :: u64 where "HASH_DEFAULT_NUM_BUCKETS \<equiv> 25"

datatype slot = Bucket nat | Next addr

fun read_slot :: "'k hash_map \<Rightarrow> slot \<Rightarrow> addr option option" where
  "read_slot hm (Bucket i) = cell_get (hm_entries hm) i"
| "read_slot hm (Next e) = Some (hm_next hm e)"

fun write_slot :: "'k hash_map \<Rightarrow> slot \<Rightarrow> addr option \<Rightarrow> 'k hash_map option" where
  "write_slot hm (Bucket i) v =
     do { es \<leftarrow> cell_set (hm_entries hm) i v; Some (hm\<lparr>hm_entries := es\<rparr>) }"
| "write_slot hm (Next e) v = Some (hm\<lparr>hm_next := (hm_next hm)(e := v)\<rparr>)"

definition set_next :: "addr \<Rightarrow> addr option \<Rightarrow> 'k hash_map \<Rightarrow> 'k hash_map" where
  "set_next e v hm = hm\<lparr>hm_next := (hm_next hm)(e := v)\<rparr>"

text \<open>The inner loop of the resize: move one chain to the new buckets.\<close>

partial_function (option) rehash_chain ::
  "'k hash_map \<Rightarrow> u64 \<Rightarrow> addr option \<Rightarrow> addr option list \<Rightarrow> (addr \<Rightarrow> addr option) \<Rightarrow>
   (addr option list \<times> (addr \<Rightarrow> addr option)) option" where
  "rehash_chain hm new_num_buckets entry new_buckets nx =
     (case entry of None \<Rightarrow> Some (new_buckets, nx)
      | Some e \<Rightarrow> do {
          let next' = nx e;
          let new_hash = hm_hash hm (hm_key hm e) new_num_buckets;
          head \<leftarrow> cell_get new_buckets (unat new_hash);
          let nx = nx(e := head);
          new_buckets \<leftarrow> cell_set new_buckets (unat new_hash) (Some e);
          rehash_chain hm new_num_buckets next' new_buckets nx
        })"

definition hash_resize_if_needed :: "'k hash_map \<Rightarrow> 'k hash_map option" where
  "hash_resize_if_needed hm =
     (if hm_size hm > 4 * num_buckets hm then do {
        let new_num_buckets = num_buckets hm * 16;
        (new_buckets, nx) \<leftarrow> for_u64 0 (num_buckets hm)
          (\<lambda>i (new_buckets, nx). do {
             entry \<leftarrow> cell_get (hm_entries hm) (unat i);
             rehash_chain hm new_num_buckets entry new_buckets nx
           })
          (replicate (unat new_num_buckets) None, hm_next hm);
        Some (hm\<lparr>hm_entries := new_buckets, num_buckets := new_num_buckets, hm_next := nx\<rparr>)
      } else Some hm)"

text \<open>\<open>mem\<close> is the memory of the \<open>next\<close> fields at the time of the call.\<close>

definition hash_create_hash_map_with_size ::
  "('k \<Rightarrow> u64 \<Rightarrow> u64) \<Rightarrow> ('k \<Rightarrow> 'k \<Rightarrow> bool) \<Rightarrow> (addr \<Rightarrow> 'k) \<Rightarrow> u64 \<Rightarrow> (addr \<Rightarrow> addr option) \<Rightarrow> 'k hash_map" where
  "hash_create_hash_map_with_size hash equals key n mem =
     \<lparr>hm_hash = hash, hm_equals = equals, hm_key = key, num_buckets = n, hm_size = 0,
      hm_entries = replicate (unat n) None, hm_next = mem\<rparr>"

definition hash_create_hash_map ::
  "('k \<Rightarrow> u64 \<Rightarrow> u64) \<Rightarrow> ('k \<Rightarrow> 'k \<Rightarrow> bool) \<Rightarrow> (addr \<Rightarrow> 'k) \<Rightarrow> (addr \<Rightarrow> addr option) \<Rightarrow> 'k hash_map" where
  "hash_create_hash_map hash equals key mem =
     hash_create_hash_map_with_size hash equals key HASH_DEFAULT_NUM_BUCKETS mem"

definition hash_size :: "'k hash_map \<Rightarrow> u64" where
  "hash_size hm = hm_size hm"

partial_function (option) walk_chain :: "'k hash_map \<Rightarrow> 'k \<Rightarrow> addr option \<Rightarrow> addr option option" where
  "walk_chain hm key entry =
     (case entry of None \<Rightarrow> Some None
      | Some e \<Rightarrow> if hm_equals hm (hm_key hm e) key then Some (Some e)
                  else walk_chain hm key (hm_next hm e))"

text \<open>The callback acts on the state \<open>s\<close> of the caller.\<close>

definition hash_get_or_else_do ::
  "'k hash_map \<Rightarrow> 'k \<Rightarrow> ('s \<Rightarrow> 's) option \<Rightarrow> 's \<Rightarrow> (addr option \<times> 's) option" where
  "hash_get_or_else_do hm key f s = do {
     let i = hm_hash hm key (num_buckets hm);
     head \<leftarrow> cell_get (hm_entries hm) (unat i);
     entry \<leftarrow> walk_chain hm key head;
     Some (case entry of Some e \<Rightarrow> (Some e, s)
           | None \<Rightarrow> (None, case f of Some g \<Rightarrow> g s | None \<Rightarrow> s))
   }"

definition hash_get :: "'k hash_map \<Rightarrow> 'k \<Rightarrow> addr option option" where
  "hash_get hm key = do { (e, _) \<leftarrow> hash_get_or_else_do hm key None (); Some e }"

text \<open>Result of a chain in \<open>hash_get_at_index\<close>: the counter, and the entry if it was reached.\<close>

partial_function (option) index_chain ::
  "'k hash_map \<Rightarrow> u64 \<Rightarrow> u64 \<Rightarrow> addr option \<Rightarrow> (u64 \<times> addr option) option" where
  "index_chain hm index i entry =
     (case entry of None \<Rightarrow> Some (i, None)
      | Some e \<Rightarrow> if i = index then Some (i + 1, Some e)
                  else index_chain hm index (i + 1) (hm_next hm e))"

partial_function (option) index_buckets :: "'k hash_map \<Rightarrow> u64 \<Rightarrow> u64 \<Rightarrow> u64 \<Rightarrow> addr option option" where
  "index_buckets hm index b i =
     (if b < num_buckets hm then do {
        entry \<leftarrow> cell_get (hm_entries hm) (unat b);
        (i, r) \<leftarrow> index_chain hm index i entry;
        case r of Some e \<Rightarrow> Some (Some e) | None \<Rightarrow> index_buckets hm index (b + 1) i
      } else Some None)"

definition hash_get_at_index :: "'k hash_map \<Rightarrow> u64 \<Rightarrow> addr option option" where
  "hash_get_at_index hm index =
     (if index \<ge> hash_size hm then Some None else index_buckets hm index 0 0)"

text \<open>The loop of the updating operations: the slot that holds the key's entry, or the NULL at the end.\<close>

partial_function (option) find_slot :: "'k hash_map \<Rightarrow> 'k \<Rightarrow> slot \<Rightarrow> (slot \<times> addr option) option" where
  "find_slot hm key s = do {
     p \<leftarrow> read_slot hm s;
     case p of None \<Rightarrow> Some (s, None)
     | Some e \<Rightarrow> if hm_equals hm (hm_key hm e) key then Some (s, Some e)
                 else find_slot hm key (Next e)
   }"

text \<open>
  The returned \<^verbatim>\<open>*entry\<close> is read after the resize. A bucket slot then points into the freed array;
  the \<open>next\<close> field of an entry is still there, with its new value.
\<close>

definition hash_put_if_not_present ::
  "'k hash_map \<Rightarrow> 'k \<Rightarrow> ('k \<Rightarrow> addr) \<Rightarrow> (addr option \<times> 'k hash_map) option" where
  "hash_put_if_not_present hm key make_data = do {
     let i = hm_hash hm key (num_buckets hm);
     (entry, r) \<leftarrow> find_slot hm key (Bucket (unat i));
     case r of Some e \<Rightarrow> Some (Some e, hm)
     | None \<Rightarrow> do {
         let d = make_data key;
         hm \<leftarrow> write_slot hm entry (Some d);
         let hm1 = (set_next d None hm)\<lparr>hm_size := hm_size hm + 1\<rparr>;
         hm2 \<leftarrow> hash_resize_if_needed hm1;
         assert_that (case entry of Bucket _ \<Rightarrow> num_buckets hm2 = num_buckets hm1 | Next _ \<Rightarrow> True);
         ret \<leftarrow> read_slot hm2 entry;
         Some (ret, hm2)
       }
   }"

definition hash_put :: "'k hash_map \<Rightarrow> addr \<Rightarrow> 'k hash_map option" where
  "hash_put hm data = do {
     let i = hm_hash hm (hm_key hm data) (num_buckets hm);
     (entry, r) \<leftarrow> find_slot hm (hm_key hm data) (Bucket (unat i));
     case r of Some e \<Rightarrow> None
     | None \<Rightarrow> do {
         hm \<leftarrow> write_slot hm entry (Some data);
         let hm = (set_next data None hm)\<lparr>hm_size := hm_size hm + 1\<rparr>;
         hash_resize_if_needed hm
       }
   }"

definition hash_del :: "'k hash_map \<Rightarrow> 'k \<Rightarrow> (addr option \<times> 'k hash_map) option" where
  "hash_del hm key = do {
     let i = hm_hash hm key (num_buckets hm);
     (entry, r) \<leftarrow> find_slot hm key (Bucket (unat i));
     case r of None \<Rightarrow> Some (None, hm)
     | Some e \<Rightarrow> do {
         hm \<leftarrow> write_slot hm entry (hm_next hm e);
         Some (Some e, hm\<lparr>hm_size := hm_size hm - 1\<rparr>)
       }
   }"

text \<open>The callback may change the map (\<open>__hash_del\<close>) and the state of the caller.\<close>

partial_function (option) each_chain ::
  "(addr \<Rightarrow> 'k hash_map \<times> 's \<Rightarrow> ('k hash_map \<times> 's) option) \<Rightarrow> addr option \<Rightarrow> 'k hash_map \<times> 's \<Rightarrow>
   ('k hash_map \<times> 's) option" where
  "each_chain f entry s =
     (case entry of None \<Rightarrow> Some s
      | Some e \<Rightarrow> do {
          let next' = hm_next (fst s) e;
          s \<leftarrow> f e s;
          each_chain f next' s
        })"

partial_function (option) each_bucket ::
  "(addr \<Rightarrow> 'k hash_map \<times> 's \<Rightarrow> ('k hash_map \<times> 's) option) \<Rightarrow> u64 \<Rightarrow> 'k hash_map \<times> 's \<Rightarrow>
   ('k hash_map \<times> 's) option" where
  "each_bucket f i s =
     (if i < num_buckets (fst s) then do {
        entry \<leftarrow> cell_get (hm_entries (fst s)) (unat i);
        s \<leftarrow> each_chain f entry s;
        each_bucket f (i + 1) s
      } else Some s)"

definition hash_for_each ::
  "'k hash_map \<Rightarrow> (addr \<Rightarrow> 'k hash_map \<times> 's \<Rightarrow> ('k hash_map \<times> 's) option) \<Rightarrow> 's \<Rightarrow>
   ('k hash_map \<times> 's) option" where
  "hash_for_each hm f d = each_bucket f 0 (hm, d)"

section \<open>Chains\<close>

fun chain :: "(addr \<Rightarrow> addr option) \<Rightarrow> addr option \<Rightarrow> addr list \<Rightarrow> bool" where
  "chain nx p [] \<longleftrightarrow> p = None"
| "chain nx p (e # es) \<longleftrightarrow> p = Some e \<and> chain nx (nx e) es"

lemma chain_cong: "(\<And>e. e \<in> set es \<Longrightarrow> nx e = nx' e) \<Longrightarrow> chain nx p es = chain nx' p es"
  by (induction es arbitrary: p) auto

lemma chain_upd [simp]: "e \<notin> set es \<Longrightarrow> chain (nx(e := v)) p es = chain nx p es"
  by (rule chain_cong) auto

lemma chain_append:
  assumes "distinct xs"
  shows "chain nx p (xs @ ys) \<longleftrightarrow>
    (if xs = [] then chain nx p ys
     else chain (nx(last xs := None)) p xs \<and> chain nx (nx (last xs)) ys)"
  using assms
proof (induction xs arbitrary: p)
  case (Cons x xs)
  show ?case
  proof (cases "xs = []")
    case False
    then have "x \<noteq> last xs" using Cons.prems by auto
    then show ?thesis using False Cons.IH [of "nx x"] Cons.prems by auto
  qed auto
qed simp

text \<open>Overwriting the slot behind \<open>xs\<close> replaces what follows.\<close>

definition slot_after :: "nat \<Rightarrow> addr list \<Rightarrow> slot" where
  "slot_after i xs = (if xs = [] then Bucket i else Next (last xs))"

text \<open>
  Buckets \<open>bs\<close> whose chains hold the entries of \<open>S\<close>, each in the bucket \<open>h\<close> says.
\<close>

definition buckets_rep ::
  "(addr \<Rightarrow> nat) \<Rightarrow> addr option list \<Rightarrow> (addr \<Rightarrow> addr option) \<Rightarrow> addr list list \<Rightarrow> addr set \<Rightarrow> bool" where
  "buckets_rep h bs nx css S \<longleftrightarrow> length css = length bs \<and>
     (\<forall>j < length bs. chain nx (bs ! j) (css ! j) \<and> distinct (css ! j) \<and> set (css ! j) = {e \<in> S. h e = j})"

lemma rep_distinct: "buckets_rep h bs nx css S \<Longrightarrow> j < length bs \<Longrightarrow> distinct (css ! j)"
  by (simp add: buckets_rep_def)

lemma buckets_replace:
  assumes rep: "buckets_rep h bs nx css S" and i: "i < length bs" and split: "css ! i = xs @ ys"
    and q: "chain nx' q zs" and d: "distinct (xs @ zs)"
    and same: "\<And>e. e \<notin> set zs \<Longrightarrow> e \<noteq> last xs \<Longrightarrow> nx' e = nx e"
    and new: "\<And>j. j < length bs \<Longrightarrow> j \<noteq> i \<Longrightarrow> set zs \<inter> set (css ! j) = {}"
    and mem: "\<And>j. j < length bs \<Longrightarrow>
      {e \<in> S'. h e = j} = (if j = i then set (xs @ zs) else set (css ! j))"
    and slot: "if xs = [] then bs' = bs[i := q] \<and> (\<forall>e. e \<notin> set zs \<longrightarrow> nx' e = nx e)
      else bs' = bs \<and> nx' (last xs) = q"
  shows "buckets_rep h bs' nx' (css[i := xs @ zs]) S'"
proof -
  have len: "length css = length bs" "length bs' = length bs"
    using rep slot by (auto simp: buckets_rep_def split: if_splits)
  have "chain nx (bs ! i) (css ! i) \<and> set (css ! i) = {e \<in> S. h e = i}"
    using rep i unfolding buckets_rep_def by blast
  then have at_i: "chain nx (bs ! i) (xs @ ys)" "set (xs @ ys) = {e \<in> S. h e = i}"
    unfolding split by blast+
  have "chain nx' (bs' ! i) (xs @ zs)"
  proof (cases "xs = []")
    case False
    have "chain (nx'(last xs := None)) (bs ! i) xs"
    proof -
      have "chain (nx(last xs := None)) (bs ! i) xs"
        using at_i(1) False d by (auto simp: chain_append)
      moreover have "chain (nx(last xs := None)) (bs ! i) xs = chain (nx'(last xs := None)) (bs ! i) xs"
        using same d by (intro chain_cong) (auto simp: disjoint_iff)
      ultimately show ?thesis by simp
    qed
    then show ?thesis using False d q slot by (simp add: chain_append)
  qed (use q slot i in auto)
  moreover have "chain nx' (bs' ! j) (css ! j)" if "j < length bs" "j \<noteq> i" for j
  proof -
    have "chain nx (bs ! j) (css ! j)" "set (css ! j) = {e \<in> S. h e = j}"
      using rep that by (auto simp: buckets_rep_def)
    moreover have "nx' e = nx e" if "e \<in> set (css ! j)" for e
    proof -
      have not_new: "e \<notin> set zs" using new [OF \<open>j < length bs\<close> \<open>j \<noteq> i\<close>] that by blast
      show ?thesis
    proof (cases "xs = []")
      case True
      then show ?thesis using slot not_new by simp
    next
      case False
      then have "last xs \<in> set (xs @ ys)" by simp
      then have "h (last xs) = i" using at_i(2) by auto
      then have "e \<noteq> last xs" using that \<open>j \<noteq> i\<close> \<open>set (css ! j) = _\<close> by auto
      then show ?thesis using same not_new by simp
    qed
    qed
    moreover have "bs' ! j = bs ! j" using slot that by (cases "xs = []") simp_all
    ultimately show ?thesis using chain_cong [of "css ! j" nx nx' "bs ! j"] by simp
  qed
  ultimately have chains: "chain nx' (bs' ! j) (css[i := xs @ zs] ! j)" if "j < length bs" for j
    using that len(1) by (cases "j = i") simp_all
  have "distinct (css[i := xs @ zs] ! j)" "set (css[i := xs @ zs] ! j) = {e \<in> S'. h e = j}"
    if "j < length bs" for j
    using that len(1) d mem [OF that] rep_distinct [OF rep that] by (cases "j = i"; simp)+
  then show ?thesis using chains len by (simp add: buckets_rep_def)
qed

section \<open>Invariant\<close>

text \<open>
  What the map expects of its functions: \<open>equals\<close> is equality of keys and \<open>hash\<close> stays below the
  number of buckets (which is passed as an \<open>int\<close>).
\<close>

definition hm_fns :: "'k hash_map \<Rightarrow> bool" where
  "hm_fns hm \<longleftrightarrow> (\<forall>a b. hm_equals hm a b \<longleftrightarrow> a = b) \<and>
     (\<forall>k n. 0 < n \<longrightarrow> unat n < 2 ^ 31 \<longrightarrow> hm_hash hm k n < n)"

definition hm_h :: "'k hash_map \<Rightarrow> addr \<Rightarrow> nat" where
  "hm_h hm e = unat (hm_hash hm (hm_key hm e) (num_buckets hm))"

definition hm_rep :: "'k hash_map \<Rightarrow> addr list list \<Rightarrow> addr set \<Rightarrow> bool" where
  "hm_rep hm css S \<longleftrightarrow> hm_fns hm \<and> length (hm_entries hm) = unat (num_buckets hm) \<and>
     0 < num_buckets hm \<and> unat (num_buckets hm) < 2 ^ 31 \<and>
     buckets_rep (hm_h hm) (hm_entries hm) (hm_next hm) css S \<and>
     finite S \<and> inj_on (hm_key hm) S \<and> unat (hm_size hm) = card S"

definition hm_inv :: "'k hash_map \<Rightarrow> addr set \<Rightarrow> bool" where
  "hm_inv hm S \<longleftrightarrow> (\<exists>css. hm_rep hm css S)"

lemma hm_repD:
  assumes "hm_rep hm css S"
  shows "length (hm_entries hm) = unat (num_buckets hm)" "length css = unat (num_buckets hm)"
    "\<And>k. unat (hm_hash hm k (num_buckets hm)) < unat (num_buckets hm)"
    "\<And>a b. hm_equals hm a b \<longleftrightarrow> a = b"
    "\<And>j. j < unat (num_buckets hm) \<Longrightarrow> chain (hm_next hm) (hm_entries hm ! j) (css ! j)"
    "\<And>j. j < unat (num_buckets hm) \<Longrightarrow> distinct (css ! j)"
    "\<And>j. j < unat (num_buckets hm) \<Longrightarrow> set (css ! j) = {e \<in> S. hm_h hm e = j}"
  using assms by (auto simp: hm_rep_def hm_fns_def buckets_rep_def word_less_nat_alt [symmetric])

lemma find_slot_spec:
  assumes "\<And>a b. hm_equals hm a b \<longleftrightarrow> a = b" "read_slot hm s = Some p" "chain (hm_next hm) p es"
  shows "\<exists>xs r. find_slot hm k s = Some (if xs = [] then s else Next (last xs), r) \<and>
    (\<forall>e \<in> set xs. hm_key hm e \<noteq> k) \<and>
    (case r of None \<Rightarrow> es = xs | Some e \<Rightarrow> hm_key hm e = k \<and> (\<exists>ys. es = xs @ e # ys))"
  using assms(2,3)
proof (induction es arbitrary: s p)
  case Nil
  then show ?case by (intro exI [of _ "[]"] exI [of _ None]) (simp add: find_slot.simps)
next
  case (Cons e es)
  show ?case
  proof (cases "hm_key hm e = k")
    case True
    then show ?thesis
      using Cons.prems assms(1)
      by (intro exI [of _ "[]"] exI [of _ "Some e"]) (simp add: find_slot.simps [of _ _ s])
  next
    case False
    obtain xs r where ih: "find_slot hm k (Next e) = Some (if xs = [] then Next e else Next (last xs), r)"
      "\<forall>e \<in> set xs. hm_key hm e \<noteq> k"
      "case r of None \<Rightarrow> es = xs | Some e \<Rightarrow> hm_key hm e = k \<and> (\<exists>ys. es = xs @ e # ys)"
      using Cons.IH [of "Next e" "hm_next hm e"] Cons.prems by auto
    then show ?thesis
      using False Cons.prems assms(1)
      by (intro exI [of _ "e # xs"] exI [of _ r])
        (auto simp: find_slot.simps [of _ _ s] split: option.splits)
  qed
qed

lemma find_in_bucket:
  assumes rep: "hm_rep hm css S" and i_def: "i = unat (hm_hash hm k (num_buckets hm))"
  obtains (absent) "find_slot hm k (Bucket i) = Some (slot_after i (css ! i), None)"
      "\<forall>e \<in> S. hm_key hm e \<noteq> k"
  | (present) xs e ys where "find_slot hm k (Bucket i) = Some (slot_after i xs, Some e)"
      "css ! i = xs @ e # ys" "e \<in> S" "hm_key hm e = k"
proof -
  have i: "i < unat (num_buckets hm)" using hm_repD(3) [OF rep] by (simp add: i_def)
  have "read_slot hm (Bucket i) = Some (hm_entries hm ! i)"
    using i hm_repD(1) [OF rep] by (simp add: cell_get_def)
  from find_slot_spec [OF hm_repD(4) [OF rep] this hm_repD(5) [OF rep i], of k]
  obtain xs r where f: "find_slot hm k (Bucket i) = Some (slot_after i xs, r)"
    "\<forall>e \<in> set xs. hm_key hm e \<noteq> k"
    "case r of None \<Rightarrow> css ! i = xs | Some e \<Rightarrow> hm_key hm e = k \<and> (\<exists>ys. css ! i = xs @ e # ys)"
    by (auto simp: slot_after_def)
  have in_S: "e \<in> S \<and> hm_h hm e = i \<longleftrightarrow> e \<in> set (css ! i)" for e using hm_repD(7) [OF rep i] by auto
  show thesis
  proof (cases r)
    case None
    then have "\<forall>e \<in> S. hm_key hm e \<noteq> k" using f in_S by (auto simp: hm_h_def i_def)
    then show ?thesis using absent f None by simp
  next
    case (Some e)
    then obtain ys where "css ! i = xs @ e # ys" "hm_key hm e = k" using f(3) by auto
    moreover from this have "e \<in> S" using in_S [of e] by simp
    ultimately show ?thesis using present f(1) Some by simp
  qed
qed

text \<open>Lookup.\<close>

lemma walk_chain_find:
  assumes "\<And>a b. hm_equals hm a b \<longleftrightarrow> a = b" "chain (hm_next hm) p es"
  shows "walk_chain hm k p = Some (List.find (\<lambda>e. hm_key hm e = k) es)"
  using assms(2)
proof (induction es arbitrary: p)
  case (Cons e es)
  then show ?case using assms(1) by (auto simp: walk_chain.simps [of _ _ "Some e"])
qed (simp add: walk_chain.simps)

lemma hash_get_spec:
  assumes "hm_inv hm S"
  shows "\<exists>r. hash_get hm k = Some r \<and> (\<forall>e. r = Some e \<longleftrightarrow> e \<in> S \<and> hm_key hm e = k)"
proof -
  obtain css where rep: "hm_rep hm css S" using assms by (auto simp: hm_inv_def)
  let ?i = "unat (hm_hash hm k (num_buckets hm))"
  let ?r = "List.find (\<lambda>e. hm_key hm e = k) (css ! ?i)"
  have i: "?i < unat (num_buckets hm)" using hm_repD(3) [OF rep] .
  have "hash_get hm k = Some ?r"
    using i hm_repD(1) [OF rep] walk_chain_find [OF hm_repD(4) [OF rep] hm_repD(5) [OF rep i], of k]
    by (simp add: hash_get_def hash_get_or_else_do_def Let_def cell_get_def split: option.split)
  moreover have inj: "inj_on (hm_key hm) S" using rep by (simp add: hm_rep_def)
  have mem: "e \<in> set (css ! ?i) \<longleftrightarrow> e \<in> S \<and> hm_h hm e = ?i" for e using hm_repD(7) [OF rep i] by auto
  have "?r = Some e \<longleftrightarrow> e \<in> S \<and> hm_key hm e = k" for e
  proof
    assume "?r = Some e"
    then have "e \<in> set (css ! ?i) \<and> hm_key hm e = k" by (auto simp: find_Some_iff)
    then show "e \<in> S \<and> hm_key hm e = k" using mem by simp
  next
    assume e: "e \<in> S \<and> hm_key hm e = k"
    then have m: "e \<in> set (css ! ?i)" using mem by (simp add: hm_h_def)
    then obtain f where f: "?r = Some f" using e find_None_iff [of _ "css ! ?i"] by (cases ?r) auto
    then have "f \<in> set (css ! ?i) \<and> hm_key hm f = k" by (auto simp: find_Some_iff)
    then have "f \<in> S \<and> hm_key hm f = k" using mem by simp
    then show "?r = Some e" using f e inj by (auto simp: inj_on_def)
  qed
  ultimately show ?thesis by blast
qed

text \<open>Insertion, before the resize.\<close>

definition link_at :: "'k hash_map \<Rightarrow> slot \<Rightarrow> addr \<Rightarrow> 'k hash_map option" where
  "link_at hm entry d = do {
     hm \<leftarrow> write_slot hm entry (Some d);
     Some ((set_next d None hm)\<lparr>hm_size := hm_size hm + 1\<rparr>)
   }"

lemma link_spec:
  assumes rep: "hm_rep hm css S" and i: "i = hm_h hm d" and d: "d \<notin> S"
    and key: "\<forall>e \<in> S. hm_key hm e \<noteq> hm_key hm d" and room: "card S < 2 ^ 64 - 1"
  shows "\<exists>hm'. link_at hm (slot_after i (css ! i)) d = Some hm' \<and>
    hm_rep hm' (css[i := css ! i @ [d]]) (insert d S) \<and> hm_key hm' = hm_key hm \<and>
    num_buckets hm' = num_buckets hm \<and> hm_hash hm' = hm_hash hm"
proof -
  note R = hm_repD [OF rep]
  have il: "i < length (hm_entries hm)" using R(1,3) i by (simp add: hm_h_def)
  let ?nx = "(if css ! i = [] then hm_next hm else (hm_next hm)(last (css ! i) := Some d))(d := None)"
  let ?bs = "if css ! i = [] then (hm_entries hm)[i := Some d] else hm_entries hm"
  have mem: "set (css ! j) = {e \<in> S. hm_h hm e = j}" if "j < length (hm_entries hm)" for j
    using R(7) R(1) that by simp
  have last: "css ! i \<noteq> [] \<Longrightarrow> last (css ! i) \<noteq> d"
    using mem [OF il] d last_in_set [of "css ! i"] by auto
  have "buckets_rep (hm_h hm) ?bs ?nx (css[i := css ! i @ [d]]) (insert d S)"
  proof (rule buckets_replace [where ys = "[]" and q = "Some d"])
    show "buckets_rep (hm_h hm) (hm_entries hm) (hm_next hm) css S" using rep by (simp add: hm_rep_def)
    show "distinct (css ! i @ [d])" using R(6) R(1) il mem [OF il] d by auto
    show "set [d] \<inter> set (css ! j) = {}" if "j < length (hm_entries hm)" for j
      using mem [OF that] d by auto
    show "{e \<in> insert d S. hm_h hm e = j} = (if j = i then set (css ! i @ [d]) else set (css ! j))"
      if "j < length (hm_entries hm)" for j
      using mem [OF that] i by auto
    show "if css ! i = [] then ?bs = (hm_entries hm)[i := Some d] \<and> (\<forall>e. e \<notin> set [d] \<longrightarrow> ?nx e = hm_next hm e)
      else ?bs = hm_entries hm \<and> ?nx (last (css ! i)) = Some d"
      using last by auto
  qed (use il in auto)
  moreover have "unat (hm_size hm + 1) = card (insert d S)"
  proof -
    have "unat (hm_size hm) = card S" "finite S" using rep by (simp_all add: hm_rep_def)
    then show ?thesis using d room unat_add_u64 [of "hm_size hm" 1] by simp
  qed
  moreover have "inj_on (hm_key hm) (insert d S)"
    using rep key d by (auto simp: hm_rep_def inj_on_def)
  moreover have "link_at hm (slot_after i (css ! i)) d =
      Some (hm\<lparr>hm_entries := ?bs, hm_next := ?nx, hm_size := hm_size hm + 1\<rparr>)"
    using il by (simp add: link_at_def slot_after_def cell_set_def set_next_def)
  moreover have "hm_h (hm\<lparr>hm_entries := b, hm_next := n, hm_size := z\<rparr>) = hm_h hm" for b n z
    by (simp add: hm_h_def fun_eq_iff)
  ultimately show ?thesis
    using rep by (simp add: hm_rep_def hm_fns_def)
qed

text \<open>Resizing moves every chain into the new buckets.\<close>

lemma rehash_chain_rep:
  assumes "chain nx p es" "distinct es" "set es \<inter> T = {}" "buckets_rep h nb nx css T"
    and "\<And>e. h e < length nb" "\<And>e. unat (hm_hash hm (hm_key hm e) n) = h e"
  shows "\<exists>nb' nx' css'. rehash_chain hm n p nb nx = Some (nb', nx') \<and> length nb' = length nb \<and>
    buckets_rep h nb' nx' css' (T \<union> set es) \<and> (\<forall>e. e \<notin> set es \<longrightarrow> nx' e = nx e)"
  using assms(1-5)
proof (induction es arbitrary: p nb nx css T)
  case Nil
  then show ?case by (auto simp: rehash_chain.simps)
next
  case (Cons e es)
  let ?b = "h e"
  let ?nx = "nx(e := nb ! ?b)" and ?nb = "nb[?b := Some e]"
  have b: "?b < length nb" using Cons.prems by simp
  have at: "chain nx (nb ! j) (css ! j) \<and> distinct (css ! j) \<and> set (css ! j) = {x \<in> T. h x = j}"
    if "j < length nb" for j
    using Cons.prems(4) that by (simp add: buckets_rep_def)
  have "e \<notin> T" using Cons.prems(3) by simp
  then have notin: "e \<notin> set (css ! j)" if "j < length nb" for j using at [OF that] by simp
  have "chain ?nx (?nb ! j) (css[?b := e # css ! ?b] ! j) \<and> distinct (css[?b := e # css ! ?b] ! j) \<and>
      set (css[?b := e # css ! ?b] ! j) = {x \<in> insert e T. h x = j}" if j: "j < length nb" for j
    using at [OF j] notin [OF j] b j Cons.prems(4) by (cases "j = ?b") (auto simp: buckets_rep_def)
  then have rep: "buckets_rep h ?nb ?nx (css[?b := e # css ! ?b]) (insert e T)"
    using Cons.prems(4) unfolding buckets_rep_def by simp
  have p: "p = Some e" "chain ?nx (nx e) es" "distinct es" "set es \<inter> insert e T = {}" "e \<notin> set es"
    using Cons.prems by auto
  have hb: "\<And>x. h x < length ?nb" using Cons.prems(5) by simp
  from Cons.IH [OF p(2-4) rep hb] obtain nb' nx' css' where
    ih: "rehash_chain hm n (nx e) ?nb ?nx = Some (nb', nx')" "length nb' = length nb"
      "buckets_rep h nb' nx' css' (insert e T \<union> set es)" "\<forall>x. x \<notin> set es \<longrightarrow> nx' x = ?nx x"
    unfolding length_list_update by blast
  have "rehash_chain hm n p nb nx = Some (nb', nx')"
    using ih(1) p(1) b assms(6) by (simp add: rehash_chain.simps [of _ _ "Some e"] cell_get_def cell_set_def)
  then show ?case using ih(2-4) by auto
qed

definition rehash_bucket ::
  "'k hash_map \<Rightarrow> u64 \<Rightarrow> u64 \<Rightarrow> addr option list \<times> (addr \<Rightarrow> addr option) \<Rightarrow>
   (addr option list \<times> (addr \<Rightarrow> addr option)) option" where
  "rehash_bucket hm n i = (\<lambda>(new_buckets, nx). do {
     entry \<leftarrow> cell_get (hm_entries hm) (unat i);
     rehash_chain hm n entry new_buckets nx
   })"

text \<open>After \<open>m\<close> buckets: their entries are in the new buckets, the other chains are untouched.\<close>

definition rehashed ::
  "'k hash_map \<Rightarrow> addr list list \<Rightarrow> addr set \<Rightarrow> u64 \<Rightarrow> nat \<Rightarrow> addr option list \<times> (addr \<Rightarrow> addr option) \<Rightarrow> bool" where
  "rehashed hm css S n m = (\<lambda>(nb, nx). length nb = unat n \<and>
     (\<exists>ncss. buckets_rep (\<lambda>e. unat (hm_hash hm (hm_key hm e) n)) nb nx ncss {e \<in> S. hm_h hm e < m}) \<and>
     (\<forall>j. m \<le> j \<longrightarrow> j < unat (num_buckets hm) \<longrightarrow> chain nx (hm_entries hm ! j) (css ! j)))"

lemma rehash_bucket_step:
  assumes rep: "hm_rep hm css S" and m: "m < unat (num_buckets hm)"
    and h: "\<And>k. unat (hm_hash hm k n) < unat n" and pre: "rehashed hm css S n m s"
  shows "\<exists>s'. rehash_bucket hm n (of_nat m) s = Some s' \<and> rehashed hm css S n (Suc m) s'"
proof -
  let ?h = "\<lambda>e. unat (hm_hash hm (hm_key hm e) n)"
  note R = hm_repD [OF rep]
  obtain nb nx ncss where s: "s = (nb, nx)" "length nb = unat n"
    "buckets_rep ?h nb nx ncss {e \<in> S. hm_h hm e < m}"
    "\<And>j. m \<le> j \<Longrightarrow> j < unat (num_buckets hm) \<Longrightarrow> chain nx (hm_entries hm ! j) (css ! j)"
    using pre by (cases s) (auto simp: rehashed_def)
  have mem: "set (css ! j) = {e \<in> S. hm_h hm e = j}" if "j < unat (num_buckets hm)" for j
    using R(7) that .
  have disj: "set (css ! m) \<inter> {e \<in> S. hm_h hm e < m} = {}" using mem [OF m] by auto
  have hl: "?h e < length nb" for e using h s(2) by simp
  from rehash_chain_rep [where hm = hm and n = n, OF s(4) [OF le_refl m] R(6) [OF m] disj s(3) hl refl]
  obtain nb' nx' css' where r: "rehash_chain hm n (hm_entries hm ! m) nb nx = Some (nb', nx')"
      "length nb' = length nb" "buckets_rep ?h nb' nx' css' ({e \<in> S. hm_h hm e < m} \<union> set (css ! m))"
      "\<forall>e. e \<notin> set (css ! m) \<longrightarrow> nx' e = nx e"
    by blast
  have un: "{e \<in> S. hm_h hm e < m} \<union> set (css ! m) = {e \<in> S. hm_h hm e < Suc m}"
    unfolding mem [OF m] by (auto simp: less_Suc_eq)
  have old: "chain nx' (hm_entries hm ! j) (css ! j)" if "Suc m \<le> j" "j < unat (num_buckets hm)" for j
  proof -
    have "nx' e = nx e" if "e \<in> set (css ! j)" for e
    proof -
      have "hm_h hm e = j" using that mem [OF \<open>j < unat (num_buckets hm)\<close>] by simp
      then have "e \<notin> set (css ! m)" using mem [OF m] \<open>Suc m \<le> j\<close> by simp
      then show ?thesis using r(4) by blast
    qed
    then show ?thesis using s(4) [of j] that chain_cong [of "css ! j" nx' nx "hm_entries hm ! j"] by simp
  qed
  have "\<exists>ncss. buckets_rep ?h nb' nx' ncss {e \<in> S. hm_h hm e < Suc m}"
    using r(3) unfolding un by blast
  then have "rehashed hm css S n (Suc m) (nb', nx')"
    using r(2) s(2) old by (simp add: rehashed_def)
  moreover have "m < 2 ^ 64" using m u64_bound [of "num_buckets hm"] by simp
  then have "rehash_bucket hm n (of_nat m) s = Some (nb', nx')"
    using r(1) m R(1) s(1) by (simp add: rehash_bucket_def cell_get_def)
  ultimately show ?thesis by blast
qed

lemma rehash_all:
  assumes rep: "hm_rep hm css S" and h: "\<And>k. unat (hm_hash hm k n) < unat n"
    and "m \<le> unat (num_buckets hm)"
  shows "\<exists>s. fold_opt (\<lambda>k. rehash_bucket hm n (of_nat k)) [0..<m]
      (replicate (unat n) None, hm_next hm) = Some s \<and> rehashed hm css S n m s"
  using assms(3)
proof (induction m)
  case 0
  show ?case
    using hm_repD(5) [OF rep]
    by (auto simp: rehashed_def buckets_rep_def intro!: exI [of _ "replicate (unat n) []"])
next
  case (Suc m)
  then obtain s where "fold_opt (\<lambda>k. rehash_bucket hm n (of_nat k)) [0..<m]
      (replicate (unat n) None, hm_next hm) = Some s" "rehashed hm css S n m s" by auto
  then show ?case
    using rehash_bucket_step [OF rep _ h, of m s] Suc.prems by (simp add: fold_opt_append)
qed

lemma hash_resize_spec:
  assumes inv: "hm_inv hm S" and room: "unat (num_buckets hm) < 2 ^ 27"
  shows "\<exists>hm'. hash_resize_if_needed hm = Some hm' \<and> hm_inv hm' S \<and> hm_key hm' = hm_key hm \<and>
    hm_hash hm' = hm_hash hm \<and>
    num_buckets hm' = (if hm_size hm > 4 * num_buckets hm then num_buckets hm * 16 else num_buckets hm)"
proof (cases "hm_size hm > 4 * num_buckets hm")
  case True
  obtain css where rep: "hm_rep hm css S" using inv by (auto simp: hm_inv_def)
  let ?n = "num_buckets hm" and ?N = "num_buckets hm * 16"
  have N: "unat ?N = 16 * unat ?n" using room unat_mult_u64 [of ?n 16] by simp
  have "0 < ?n" using rep by (simp add: hm_rep_def)
  then have Npos: "0 < ?N" using N by (simp add: word_less_nat_alt)
  have "unat ?N < 2 ^ 31" using N room by simp
  then have h: "unat (hm_hash hm k ?N) < unat ?N" for k
    using rep Npos unfolding hm_rep_def hm_fns_def word_less_nat_alt [symmetric] by blast
  from rehash_all [OF rep h le_refl] obtain nb nx ncss where
    f: "fold_opt (\<lambda>k. rehash_bucket hm ?N (of_nat k)) [0..<unat ?n]
        (replicate (unat ?N) None, hm_next hm) = Some (nb, nx)"
      "length nb = unat ?N"
      "buckets_rep (\<lambda>e. unat (hm_hash hm (hm_key hm e) ?N)) nb nx ncss {e \<in> S. hm_h hm e < unat ?n}"
    by (auto simp: rehashed_def)
  have "{e \<in> S. hm_h hm e < unat ?n} = S" using hm_repD(3) [OF rep] by (auto simp: hm_h_def)
  then have rep': "hm_rep (hm\<lparr>hm_entries := nb, num_buckets := ?N, hm_next := nx\<rparr>) ncss S"
    using f(2,3) rep Npos N room by (simp add: hm_rep_def hm_h_def [abs_def] hm_fns_def)
  have "hash_resize_if_needed hm = Some (hm\<lparr>hm_entries := nb, num_buckets := ?N, hm_next := nx\<rparr>)"
    using True f(1) by (simp add: hash_resize_if_needed_def for_u64_fold rehash_bucket_def [abs_def] Let_def)
  then show ?thesis using rep' True by (auto simp: hm_inv_def)
next
  case False
  then show ?thesis using inv by (auto simp: hash_resize_if_needed_def)
qed

section \<open>Operations on the set of entries\<close>

text \<open>Room for \<open>n\<close> more entries: the bucket counts of the resizes to come still fit an \<open>int\<close>.\<close>

definition hm_room :: "'k hash_map \<Rightarrow> nat \<Rightarrow> bool" where
  "hm_room hm n \<longleftrightarrow> unat (num_buckets hm) < 2 ^ 27 \<and> 4 * (unat (hm_size hm) + n) < 2 ^ 27"

lemma hm_inv_size: "hm_inv hm S \<Longrightarrow> unat (hm_size hm) = card S \<and> finite S"
  by (auto simp: hm_inv_def hm_rep_def)

lemma hash_put_link:
  "hash_put hm d = do {
     (entry, r) \<leftarrow> find_slot hm (hm_key hm d) (Bucket (hm_h hm d));
     case r of Some e \<Rightarrow> None | None \<Rightarrow> Option.bind (link_at hm entry d) hash_resize_if_needed
   }"
  by (simp add: hash_put_def link_at_def hm_h_def Let_def bind_assoc cong: option.case_cong)

lemma hash_put_spec:
  assumes "hm_inv hm S" "hm_room hm (Suc n)" "d \<notin> S"
  shows "if \<exists>e \<in> S. hm_key hm e = hm_key hm d then hash_put hm d = None
    else \<exists>hm'. hash_put hm d = Some hm' \<and> hm_inv hm' (insert d S) \<and> hm_key hm' = hm_key hm \<and> hm_room hm' n"
proof -
  obtain css where rep: "hm_rep hm css S" using assms(1) by (auto simp: hm_inv_def)
  have sz: "unat (hm_size hm) = card S" "finite S" using hm_inv_size [OF assms(1)] by simp_all
  show ?thesis
  proof (cases rule: find_in_bucket [OF rep refl, of "hm_key hm d", folded hm_h_def, case_names absent present])
    case absent
    from link_spec [OF rep refl assms(3) absent(2)] assms sz
    obtain hm1 where l: "link_at hm (slot_after (hm_h hm d) (css ! hm_h hm d)) d = Some hm1"
      "hm_inv hm1 (insert d S)" "hm_key hm1 = hm_key hm" "num_buckets hm1 = num_buckets hm"
      by (auto simp: hm_room_def hm_inv_def)
    have b: "unat (num_buckets hm1) < 2 ^ 27" using l(4) assms(2) by (simp add: hm_room_def)
    from hash_resize_spec [OF l(2) b] obtain hm2 where
      r: "hash_resize_if_needed hm1 = Some hm2" "hm_inv hm2 (insert d S)" "hm_key hm2 = hm_key hm1"
        "num_buckets hm2 = (if hm_size hm1 > 4 * num_buckets hm1 then num_buckets hm1 * 16 else num_buckets hm1)"
      by blast
    have s1: "unat (hm_size hm1) = Suc (unat (hm_size hm))" "unat (hm_size hm2) = Suc (unat (hm_size hm))"
      using hm_inv_size [OF l(2)] hm_inv_size [OF r(2)] sz assms(3) by simp_all
    have "unat (4 * num_buckets hm1) = 4 * unat (num_buckets hm1)"
      "unat (num_buckets hm1 * 16) = 16 * unat (num_buckets hm1)"
      using b unat_mult_u64 [of 4 "num_buckets hm1"] unat_mult_u64 [of "num_buckets hm1" 16] by simp_all
    then have "unat (num_buckets hm2) < 2 ^ 27"
      using r(4) b s1 assms(2) by (simp add: hm_room_def word_less_nat_alt split: if_splits)
    then have "hm_room hm2 n" using s1 assms(2) by (simp add: hm_room_def)
    then show ?thesis using absent l r by (auto simp: hash_put_link)
  next
    case (present xs e ys)
    then show ?thesis by (auto simp: hash_put_link)
  qed
qed

lemma unlink_rep:
  assumes rep: "hm_rep hm css S" and i: "i < unat (num_buckets hm)" and split: "css ! i = xs @ e # ys"
  shows "\<exists>hm'. write_slot hm (slot_after i xs) (hm_next hm e) = Some hm' \<and> hm_size hm' = hm_size hm \<and>
    hm_rep (hm'\<lparr>hm_size := hm_size hm - 1\<rparr>) (css[i := xs @ ys]) (S - {e}) \<and> hm_key hm' = hm_key hm \<and>
    num_buckets hm' = num_buckets hm"
proof -
  note R = hm_repD [OF rep]
  let ?nx = "if xs = [] then hm_next hm else (hm_next hm)(last xs := hm_next hm e)"
  let ?bs = "if xs = [] then (hm_entries hm)[i := hm_next hm e] else hm_entries hm"
  have mem: "set (css ! j) = {x \<in> S. hm_h hm x = j}" if "j < length (hm_entries hm)" for j
    using R(7) R(1) that by simp
  have dist: "distinct (xs @ e # ys)" using R(6) [OF i] split by simp
  have il: "i < length (hm_entries hm)" using i R(1) by simp
  have si: "set (xs @ e # ys) = {x \<in> S. hm_h hm x = i}" using mem [OF il] split by simp
  have "buckets_rep (hm_h hm) ?bs ?nx (css[i := xs @ ys]) (S - {e})"
  proof (rule buckets_replace [where ys = "e # ys" and q = "hm_next hm e"])
    show "buckets_rep (hm_h hm) (hm_entries hm) (hm_next hm) css S" using rep by (simp add: hm_rep_def)
    have "chain (hm_next hm) (hm_next hm e) ys"
      using R(5) [OF i] split dist by (auto simp: chain_append split: if_splits)
    then show "chain ?nx (hm_next hm e) ys"
      using dist last_in_set [of xs] by (cases "xs = []") (auto simp: disjoint_iff)
    show "distinct (xs @ ys)" using dist by simp
    show "set ys \<inter> set (css ! j) = {}" if "j < length (hm_entries hm)" "j \<noteq> i" for j
      using mem [OF that(1)] si that(2) by (force simp: set_eq_iff)
    show "{x \<in> S - {e}. hm_h hm x = j} = (if j = i then set (xs @ ys) else set (css ! j))"
      if "j < length (hm_entries hm)" for j
    proof (cases "j = i")
      case True
      have "{x \<in> S - {e}. hm_h hm x = i} = set (xs @ e # ys) - {e}" unfolding si by blast
      then show ?thesis using True dist by auto
    next
      case False
      have "e \<in> {x \<in> S. hm_h hm x = i}" using si by auto
      then have "hm_h hm e = i" by simp
      then show ?thesis using False mem [OF that] by auto
    qed
  qed (use il split in auto)
  moreover have e: "e \<in> S" using si by auto
  have "unat (hm_size hm - 1) = card (S - {e})"
  proof -
    have "unat (hm_size hm) = card S" "finite S" using rep by (simp_all add: hm_rep_def)
    moreover have "0 < card S" using e \<open>finite S\<close> by (auto simp: card_gt_0_iff)
    ultimately show ?thesis using e unat_sub_u64 [of 1 "hm_size hm"] by simp
  qed
  moreover have "write_slot hm (slot_after i xs) (hm_next hm e) = Some (hm\<lparr>hm_entries := ?bs, hm_next := ?nx\<rparr>)"
    using il by (simp add: slot_after_def cell_set_def)
  moreover have "hm_h (hm\<lparr>hm_entries := b, hm_next := n, hm_size := z\<rparr>) = hm_h hm" for b n z
    by (simp add: hm_h_def fun_eq_iff)
  ultimately show ?thesis
    using rep by (simp add: hm_rep_def hm_fns_def inj_on_diff)
qed

lemma hash_del_spec:
  assumes "hm_inv hm S"
  shows "\<exists>r hm'. hash_del hm k = Some (r, hm') \<and> hm_key hm' = hm_key hm \<and>
    (\<forall>e. r = Some e \<longleftrightarrow> e \<in> S \<and> hm_key hm e = k) \<and> (hm_room hm n \<longrightarrow> hm_room hm' n) \<and>
    hm_inv hm' {e \<in> S. hm_key hm e \<noteq> k}"
proof -
  obtain css where rep: "hm_rep hm css S" using assms by (auto simp: hm_inv_def)
  let ?i = "unat (hm_hash hm k (num_buckets hm))"
  have i: "?i < unat (num_buckets hm)" using hm_repD(3) [OF rep] .
  show ?thesis
  proof (cases rule: find_in_bucket [OF rep refl, of k, case_names absent present])
    case absent
    then have "{e \<in> S. hm_key hm e \<noteq> k} = S" by auto
    then show ?thesis using absent assms by (auto simp: hash_del_def Let_def)
  next
    case (present xs e ys)
    have inj: "inj_on (hm_key hm) S" using rep by (simp add: hm_rep_def)
    then have S': "{e \<in> S. hm_key hm e \<noteq> k} = S - {e}" using present by (auto simp: inj_on_def)
    have r: "\<forall>x. Some e = Some x \<longleftrightarrow> x \<in> S \<and> hm_key hm x = k"
      using present inj by (auto simp: inj_on_def)
    from unlink_rep [OF rep i present(2)] obtain hm1 where
      u: "write_slot hm (slot_after ?i xs) (hm_next hm e) = Some hm1" "hm_size hm1 = hm_size hm"
        "hm_inv (hm1\<lparr>hm_size := hm_size hm - 1\<rparr>) (S - {e})" "hm_key hm1 = hm_key hm"
        "num_buckets hm1 = num_buckets hm"
      by (auto simp: hm_inv_def)
    let ?hm = "hm1\<lparr>hm_size := hm_size hm - 1\<rparr>"
    have "unat (hm_size ?hm) \<le> unat (hm_size hm)"
      using hm_inv_size [OF u(3)] hm_inv_size [OF assms] card_mono [of S "S - {e}"] by auto
    then have "hm_room hm n \<longrightarrow> hm_room ?hm n" using u(5) by (simp add: hm_room_def)
    moreover have "hash_del hm k = Some (Some e, ?hm)"
      using present u by (simp add: hash_del_def Let_def)
    ultimately show ?thesis using u(3,4) r unfolding S' by auto
  qed
qed

lemma hash_create_inv:
  assumes "\<And>a b. equals a b \<longleftrightarrow> a = b" "\<And>k m. 0 < m \<Longrightarrow> unat m < 2 ^ 31 \<Longrightarrow> hash k m < m"
    and "0 < n" "unat n < 2 ^ 31"
  shows "hm_inv (hash_create_hash_map_with_size hash equals key n mem) {}"
  using assms
  by (auto simp: hm_inv_def hm_rep_def hm_fns_def hash_create_hash_map_with_size_def buckets_rep_def
      intro!: exI [of _ "replicate (unat n) []"])

text \<open>The order in which buckets and chains are visited lists every entry once.\<close>

lemma rep_concat_take:
  assumes rep: "hm_rep hm css S" and "m \<le> unat (num_buckets hm)"
  shows "distinct (concat (take m css)) \<and> set (concat (take m css)) = {e \<in> S. hm_h hm e < m}"
  using assms(2)
proof (induction m)
  case (Suc m)
  then have m: "m < length css" "m < unat (num_buckets hm)" using hm_repD(2) [OF rep] by auto
  have mem: "set (css ! m) = {e \<in> S. hm_h hm e = m}" using hm_repD(7) [OF rep m(2)] .
  have "distinct (css ! m)" using hm_repD(6) [OF rep m(2)] .
  moreover have "set (concat (take m css)) \<inter> set (css ! m) = {}"
    using Suc m(2) unfolding mem by auto
  moreover have "{e \<in> S. hm_h hm e < m} \<union> set (css ! m) = {e \<in> S. hm_h hm e < Suc m}"
    unfolding mem by (auto simp: less_Suc_eq)
  ultimately show ?case using Suc by (simp add: take_Suc_conv_app_nth [OF m(1)])
qed simp

lemma rep_concat:
  assumes "hm_rep hm css S"
  shows "distinct (concat css)" "set (concat css) = S" "length (concat css) = unat (hm_size hm)"
proof -
  have "{e \<in> S. hm_h hm e < unat (num_buckets hm)} = S" using hm_repD(3) [OF assms] by (auto simp: hm_h_def)
  then show c: "distinct (concat css)" "set (concat css) = S"
    using rep_concat_take [OF assms, of "unat (num_buckets hm)"] hm_repD(2) [OF assms] by simp_all
  show "length (concat css) = unat (hm_size hm)"
    using distinct_card [OF c(1)] c(2) assms by (simp add: hm_rep_def)
qed

text \<open>A callback that leaves the map alone.\<close>

definition on_entry ::
  "(addr \<Rightarrow> 's \<Rightarrow> 's option) \<Rightarrow> addr \<Rightarrow> 'k hash_map \<times> 's \<Rightarrow> ('k hash_map \<times> 's) option" where
  "on_entry g e ms = map_option (Pair (fst ms)) (g e (snd ms))"

lemma each_chain_fold:
  "chain (hm_next hm) p es \<Longrightarrow>
   each_chain (on_entry g) p (hm, s) = map_option (Pair hm) (fold_opt g es s)"
proof (induction es arbitrary: p s)
  case (Cons e es)
  then show ?case
    by (cases "g e s") (simp_all add: each_chain.simps [of _ "Some e"] on_entry_def)
qed (simp add: each_chain.simps)

lemma drop_concat:
  "i < length css \<Longrightarrow> concat (drop i css) = css ! i @ concat (drop (Suc i) css)"
  by (simp add: Cons_nth_drop_Suc [symmetric])

lemma each_bucket_fold:
  assumes rep: "hm_rep hm css S"
  shows "each_bucket (on_entry g) i (hm, s) = map_option (Pair hm) (fold_opt g (concat (drop (unat i) css)) s)"
proof (induction "unat (num_buckets hm) - unat i" arbitrary: i s)
  case 0
  then show ?case
    using hm_repD(2) [OF rep] by (simp add: each_bucket.simps [of _ i] word_less_nat_alt)
next
  case (Suc n)
  then have lt: "i < num_buckets hm" "unat i < unat (num_buckets hm)" by (simp_all add: word_less_nat_alt)
  have n: "n = unat (num_buckets hm) - unat (i + 1)" using Suc.hyps(2) lt(1) by (simp add: unat_Suc_u64)
  note R = hm_repD [OF rep]
  have "each_chain (on_entry g) (hm_entries hm ! unat i) (hm, s) =
      map_option (Pair hm) (fold_opt g (css ! unat i) s)"
    by (rule each_chain_fold [OF R(5) [OF lt(2)]])
  then have "each_bucket (on_entry g) i (hm, s) = do {
      t \<leftarrow> fold_opt g (css ! unat i) s; each_bucket (on_entry g) (i + 1) (hm, t) }"
    using lt R(1) by (simp add: each_bucket.simps [of _ i] cell_get_def bind_map_option comp_def)
  also have "\<dots> = do { t \<leftarrow> fold_opt g (css ! unat i) s;
      map_option (Pair hm) (fold_opt g (concat (drop (Suc (unat i)) css)) t) }"
    using Suc.hyps(1) [OF n] lt(1) by (simp add: unat_Suc_u64)
  also have "\<dots> = map_option (Pair hm) (fold_opt g (concat (drop (unat i) css)) s)"
    using drop_concat [of "unat i" css] lt(2) R(2) by (simp add: fold_opt_append map_option_bind comp_def)
  finally show ?case .
qed

lemma index_chain_nth:
  assumes "chain (hm_next hm) p es" "unat i \<le> unat idx" "unat i + length es < 2 ^ 64"
  shows "index_chain hm idx i p =
    (if unat idx < unat i + length es then Some (idx + 1, Some (es ! (unat idx - unat i)))
     else Some (i + of_nat (length es), None))"
  using assms
proof (induction es arbitrary: p i)
  case Nil
  then show ?case by (simp add: index_chain.simps)
next
  case (Cons e es)
  show ?case
  proof (cases "i = idx")
    case True
    then show ?thesis using Cons.prems by (simp add: index_chain.simps [of _ _ _ "Some e"])
  next
    case False
    then have lt: "unat i < unat idx" using Cons.prems(2) by (metis le_neq_implies_less u64_eq_iff)
    then have i1: "unat (i + 1) = Suc (unat i)" by (intro unat_Suc_u64 [of i idx]) (simp add: word_less_nat_alt)
    have "index_chain hm idx (i + 1) (hm_next hm e) =
        (if unat idx < unat (i + 1) + length es then Some (idx + 1, Some (es ! (unat idx - unat (i + 1))))
         else Some (i + 1 + of_nat (length es), None))"
      using Cons.prems i1 lt by (intro Cons.IH) simp_all
    then show ?thesis
      using Cons.prems False i1 lt
      by (simp add: index_chain.simps [of _ _ _ "Some e"] nth_Cons' algebra_simps)
  qed
qed

lemma index_buckets_nth:
  assumes rep: "hm_rep hm css S"
    and "unat i \<le> unat idx" "unat i + length (concat (drop (unat b) css)) < 2 ^ 64"
  shows "index_buckets hm idx b i =
    (if unat idx < unat i + length (concat (drop (unat b) css))
     then Some (Some (concat (drop (unat b) css) ! (unat idx - unat i))) else Some None)"
  using assms(2,3)
proof (induction "unat (num_buckets hm) - unat b" arbitrary: b i)
  case 0
  then show ?case
    using hm_repD(2) [OF rep] by (simp add: index_buckets.simps [of _ _ b] word_less_nat_alt)
next
  case (Suc n)
  then have lt: "b < num_buckets hm" "unat b < unat (num_buckets hm)" by (simp_all add: word_less_nat_alt)
  have b1: "unat (b + 1) = Suc (unat b)" using lt(1) by (rule unat_Suc_u64)
  have n: "n = unat (num_buckets hm) - unat (b + 1)" using Suc.hyps(2) b1 by simp
  note R = hm_repD [OF rep]
  let ?es = "css ! unat b" and ?rest = "concat (drop (Suc (unat b)) css)"
  have L: "concat (drop (unat b) css) = ?es @ ?rest" using drop_concat [of "unat b" css] lt(2) R(2) by simp
  have chain: "index_chain hm idx i (hm_entries hm ! unat b) =
      (if unat idx < unat i + length ?es then Some (idx + 1, Some (?es ! (unat idx - unat i)))
       else Some (i + of_nat (length ?es), None))"
    using Suc.prems L by (intro index_chain_nth [OF R(5) [OF lt(2)]]) simp_all
  show ?case
  proof (cases "unat idx < unat i + length ?es")
    case True
    then have "unat idx - unat i < length ?es" using Suc.prems(1) by linarith
    then show ?thesis
      using True chain lt R(1) L by (simp add: index_buckets.simps [of _ _ b] cell_get_def nth_append)
  next
    case False
    have ui: "unat (i + of_nat (length ?es)) = unat i + length ?es"
      using Suc.prems L unat_add_u64 [of i "of_nat (length ?es)"] by simp
    have "index_buckets hm idx (b + 1) (i + of_nat (length ?es)) =
        (if unat idx < unat i + length ?es + length ?rest
         then Some (Some (?rest ! (unat idx - (unat i + length ?es)))) else Some None)"
      using Suc.hyps(1) [OF n, of "i + of_nat (length ?es)"] False Suc.prems ui b1 L by simp
    then show ?thesis
      using chain False lt R(1) L by (simp add: index_buckets.simps [of _ _ b] cell_get_def nth_append)
  qed
qed

section \<open>Interface: a keyed set of entries\<close>

text \<open>
  What the users of a hash map rely on: \<open>inv s S\<close> says that \<open>s\<close> stores exactly the entries \<open>S\<close>,
  \<open>room s n\<close> that \<open>n\<close> more fit.
\<close>

locale entry_store =
  fixes inv :: "'s \<Rightarrow> addr set \<Rightarrow> bool"
    and room :: "'s \<Rightarrow> nat \<Rightarrow> bool"
    and keyof :: "'s \<Rightarrow> addr \<Rightarrow> 'k"
    and get :: "'s \<Rightarrow> 'k \<Rightarrow> addr option option"
    and put :: "'s \<Rightarrow> addr \<Rightarrow> 's option"
    and del :: "'s \<Rightarrow> 'k \<Rightarrow> (addr option \<times> 's) option"
  assumes get_law: "inv s S \<Longrightarrow>
      \<exists>r. get s k = Some r \<and> (\<forall>e. r = Some e \<longleftrightarrow> e \<in> S \<and> keyof s e = k)"
    and put_law: "inv s S \<Longrightarrow> room s (Suc n) \<Longrightarrow> d \<notin> S \<Longrightarrow> \<forall>e \<in> S. keyof s e \<noteq> keyof s d \<Longrightarrow>
      \<exists>s'. put s d = Some s' \<and> inv s' (insert d S) \<and> keyof s' = keyof s \<and> room s' n"
    and del_law: "inv s S \<Longrightarrow>
      \<exists>r s'. del s k = Some (r, s') \<and> inv s' {e \<in> S. keyof s e \<noteq> k} \<and> keyof s' = keyof s \<and>
        (\<forall>e. r = Some e \<longleftrightarrow> e \<in> S \<and> keyof s e = k) \<and> (room s n \<longrightarrow> room s' n)"
    and room_mono: "room s (Suc n) \<Longrightarrow> room s n"

datatype 'k map_op = Put addr | Del 'k

fun run_map_op ::
  "('s \<Rightarrow> addr \<Rightarrow> 's option) \<Rightarrow> ('s \<Rightarrow> 'k \<Rightarrow> (addr option \<times> 's) option) \<Rightarrow> 'k map_op \<Rightarrow> 's \<Rightarrow> 's option" where
  "run_map_op put del (Put d) s = put s d"
| "run_map_op put del (Del k) s = map_option snd (del s k)"

text \<open>The same operations on the set; a put of a stored entry or of a key that is taken is an error.\<close>

fun abs_map_op :: "(addr \<Rightarrow> 'k) \<Rightarrow> 'k map_op \<Rightarrow> addr set \<Rightarrow> addr set option" where
  "abs_map_op key (Put d) S = (if key d \<in> key ` S \<or> d \<in> S then None else Some (insert d S))"
| "abs_map_op key (Del k) S = Some {e \<in> S. key e \<noteq> k}"

context entry_store
begin

lemma run_refines:
  assumes "inv s S" "room s (length ops)" "fold_opt (abs_map_op (keyof s)) ops S = Some T"
  shows "\<exists>t. fold_opt (run_map_op put del) ops s = Some t \<and> inv t T \<and> keyof t = keyof s"
  using assms
proof (induction ops arbitrary: s S)
  case (Cons op ops)
  show ?case
  proof (cases op)
    case (Put d)
    then have "d \<notin> S" "keyof s d \<notin> keyof s ` S"
      and T: "fold_opt (abs_map_op (keyof s)) ops (insert d S) = Some T"
      using Cons.prems(3) by (auto split: if_splits)
    then have "d \<notin> S" "\<forall>e \<in> S. keyof s e \<noteq> keyof s d" by (auto simp: image_iff)
    with put_law [OF Cons.prems(1), of "length ops" d] Cons.prems(2) obtain s' where
      s': "put s d = Some s'" "inv s' (insert d S)" "keyof s' = keyof s" "room s' (length ops)" by auto
    then show ?thesis using Cons.IH [OF s'(2,4)] T Put by auto
  next
    case (Del k)
    from del_law [OF Cons.prems(1), of k "length (op # ops)"] Cons.prems(2) obtain r s' where
      s': "del s k = Some (r, s')" "inv s' {e \<in> S. keyof s e \<noteq> k}" "keyof s' = keyof s"
        "room s' (Suc (length ops))" by auto
    then show ?thesis using Cons.IH [OF s'(2) room_mono] Cons.prems(3) Del by auto
  qed
qed auto

end

interpretation hms: entry_store hm_inv hm_room hm_key hash_get hash_put hash_del
proof unfold_locales
  fix s :: "'a hash_map" and S k n d
  assume inv: "hm_inv s S"
  show "\<exists>r. hash_get s k = Some r \<and> (\<forall>e. (r = Some e) = (e \<in> S \<and> hm_key s e = k))"
    using inv by (rule hash_get_spec)
  show "\<exists>r s'. hash_del s k = Some (r, s') \<and> hm_inv s' {e \<in> S. hm_key s e \<noteq> k} \<and> hm_key s' = hm_key s \<and>
      (\<forall>e. (r = Some e) = (e \<in> S \<and> hm_key s e = k)) \<and> (hm_room s n \<longrightarrow> hm_room s' n)"
    using hash_del_spec [OF inv, of k n] by blast
  assume "hm_room s (Suc n)" "d \<notin> S" "\<forall>e \<in> S. hm_key s e \<noteq> hm_key s d"
  then show "\<exists>s'. hash_put s d = Some s' \<and> hm_inv s' (insert d S) \<and> hm_key s' = hm_key s \<and> hm_room s' n"
    using hash_put_spec [OF inv, of n d] by auto
qed (simp add: hm_room_def)

section \<open>Properties\<close>

text \<open>C3 (hash_map_refines_set). After any sequence of \<open>hash_put\<close> and \<open>hash_del\<close> on an empty map, in
  which no entry is put while it or its key is stored, including every resize on the way, the map
  stores exactly the entries the abstract set has, and \<open>hash_get\<close> finds precisely those.\<close>

theorem hash_map_refines_set:
  assumes "\<And>a b. equals a b \<longleftrightarrow> a = b" "\<And>k m. 0 < m \<Longrightarrow> unat m < 2 ^ 31 \<Longrightarrow> hash k m < m"
    and "length ops < 2 ^ 25" and "fold_opt (abs_map_op key) ops {} = Some S"
  shows "\<exists>hm. fold_opt (run_map_op hash_put hash_del) ops (hash_create_hash_map hash equals key mem) = Some hm \<and>
    unat (hash_size hm) = card S \<and>
    (\<forall>k. \<exists>r. hash_get hm k = Some r \<and> (\<forall>e. r = Some e \<longleftrightarrow> e \<in> S \<and> key e = k))"
proof -
  let ?hm = "hash_create_hash_map hash equals key mem"
  have inv: "hm_inv ?hm {}"
    unfolding hash_create_hash_map_def using assms(1,2) by (intro hash_create_inv) simp_all
  have key: "hm_key ?hm = key" "hm_room ?hm (length ops)"
    using assms(3) by (simp_all add: hash_create_hash_map_def hash_create_hash_map_with_size_def hm_room_def)
  from hms.run_refines [OF inv key(2)] assms(4) key(1) obtain hm where
    "fold_opt (run_map_op hash_put hash_del) ops ?hm = Some hm" "hm_inv hm S" "hm_key hm = key" by auto
  then show ?thesis using hash_get_spec [of hm S] hm_inv_size [of hm S] by (auto simp: hash_size_def)
qed

lemma hash_map_refines_set_witness:
  "\<exists>hm. fold_opt (run_map_op hash_put hash_del) [Put 1, Put 26, Put 51, Del 26]
      (hash_create_hash_map (\<lambda>k n. k mod n) (=) of_nat (\<lambda>_. None)) = Some hm \<and>
    hash_get hm 51 = Some (Some 51) \<and> hash_get hm 26 = Some None"
proof -
  have "k mod m < m" if "0 < m" for k m :: u64
    using that by (simp add: word_less_nat_alt unat_mod)
  then have h: "\<And>k m :: u64. 0 < m \<Longrightarrow> unat m < 2 ^ 31 \<Longrightarrow> k mod m < m" by blast
  have abs: "fold_opt (abs_map_op (of_nat :: addr \<Rightarrow> u64)) [Put 1, Put 26, Put 51, Del 26] {} = Some {51, 1}"
    by auto
  from hash_map_refines_set [where equals = "(=)" and hash = "\<lambda>k n. k mod n" and mem = "\<lambda>_. None",
      OF refl h _ abs]
  obtain hm where r: "fold_opt (run_map_op hash_put hash_del) [Put 1, Put 26, Put 51, Del 26]
      (hash_create_hash_map (\<lambda>k n. k mod n) (=) of_nat (\<lambda>_. None)) = Some hm"
    "\<forall>k. \<exists>r. hash_get hm k = Some r \<and> (\<forall>e. r = Some e \<longleftrightarrow> e \<in> {51, 1} \<and> (of_nat e :: u64) = k)"
    by auto
  have "hash_get hm 51 = Some (Some 51)" using r(2) [rule_format, of 51] by auto
  obtain q where "hash_get hm 26 = Some q" "\<forall>e. q = Some e \<longleftrightarrow> e \<in> {51, 1} \<and> (of_nat e :: u64) = 26"
    using r(2) by blast
  moreover from this have "q \<noteq> Some e" for e by auto
  ultimately have "hash_get hm 26 = Some None" by (cases q) auto
  then show ?thesis using r(1) \<open>hash_get hm 51 = Some (Some 51)\<close> by blast
qed

text \<open>C26 (hash_map_enumerates). There is one order of the stored entries, each listed once, that both
  \<open>hash_for_each\<close> visits and \<open>hash_get_at_index\<close> indexes; an index from \<open>hash_size\<close> on gives NULL.\<close>

theorem hash_map_enumerates:
  assumes "hm_inv hm S"
  shows "\<exists>es. distinct es \<and> set es = S \<and>
    (\<forall>g s. hash_for_each hm (on_entry g) s = map_option (Pair hm) (fold_opt g es s)) \<and>
    (\<forall>i. hash_get_at_index hm i = Some (if unat i < length es then Some (es ! unat i) else None))"
proof -
  obtain css where rep: "hm_rep hm css S" using assms by (auto simp: hm_inv_def)
  note c = rep_concat [OF rep]
  have "length (concat css) < 2 ^ 64" using c(3) u64_bound [of "hm_size hm"] by simp
  then have "hash_get_at_index hm i =
      Some (if unat i < length (concat css) then Some (concat css ! unat i) else None)" for i
    using index_buckets_nth [OF rep, of 0 i 0] c(3)
    by (simp add: hash_get_at_index_def hash_size_def word_le_nat_alt)
  moreover have "hash_for_each hm (on_entry g) s = map_option (Pair hm) (fold_opt g (concat css) s)"
    for g :: "addr \<Rightarrow> 's \<Rightarrow> 's option" and s
    using each_bucket_fold [OF rep, of g 0 s] by (simp add: hash_for_each_def)
  ultimately show ?thesis using c by blast
qed

definition hash_example :: "u64 hash_map" where
  "hash_example = \<lparr>hm_hash = (\<lambda>k n. k mod n), hm_equals = (=), hm_key = of_nat, num_buckets = 2, hm_size = 3,
     hm_entries = [Some 4, Some 7], hm_next = (\<lambda>e. if e = 4 then Some 6 else None)\<rparr>"

lemma mod_hash: "0 < m \<Longrightarrow> unat m < 2 ^ 31 \<Longrightarrow> k mod m < (m :: u64)"
  by (simp add: word_less_nat_alt unat_mod)

lemma hash_example_inv: "hm_inv hash_example {4, 6, 7}"
proof -
  have p: "(of_nat 4 :: u64) mod 2 = 0" "(of_nat 6 :: u64) mod 2 = 0" "(of_nat 7 :: u64) mod 2 = 1" by simp_all
  have "hm_rep hash_example [[4, 6], [7]] {4, 6, 7}"
    using mod_hash
    by (auto simp: hm_rep_def hash_example_def hm_fns_def buckets_rep_def hm_h_def inj_on_def less_Suc_eq)
  then show ?thesis by (auto simp: hm_inv_def)
qed

lemma hash_map_enumerates_witness:
  "hash_get_at_index hash_example 3 = Some None \<and>
   (\<exists>es. set es = {4, 6, 7} \<and> hash_for_each hash_example (on_entry (\<lambda>e s. Some (s + e))) 0 =
      map_option (Pair hash_example) (fold_opt (\<lambda>e s. Some (s + e)) es 0))"
proof -
  from hash_map_enumerates [OF hash_example_inv] obtain es where es: "distinct es" "set es = {4, 6, 7}"
    "\<forall>g (s :: addr). hash_for_each hash_example (on_entry g) s = map_option (Pair hash_example) (fold_opt g es s)"
    "\<forall>i. hash_get_at_index hash_example i = Some (if unat i < length es then Some (es ! unat i) else None)"
    by blast
  have "length es = 3" using distinct_card [OF es(1)] es(2) by simp
  then show ?thesis using es by auto
qed

lemma link_at_read: "link_at hm s d = Some hm' \<Longrightarrow> s \<noteq> Next d \<Longrightarrow> read_slot hm' s = Some (Some d)"
  by (cases s) (auto simp: link_at_def cell_set_def cell_get_def set_next_def split: if_splits)



end
