(* ===== verification/Linked_List.thy ===== *)
theory Linked_List
  imports Iros_Prelude
begin

text \<open>
  The kernel's intrusive doubly linked list, \<^verbatim>\<open>kernel/include/kernel/util/list.h\<close>, on a memory that
  holds the \<open>next\<close> and \<open>prev\<close> field of every \<open>struct list_node\<close>. The theory relates the circular
  pointer structure around a list head to the sequence of its elements; the other components
  use list heads as sequences.
\<close>

section \<open>Model\<close>

record list_mem =
  node_next :: "addr \<Rightarrow> addr"
  node_prev :: "addr \<Rightarrow> addr"

definition node_set_next :: "addr \<Rightarrow> addr \<Rightarrow> list_mem \<Rightarrow> list_mem" where
  "node_set_next a v m = m\<lparr>node_next := (node_next m)(a := v)\<rparr>"

definition node_set_prev :: "addr \<Rightarrow> addr \<Rightarrow> list_mem \<Rightarrow> list_mem" where
  "node_set_prev a v m = m\<lparr>node_prev := (node_prev m)(a := v)\<rparr>"

definition init_list :: "addr \<Rightarrow> list_mem \<Rightarrow> list_mem" where
  "init_list head m = (let m = node_set_prev head head m in node_set_next head (node_prev m head) m)"

definition list_append :: "addr \<Rightarrow> addr \<Rightarrow> list_mem \<Rightarrow> list_mem" where
  "list_append head elem m =
     (let m = node_set_next elem head m;
          m = node_set_prev elem (node_prev m head) m;
          m = node_set_next (node_prev m head) elem m
      in node_set_prev head elem m)"

definition list_prepend :: "addr \<Rightarrow> addr \<Rightarrow> list_mem \<Rightarrow> list_mem" where
  "list_prepend head elem m =
     (let m = node_set_next elem (node_next m head) m;
          m = node_set_prev elem head m;
          m = node_set_prev (node_next m head) elem m
      in node_set_next head elem m)"

definition list_remove :: "addr \<Rightarrow> list_mem \<Rightarrow> list_mem" where
  "list_remove elem m =
     (let m = node_set_next (node_prev m elem) (node_next m elem) m;
          m = node_set_prev (node_next m elem) (node_prev m elem) m;
          m = node_set_next elem elem m
      in node_set_prev elem (node_next m elem) m)"

definition list_is_empty :: "addr \<Rightarrow> list_mem \<Rightarrow> bool" where
  "list_is_empty head m \<longleftrightarrow> node_next m head = head"

definition list_is_singular :: "addr \<Rightarrow> list_mem \<Rightarrow> bool" where
  "list_is_singular head m \<longleftrightarrow> \<not> list_is_empty head m \<and> node_next m head = node_prev m head"

definition list_clear :: "addr \<Rightarrow> list_mem \<Rightarrow> list_mem" where
  "list_clear head m = init_list head m"

definition list_first_entry :: "addr \<Rightarrow> list_mem \<Rightarrow> addr option" where
  "list_first_entry head m = (if list_is_empty head m then None else Some (node_next m head))"

definition list_last_entry :: "addr \<Rightarrow> list_mem \<Rightarrow> addr option" where
  "list_last_entry head m = (if list_is_empty head m then None else Some (node_prev m head))"

definition list_next_entry :: "addr \<Rightarrow> addr \<Rightarrow> list_mem \<Rightarrow> addr option" where
  "list_next_entry head node m = (if head \<noteq> node_next m node then Some (node_next m node) else None)"

text \<open>
  The two iteration macros. The body may change the memory and its own state; the plain one reads
  the \<open>next\<close> field after the body, the safe one has read it before.
\<close>

partial_function (option) each_from ::
  "addr \<Rightarrow> (addr \<Rightarrow> list_mem \<times> 's \<Rightarrow> (list_mem \<times> 's) option) \<Rightarrow> addr \<Rightarrow> list_mem \<times> 's \<Rightarrow>
   (list_mem \<times> 's) option" where
  "each_from head body iter ms =
     (if iter \<noteq> head then do {
        ms \<leftarrow> body iter ms;
        each_from head body (node_next (fst ms) iter) ms
      } else Some ms)"

definition list_for_each_entry ::
  "addr \<Rightarrow> (addr \<Rightarrow> list_mem \<times> 's \<Rightarrow> (list_mem \<times> 's) option) \<Rightarrow> list_mem \<times> 's \<Rightarrow>
   (list_mem \<times> 's) option" where
  "list_for_each_entry head body ms = each_from head body (node_next (fst ms) head) ms"

partial_function (option) each_safe_from ::
  "addr \<Rightarrow> (addr \<Rightarrow> list_mem \<times> 's \<Rightarrow> (list_mem \<times> 's) option) \<Rightarrow> addr \<Rightarrow> addr \<Rightarrow> list_mem \<times> 's \<Rightarrow>
   (list_mem \<times> 's) option" where
  "each_safe_from head body iter next' ms =
     (if iter \<noteq> head then do {
        ms \<leftarrow> body iter ms;
        each_safe_from head body next' (node_next (fst ms) next') ms
      } else Some ms)"

definition list_for_each_entry_safe ::
  "addr \<Rightarrow> (addr \<Rightarrow> list_mem \<times> 's \<Rightarrow> (list_mem \<times> 's) option) \<Rightarrow> list_mem \<times> 's \<Rightarrow>
   (list_mem \<times> 's) option" where
  "list_for_each_entry_safe head body ms =
     each_safe_from head body (node_next (fst ms) head) (node_next (fst ms) (node_next (fst ms) head)) ms"

section \<open>The list a head stands for\<close>

text \<open>\<open>links m a xs b\<close>: the nodes \<open>a\<close>, \<open>xs\<close>, \<open>b\<close> are linked in this order, both ways.\<close>

fun links :: "list_mem \<Rightarrow> addr \<Rightarrow> addr list \<Rightarrow> addr \<Rightarrow> bool" where
  "links m a [] b \<longleftrightarrow> node_next m a = b \<and> node_prev m b = a"
| "links m a (x # xs) b \<longleftrightarrow> node_next m a = x \<and> node_prev m x = a \<and> links m x xs b"

definition is_list :: "list_mem \<Rightarrow> addr \<Rightarrow> addr list \<Rightarrow> bool" where
  "is_list m head xs \<longleftrightarrow> distinct (head # xs) \<and> links m head xs head"

lemma links_append: "links m a (xs @ x # ys) b \<longleftrightarrow> links m a xs x \<and> links m x ys b"
  by (induction xs arbitrary: a) auto

lemma mem_upd [simp]:
  "node_next (node_set_next a v m) = (node_next m)(a := v)" "node_prev (node_set_next a v m) = node_prev m"
  "node_prev (node_set_prev a v m) = (node_prev m)(a := v)" "node_next (node_set_prev a v m) = node_next m"
  by (simp_all add: node_set_next_def node_set_prev_def)

text \<open>Only the \<open>next\<close> fields of \<open>a # xs\<close> and the \<open>prev\<close> fields of \<open>xs @ [b]\<close> matter.\<close>

lemma links_cong:
  assumes "\<And>x. x \<in> set (a # xs) \<Longrightarrow> node_next m x = node_next m' x"
    and "\<And>x. x \<in> set (xs @ [b]) \<Longrightarrow> node_prev m x = node_prev m' x"
  shows "links m a xs b = links m' a xs b"
  using assms by (induction xs arbitrary: a) auto

lemma links_set_next [simp]: "c \<notin> set (a # xs) \<Longrightarrow> links (node_set_next c v m) a xs b = links m a xs b"
  by (rule links_cong) auto

lemma links_set_prev [simp]: "c \<notin> set (xs @ [b]) \<Longrightarrow> links (node_set_prev c v m) a xs b = links m a xs b"
  by (rule links_cong) auto

lemma links_ends: "links m a xs b \<Longrightarrow> node_next m a = hd (xs @ [b]) \<and> node_prev m b = last (a # xs)"
  by (induction xs arbitrary: a) auto

text \<open>The same nodes with another end or another front.\<close>

lemma links_retarget:
  assumes "links m a xs b"
    and "\<And>x. x \<in> set (butlast (a # xs)) \<Longrightarrow> node_next m' x = node_next m x"
    and "\<And>x. x \<in> set xs \<Longrightarrow> node_prev m' x = node_prev m x"
    and "node_next m' (last (a # xs)) = e" "node_prev m' e = last (a # xs)"
  shows "links m' a xs e"
  using assms by (induction xs arbitrary: a) (auto split: if_splits)

lemma links_refront:
  assumes "links m a xs b"
    and "\<And>x. x \<in> set xs \<Longrightarrow> node_next m' x = node_next m x"
    and "\<And>x. x \<in> set (tl (xs @ [b])) \<Longrightarrow> node_prev m' x = node_prev m x"
    and "node_next m' e = hd (xs @ [b])" "node_prev m' (hd (xs @ [b])) = e"
  shows "links m' e xs b"
proof (cases xs)
  case (Cons y ys)
  then have "links m y ys b = links m' y ys b" using assms(2,3) by (intro links_cong) auto
  then show ?thesis using assms Cons by auto
qed (use assms in auto)

lemma last_notin_butlast: "distinct (a # xs) \<Longrightarrow> last (a # xs) \<notin> set (butlast (a # xs))"
  by (metis append_butlast_last_id distinct_append disjoint_iff list.distinct(1) list.set_intros(1))

lemma init_list_spec: "is_list (init_list head m) head []"
  by (simp add: is_list_def init_list_def Let_def)

lemma list_append_spec:
  assumes "is_list m head xs" "e \<notin> set (head # xs)"
  shows "is_list (list_append head e m) head (xs @ [e])"
proof -
  let ?l = "last (head # xs)" and ?m = "list_append head e m"
  have l: "node_prev m head = ?l" "distinct (head # xs)" "links m head xs head"
    using assms(1) links_ends by (auto simp: is_list_def)
  have "?l \<in> set (head # xs)" by (rule last_in_set) simp
  then have "e \<noteq> ?l" using assms(2) by metis
  moreover have "e \<noteq> head" using assms(2) by simp
  ultimately have ne: "e \<noteq> ?l" "e \<noteq> head" by blast+
  have n: "node_next ?m = ((node_next m)(e := head))(?l := e)"
    and p: "node_prev ?m = ((node_prev m)(e := ?l))(head := e)"
    using l(1) ne by (simp_all add: list_append_def Let_def)
  have "links ?m head xs e"
  proof (rule links_retarget [OF l(3)])
    fix x assume "x \<in> set (butlast (head # xs))"
    moreover from this have "x \<in> set (head # xs)" by (rule in_set_butlastD)
    ultimately have "x \<noteq> e" "x \<noteq> ?l" using assms(2) last_notin_butlast [OF l(2)] by metis+
    then show "node_next ?m x = node_next m x" using n by simp
  next
    fix x assume "x \<in> set xs"
    then show "node_prev ?m x = node_prev m x" using p assms(2) l(2) by auto
  qed (use n p ne in simp_all)
  then show ?thesis
    using l(2) assms(2) n p ne by (simp add: is_list_def links_append)
qed

lemma list_prepend_spec:
  assumes "is_list m head xs" "e \<notin> set (head # xs)"
  shows "is_list (list_prepend head e m) head (e # xs)"
proof -
  let ?f = "hd (xs @ [head])" and ?m = "list_prepend head e m"
  have l: "node_next m head = ?f" "distinct (head # xs)" "links m head xs head"
    using assms(1) links_ends by (auto simp: is_list_def)
  have "?f \<in> set (head # xs)" by (cases xs) auto
  then have "e \<noteq> ?f" using assms(2) by metis
  moreover have "e \<noteq> head" using assms(2) by simp
  ultimately have ne: "e \<noteq> ?f" "e \<noteq> head" by blast+
  have n: "node_next ?m = ((node_next m)(e := ?f))(head := e)"
    and p: "node_prev ?m = ((node_prev m)(e := head))(?f := e)"
    using l(1) ne by (simp_all add: list_prepend_def Let_def)
  have "links ?m e xs head"
  proof (rule links_refront [OF l(3)])
    fix x assume "x \<in> set (tl (xs @ [head]))"
    then show "node_prev ?m x = node_prev m x"
      using p assms(2) l(2) by (cases xs) auto
  qed (use n p ne l(2) assms(2) in auto)
  then show ?thesis using l(2) assms(2) n p ne by (auto simp: is_list_def)
qed

lemma list_remove_spec:
  assumes "is_list m head (xs @ e # ys)"
  shows "is_list (list_remove e m) head (xs @ ys) \<and> is_list (list_remove e m) e []"
proof -
  let ?l = "last (head # xs)" and ?f = "hd (ys @ [head])" and ?m = "list_remove e m"
  have l: "distinct (head # xs @ e # ys)" "links m head xs e" "links m e ys head"
    using assms by (auto simp: is_list_def links_append)
  have e: "node_next m e = ?f" "node_prev m e = ?l"
    using links_ends [OF l(2)] links_ends [OF l(3)] by auto
  have "?l \<in> set (head # xs)" by (rule last_in_set) simp
  moreover have "?f \<in> set (head # ys)" by (cases ys) auto
  ultimately have ne: "e \<noteq> ?l" "e \<noteq> ?f" using l(1) by auto
  have n: "node_next ?m = ((node_next m)(?l := ?f))(e := e)"
    and p: "node_prev ?m = ((node_prev m)(?f := ?l))(e := e)"
    using e ne by (simp_all add: list_remove_def Let_def)
  have self: "is_list ?m e []" using n p by (simp add: is_list_def)
  have front: "links ?m head xs ?f"
  proof (rule links_retarget [OF l(2)])
    fix x assume "x \<in> set (butlast (head # xs))"
    moreover from this have "x \<in> set (head # xs)" by (rule in_set_butlastD)
    ultimately have "x \<noteq> e" "x \<noteq> ?l" using l(1) last_notin_butlast [of head xs] by auto
    then show "node_next ?m x = node_next m x" using n by simp
  next
    fix x assume "x \<in> set xs"
    then show "node_prev ?m x = node_prev m x" using p l(1) by (cases ys) auto
  qed (use n p ne in simp_all)
  have "links ?m head (xs @ ys) head"
  proof (cases ys)
    case (Cons y zs)
    have "links m y zs head" using l(3) Cons by simp
    moreover have "links m y zs head = links ?m y zs head"
      using l(1) n p Cons \<open>?l \<in> set (head # xs)\<close> by (intro links_cong) auto
    ultimately show ?thesis using front Cons by (simp add: links_append)
  qed (use front in simp)
  then show ?thesis using l(1) self by (simp add: is_list_def)
qed

text \<open>Lists that share no node with the changed ones keep their contents.\<close>

lemma list_frame:
  assumes "is_list m head xs" "e \<notin> set (head # xs)" "is_list m head' ys"
    and "set (head' # ys) \<inter> set (head # xs) = {}" "e \<notin> set (head' # ys)"
  shows "is_list (list_append head e m) head' ys" "is_list (list_prepend head e m) head' ys"
proof -
  have "node_prev m head \<in> set (head # xs)" "node_next m head \<in> set (head # xs)"
    using assms(1) links_ends [of m head xs head] by (auto simp: is_list_def hd_append)
  then have "node_prev m head \<notin> set (head' # ys)" "node_next m head \<notin> set (head' # ys)"
      "head \<notin> set (head' # ys)"
    using assms(4) by auto
  then show "is_list (list_append head e m) head' ys" "is_list (list_prepend head e m) head' ys"
    using assms(3,5) by (auto simp: is_list_def list_append_def list_prepend_def Let_def)
qed

lemma list_remove_frame:
  assumes "is_list m head (xs @ e # zs)" "is_list m head' ys"
    and "set (head' # ys) \<inter> set (head # xs @ e # zs) = {}"
  shows "is_list (list_remove e m) head' ys"
proof -
  have "links m head xs e" "links m e zs head" using assms(1) by (auto simp: is_list_def links_append)
  then have "node_prev m e \<in> set (head # xs)" "node_next m e \<in> set (head # zs)"
    using links_ends [of m head xs e] links_ends [of m e zs head] by (auto simp: hd_append)
  then have "node_prev m e \<notin> set (head' # ys)" "node_next m e \<notin> set (head' # ys)" "e \<notin> set (head' # ys)"
    using assms(3) by auto
  then show ?thesis using assms(2) by (auto simp: is_list_def list_remove_def Let_def)
qed

section \<open>Queries and iteration\<close>

lemma list_queries:
  assumes "is_list m head xs"
  shows "list_is_empty head m \<longleftrightarrow> xs = []" "list_is_singular head m \<longleftrightarrow> length xs = 1"
    "list_first_entry head m = (if xs = [] then None else Some (hd xs))"
    "list_last_entry head m = (if xs = [] then None else Some (last xs))"
proof -
  have l: "distinct (head # xs)" "node_next m head = hd (xs @ [head])" "node_prev m head = last (head # xs)"
    using assms links_ends by (auto simp: is_list_def)
  show e: "list_is_empty head m \<longleftrightarrow> xs = []" using l by (cases xs) (auto simp: list_is_empty_def)
  show "list_first_entry head m = (if xs = [] then None else Some (hd xs))"
    "list_last_entry head m = (if xs = [] then None else Some (last xs))"
    using l by (auto simp: list_first_entry_def list_last_entry_def e)
  have "hd xs = last xs \<longleftrightarrow> length xs = 1" if "xs \<noteq> []"
  proof (cases xs)
    case (Cons y ys)
    have "ys \<noteq> [] \<Longrightarrow> last ys \<in> set ys" by (rule last_in_set)
    then show ?thesis using l(1) Cons by auto
  qed (use that in simp)
  then show "list_is_singular head m \<longleftrightarrow> length xs = 1"
    using l by (cases "xs = []") (simp_all add: list_is_singular_def e)
qed

lemma list_next_entry_spec:
  assumes "is_list m head (xs @ x # ys)"
  shows "list_next_entry head x m = (if ys = [] then None else Some (hd ys))"
proof -
  have "links m x ys head" "head \<notin> set ys" using assms by (auto simp: is_list_def links_append)
  then have "node_next m x = hd (ys @ [head])" "head \<notin> set ys" using links_ends by blast+
  then show ?thesis by (cases ys) (auto simp: list_next_entry_def)
qed

lemma each_from_links:
  assumes "links m a xs head" "head \<notin> set xs"
  shows "each_from head (\<lambda>x (m, s). map_option (Pair m) (g x s)) (node_next m a) (m, s) =
    map_option (Pair m) (fold_opt g xs s)"
  using assms
proof (induction xs arbitrary: a s)
  case Nil
  then show ?case by (simp add: each_from.simps)
next
  case (Cons x xs)
  then show ?case by (cases "g x s") (auto simp: each_from.simps [of _ _ x])
qed

lemma list_for_each_fold:
  assumes "is_list m head xs"
  shows "list_for_each_entry head (\<lambda>x (m, s). map_option (Pair m) (g x s)) (m, s) =
    map_option (Pair m) (fold_opt g xs s)"
  using assms each_from_links [of m head xs head g s] by (simp add: is_list_def list_for_each_entry_def)

text \<open>The body of a safe iteration that removes the elements \<open>P\<close> selects.\<close>

definition remove_if :: "(addr \<Rightarrow> bool) \<Rightarrow> addr \<Rightarrow> list_mem \<times> 's \<Rightarrow> (list_mem \<times> 's) option" where
  "remove_if P x ms = Some (if P x then (list_remove x (fst ms), snd ms) else ms)"

lemma each_safe_filter:
  assumes "is_list m head (ps @ xs)" and "iter = hd (xs @ [head])" and "nxt = hd (tl (xs @ [head]) @ [q])"
  shows "\<exists>m'. each_safe_from head (remove_if P) iter nxt (m, s) = Some (m', s) \<and>
    is_list m' head (ps @ filter (\<lambda>x. \<not> P x) xs)"
  using assms
proof (induction xs arbitrary: m ps iter nxt q)
  case Nil
  then show ?case by (auto simp: each_safe_from.simps)
next
  case (Cons x xs)
  have h: "x \<noteq> head" "head \<notin> set xs" using Cons.prems(1) by (auto simp: is_list_def)
  define m1 where "m1 = (if P x then list_remove x m else m)"
  define ps1 where "ps1 = (if P x then ps else ps @ [x])"
  have l1: "is_list m1 head (ps1 @ xs)"
    using Cons.prems(1) list_remove_spec [of m head ps x xs] by (simp add: m1_def ps1_def)
  let ?n = "hd (xs @ [head])"
  have n: "node_next m1 ?n = hd (tl (xs @ [head]) @ [node_next m1 head])"
  proof (cases xs)
    case (Cons y ys)
    then have "links m1 y ys head" using l1 by (simp add: is_list_def links_append)
    then have "node_next m1 y = hd (ys @ [head])" using links_ends by blast
    then show ?thesis by (simp add: Cons hd_append)
  qed simp
  from Cons.IH [OF l1 refl n] obtain m' where
    "each_safe_from head (remove_if P) ?n (node_next m1 ?n) (m1, s) = Some (m', s)"
    "is_list m' head (ps1 @ filter (\<lambda>x. \<not> P x) xs)" by blast
  moreover have "nxt = ?n" using Cons.prems(3) by (cases xs) auto
  moreover have "iter = x" using Cons.prems(2) by simp
  moreover have "remove_if P x (m, s) = Some (m1, s)" by (simp add: remove_if_def m1_def)
  ultimately show ?case
    using h(1) by (auto simp: each_safe_from.simps [of _ _ x] ps1_def split: if_splits)
qed

section \<open>Interface: a sequence of nodes\<close>

text \<open>What the users of a list head rely on; \<open>holds m xs\<close> says that the list is \<open>xs\<close> in memory \<open>m\<close>.\<close>

locale node_sequence =
  fixes holds :: "'m \<Rightarrow> addr list \<Rightarrow> bool"
    and fresh :: "addr \<Rightarrow> bool"
    and add_last :: "addr \<Rightarrow> 'm \<Rightarrow> 'm"
    and add_first :: "addr \<Rightarrow> 'm \<Rightarrow> 'm"
    and drop_node :: "addr \<Rightarrow> 'm \<Rightarrow> 'm"
    and first_node :: "'m \<Rightarrow> addr option"
    and last_node :: "'m \<Rightarrow> addr option"
  assumes add_last_law: "holds m xs \<Longrightarrow> fresh x \<Longrightarrow> x \<notin> set xs \<Longrightarrow> holds (add_last x m) (xs @ [x])"
    and add_first_law: "holds m xs \<Longrightarrow> fresh x \<Longrightarrow> x \<notin> set xs \<Longrightarrow> holds (add_first x m) (x # xs)"
    and drop_law: "holds m xs \<Longrightarrow> x \<in> set xs \<Longrightarrow> holds (drop_node x m) (remove1 x xs)"
    and first_law: "holds m xs \<Longrightarrow> first_node m = (case xs of [] \<Rightarrow> None | x # _ \<Rightarrow> Some x)"
    and last_law: "holds m xs \<Longrightarrow> last_node m = (if xs = [] then None else Some (last xs))"
    and holds_fresh: "holds m xs \<Longrightarrow> x \<in> set xs \<Longrightarrow> fresh x \<and> distinct xs"

datatype node_op = Add_Last addr | Add_First addr | Drop addr | Touch addr

fun abs_node_op :: "node_op \<Rightarrow> addr list \<Rightarrow> addr list" where
  "abs_node_op (Add_Last x) xs = (if x \<in> set xs then xs else xs @ [x])"
| "abs_node_op (Add_First x) xs = (if x \<in> set xs then xs else x # xs)"
| "abs_node_op (Drop x) xs = remove1 x xs"
| "abs_node_op (Touch x) xs = (if x \<in> set xs then x # remove1 x xs else xs)"

text \<open>The operations as clients use them: \<open>Touch\<close> moves a node to the front, as an LRU list does.\<close>

fun run_node_op ::
  "(addr \<Rightarrow> 'm \<Rightarrow> 'm) \<Rightarrow> (addr \<Rightarrow> 'm \<Rightarrow> 'm) \<Rightarrow> (addr \<Rightarrow> 'm \<Rightarrow> 'm) \<Rightarrow> node_op \<Rightarrow> addr list \<Rightarrow> 'm \<Rightarrow> 'm" where
  "run_node_op al af dr (Add_Last x) xs m = (if x \<in> set xs then m else al x m)"
| "run_node_op al af dr (Add_First x) xs m = (if x \<in> set xs then m else af x m)"
| "run_node_op al af dr (Drop x) xs m = (if x \<in> set xs then dr x m else m)"
| "run_node_op al af dr (Touch x) xs m = (if x \<in> set xs then af x (dr x m) else m)"

fun node_of :: "node_op \<Rightarrow> addr" where
  "node_of (Add_Last x) = x" | "node_of (Add_First x) = x" | "node_of (Drop x) = x" | "node_of (Touch x) = x"

fun run_node_ops ::
  "(addr \<Rightarrow> 'm \<Rightarrow> 'm) \<Rightarrow> (addr \<Rightarrow> 'm \<Rightarrow> 'm) \<Rightarrow> (addr \<Rightarrow> 'm \<Rightarrow> 'm) \<Rightarrow> node_op list \<Rightarrow> addr list \<times> 'm \<Rightarrow> addr list \<times> 'm" where
  "run_node_ops al af dr [] s = s"
| "run_node_ops al af dr (op # ops) (xs, m) =
     run_node_ops al af dr ops (abs_node_op op xs, run_node_op al af dr op xs m)"

context node_sequence
begin

lemma op_refines:
  assumes "holds m xs" "fresh (node_of op)"
  shows "holds (run_node_op add_last add_first drop_node op xs m) (abs_node_op op xs)"
proof (cases op)
  case (Touch x)
  show ?thesis
  proof (cases "x \<in> set xs")
    case True
    then have "x \<notin> set (remove1 x xs)" using holds_fresh [OF assms(1) True] by simp
    then show ?thesis
      using Touch True add_first_law [OF drop_law [OF assms(1) True]] assms(2) by simp
  qed (use Touch assms in simp)
qed (use assms add_last_law add_first_law drop_law in \<open>auto simp: remove1_idem\<close>)

lemma ops_refine:
  assumes "holds m xs" "\<forall>op \<in> set ops. fresh (node_of op)"
  shows "holds (snd (run_node_ops add_last add_first drop_node ops (xs, m)))
    (fst (run_node_ops add_last add_first drop_node ops (xs, m)))"
  using assms by (induction ops arbitrary: xs m) (auto simp: op_refines)

end

interpretation lists: node_sequence "\<lambda>m. is_list m head" "\<lambda>x. x \<noteq> head" "list_append head" "list_prepend head"
  list_remove "list_first_entry head" "list_last_entry head" for head
proof unfold_locales
  fix m xs x
  assume l: "is_list m head xs"
  show "x \<noteq> head \<Longrightarrow> x \<notin> set xs \<Longrightarrow> is_list (list_append head x m) head (xs @ [x])"
    "x \<noteq> head \<Longrightarrow> x \<notin> set xs \<Longrightarrow> is_list (list_prepend head x m) head (x # xs)"
    using list_append_spec [OF l] list_prepend_spec [OF l] by simp_all
  show "list_first_entry head m = (case xs of [] \<Rightarrow> None | x # _ \<Rightarrow> Some x)"
    "list_last_entry head m = (if xs = [] then None else Some (last xs))"
    using list_queries [OF l] by (auto split: list.split)
  assume x: "x \<in> set xs"
  then obtain ys zs where "xs = ys @ x # zs" "x \<notin> set ys" by (metis split_list_first)
  then show "is_list (list_remove x m) head (remove1 x xs)"
    using list_remove_spec [of m head ys x zs] l by (simp add: remove1_append)
  show "x \<noteq> head \<and> distinct xs" using l x by (auto simp: is_list_def)
qed

section \<open>Properties\<close>

text \<open>C8 (list_head_refines_sequence). Any sequence of appends, prepends, removals and moves to the front on
  an initialised list head leaves a well-linked circular list with exactly the elements, in the
  order, of the same operations on a sequence; the first, last, empty and singular queries read
  that sequence.\<close>

theorem list_head_refines_sequence:
  assumes "\<forall>op \<in> set ops. node_of op \<noteq> head"
    and "run_node_ops (list_append head) (list_prepend head) list_remove ops ([], init_list head m) = (xs, m')"
  shows "is_list m' head xs \<and> list_first_entry head m' = (if xs = [] then None else Some (hd xs)) \<and>
    list_last_entry head m' = (if xs = [] then None else Some (last xs)) \<and>
    (list_is_empty head m' \<longleftrightarrow> xs = []) \<and> (list_is_singular head m' \<longleftrightarrow> length xs = 1)"
proof -
  have "is_list m' head xs"
    using lists.ops_refine [of "init_list head m" head "[]" ops] init_list_spec [of head m] assms by simp
  then show ?thesis using list_queries by simp
qed

definition blank_mem :: list_mem where
  "blank_mem = \<lparr>node_next = (\<lambda>_. 0), node_prev = (\<lambda>_. 0)\<rparr>"

lemma list_head_refines_sequence_witness:
  "list_last_entry 9 (snd (run_node_ops (list_append 9) (list_prepend 9) list_remove
     [Add_Last 1, Add_Last 2, Add_First 3, Touch 2, Drop 1] ([], init_list 9 blank_mem))) = Some 3"
proof -
  obtain xs m' where r: "run_node_ops (list_append 9) (list_prepend 9) list_remove
      [Add_Last 1, Add_Last 2, Add_First 3, Touch 2, Drop 1] ([], init_list 9 blank_mem) = (xs, m')"
    by fastforce
  then have "xs = [2, 3]" by auto
  moreover have "\<forall>op \<in> set [Add_Last 1, Add_Last 2, Add_First 3, Touch 2, Drop 1]. node_of op \<noteq> 9" by simp
  ultimately show ?thesis using list_head_refines_sequence [OF _ r] r by simp
qed

text \<open>C28 (list_safe_iteration_filters). \<open>list_for_each_entry_safe\<close> may unlink the element it is at: with a
  body that removes the elements a test selects, the iteration ends, visits every element, and
  leaves the others in their order.\<close>

theorem list_safe_iteration_filters:
  assumes "is_list m head xs"
  shows "\<exists>m'. list_for_each_entry_safe head (remove_if P) (m, s) = Some (m', s) \<and>
    is_list m' head (filter (\<lambda>x. \<not> P x) xs)"
proof -
  have "node_next m head = hd (xs @ [head])"
    using assms links_ends [of m head xs head] by (simp add: is_list_def)
  moreover have "node_next m (hd (xs @ [head])) = hd (tl (xs @ [head]) @ [node_next m head])"
  proof (cases xs)
    case (Cons y ys)
    then have "links m y ys head" using assms by (simp add: is_list_def)
    then have "node_next m y = hd (ys @ [head])" using links_ends by blast
    then show ?thesis by (simp add: Cons hd_append)
  qed simp
  ultimately show ?thesis
    using each_safe_filter [of m head "[]" xs] assms by (simp add: list_for_each_entry_safe_def)
qed

lemma list_safe_iteration_filters_witness:
  "\<exists>m'. list_for_each_entry_safe 9 (remove_if even) (list_append 9 2 (list_append 9 1 (init_list 9 blank_mem)), ()) =
     Some (m', ()) \<and> is_list m' 9 [1]"
proof -
  have "is_list (list_append 9 2 (list_append 9 1 (init_list 9 blank_mem))) 9 [1, 2]"
    using list_append_spec [OF list_append_spec [OF init_list_spec, of 1 9], of 2] by simp
  from list_safe_iteration_filters [OF this, of even "()"] show ?thesis by simp
qed

end
