(* ===== verification/Bitset.thy ===== *)
theory Bitset
  imports Iros_Prelude
begin

text \<open>
  The kernel's bit set, \<^verbatim>\<open>kernel/include/kernel/util/bitset.h\<close> and \<^verbatim>\<open>kernel/util/bitset.c\<close>. The
  block of memory is the list of its 64-bit words. The theory relates the word level to the set
  of the indices of the bits that are set, and gives the bit set as an interface to the page
  frame allocator.
\<close>

section \<open>Model\<close>

record bitset =
  bs_data :: "u64 list option"
  bs_data_bytes :: u64
  bs_bit_count :: u64
  bs_owned :: bool

definition init_bitset :: "u64 list \<Rightarrow> u64 \<Rightarrow> u64 \<Rightarrow> bitset option" where
  "init_bitset data data_bytes bit_count = do {
     assert_that (bit_count \<le> data_bytes * 8);
     Some \<lparr>bs_data = Some data, bs_data_bytes = data_bytes, bs_bit_count = bit_count, bs_owned = False\<rparr>
   }"

definition init_owned_bitset :: "u64 list \<Rightarrow> u64 \<Rightarrow> u64 \<Rightarrow> bitset option" where
  "init_owned_bitset data data_bytes bit_count = do {
     bs \<leftarrow> init_bitset data data_bytes bit_count;
     Some (bs\<lparr>bs_owned := True\<rparr>)
   }"

text \<open>The freed block itself is not tracked: after \<open>kill_bitset\<close> the pointer is NULL.\<close>

definition kill_bitset :: "bitset \<Rightarrow> bitset" where
  "kill_bitset bs = \<lparr>bs_data = None, bs_data_bytes = 0, bs_bit_count = 0, bs_owned = False\<rparr>"

text \<open>Return code, word offset and bit offset; the callers start both offsets at zero.\<close>

definition bitset_offset :: "bitset \<Rightarrow> u64 \<Rightarrow> int \<times> u64 \<times> u64" where
  "bitset_offset bs b =
     (if b \<ge> bs_bit_count bs then (-1, 0, 0) else (0, b div 64, b mod 64))"

definition bitset_get_bit :: "bitset \<Rightarrow> u64 \<Rightarrow> bool option" where
  "bitset_get_bit bs b = do {
     let (rc, word_offset, bit_in_word_offset) = bitset_offset bs b;
     assert_that (rc = 0);
     data \<leftarrow> bs_data bs;
     word \<leftarrow> cell_get data (unat word_offset);
     let word = word AND push_bit (unat bit_in_word_offset) 1;
     Some (drop_bit (unat bit_in_word_offset) word \<noteq> 0)
   }"

definition bitset_set_bit :: "bitset \<Rightarrow> u64 \<Rightarrow> bitset option" where
  "bitset_set_bit bs b = do {
     let (rc, word_offset, bit_in_word_offset) = bitset_offset bs b;
     assert_that (rc = 0);
     data \<leftarrow> bs_data bs;
     word \<leftarrow> cell_get data (unat word_offset);
     data' \<leftarrow> cell_set data (unat word_offset) (word OR push_bit (unat bit_in_word_offset) 1);
     Some (bs\<lparr>bs_data := Some data'\<rparr>)
   }"

definition bitset_clear_bit :: "bitset \<Rightarrow> u64 \<Rightarrow> bitset option" where
  "bitset_clear_bit bs b = do {
     let (rc, word_offset, bit_in_word_offset) = bitset_offset bs b;
     assert_that (rc = 0);
     data \<leftarrow> bs_data bs;
     word \<leftarrow> cell_get data (unat word_offset);
     data' \<leftarrow> cell_set data (unat word_offset) (word AND NOT (push_bit (unat bit_in_word_offset) 1));
     Some (bs\<lparr>bs_data := Some data'\<rparr>)
   }"

definition bitset_toggle_bit :: "bitset \<Rightarrow> u64 \<Rightarrow> bitset option" where
  "bitset_toggle_bit bs b = do {
     let (rc, word_offset, bit_in_word_offset) = bitset_offset bs b;
     assert_that (rc = 0);
     data \<leftarrow> bs_data bs;
     word \<leftarrow> cell_get data (unat word_offset);
     data' \<leftarrow> cell_set data (unat word_offset) (word XOR push_bit (unat bit_in_word_offset) 1);
     Some (bs\<lparr>bs_data := Some data'\<rparr>)
   }"

definition bitset_write_bit :: "bitset \<Rightarrow> u64 \<Rightarrow> bool \<Rightarrow> bitset option" where
  "bitset_write_bit bs b value =
     (if value then bitset_set_bit bs b else bitset_clear_bit bs b)"

definition bitset_set_bit_sequence :: "bitset \<Rightarrow> u64 \<Rightarrow> u64 \<Rightarrow> bitset option" where
  "bitset_set_bit_sequence bs bit_start len =
     for_u64 bit_start (bit_start + len) (\<lambda>i bs. bitset_set_bit bs i) bs"

definition bitset_clear_bit_sequence :: "bitset \<Rightarrow> u64 \<Rightarrow> u64 \<Rightarrow> bitset option" where
  "bitset_clear_bit_sequence bs bit_start len =
     for_u64 bit_start (bit_start + len) (\<lambda>i bs. bitset_clear_bit bs i) bs"

definition bitset_toggle_bit_sequence :: "bitset \<Rightarrow> u64 \<Rightarrow> u64 \<Rightarrow> bitset option" where
  "bitset_toggle_bit_sequence bs bit_start len =
     for_u64 bit_start (bit_start + len) (\<lambda>i bs. bitset_toggle_bit bs i) bs"

definition bitset_write_bit_sequence :: "bitset \<Rightarrow> u64 \<Rightarrow> u64 \<Rightarrow> bool \<Rightarrow> bitset option" where
  "bitset_write_bit_sequence bs bit_start len value =
     for_u64 bit_start (bit_start + len) (\<lambda>i bs. bitset_write_bit bs i value) bs"

text \<open>
  \<open>bitset_first_zero_bit\<close> has no exit for a word of ones; shifting by 64 or more is undefined.
\<close>

partial_function (option) first_zero_bit_from :: "u64 \<Rightarrow> u64 \<Rightarrow> u64 option" where
  "first_zero_bit_from word bit_index =
     (if bit_index \<ge> 64 then None
      else if word AND push_bit (unat bit_index) 1 = 0 then Some bit_index
      else first_zero_bit_from word (bit_index + 1))"

definition bitset_first_zero_bit :: "u64 \<Rightarrow> u64 option" where
  "bitset_first_zero_bit word = first_zero_bit_from word 0"

text \<open>Return code and the value of the out parameter \<open>*bit\<close>, which starts as \<open>bit0\<close>.\<close>

partial_function (option) find_free_from :: "bitset \<Rightarrow> u64 \<Rightarrow> u64 \<Rightarrow> (int \<times> u64) option" where
  "find_free_from bs word_index bit0 =
     (if word_index < bs_data_bytes bs div 8 then do {
        data \<leftarrow> bs_data bs;
        word \<leftarrow> cell_get data (unat word_index);
        if NOT word = 0 then find_free_from bs (word_index + 1) bit0
        else do {
          z \<leftarrow> bitset_first_zero_bit word;
          Some (0, word_index * 8 * 8 + z)
        }
      } else Some (-1, bit0))"

definition bitset_find_first_free_bit :: "bitset \<Rightarrow> u64 \<Rightarrow> (int \<times> u64) option" where
  "bitset_find_first_free_bit bs bit0 = find_free_from bs 0 bit0"

text \<open>The three nested loops of \<open>bitset_find_first_free_bit_sequence\<close>, innermost first.\<close>

partial_function (option) consecutive_free :: "bitset \<Rightarrow> u64 \<Rightarrow> u64 \<Rightarrow> u64 \<Rightarrow> u64 option" where
  "consecutive_free bs len bit_index consecutive_bits =
     (if consecutive_bits < len then
        (if bit_index + consecutive_bits \<ge> bs_bit_count bs then Some consecutive_bits
         else do {
           used \<leftarrow> bitset_get_bit bs (bit_index + consecutive_bits);
           if used then Some consecutive_bits
           else consecutive_free bs len bit_index (consecutive_bits + 1)
         })
      else Some consecutive_bits)"

partial_function (option) scan_word :: "bitset \<Rightarrow> u64 \<Rightarrow> u64 \<Rightarrow> u64 \<Rightarrow> u64 option option" where
  "scan_word bs len bit_index bit_index_end =
     (if bit_index \<le> bit_index_end then do {
        c \<leftarrow> consecutive_free bs len bit_index 0;
        if c = len then Some (Some bit_index)
        else scan_word bs len (bit_index + 1) bit_index_end
      } else Some None)"

partial_function (option) find_sequence_from ::
  "bitset \<Rightarrow> u64 \<Rightarrow> u64 \<Rightarrow> u64 \<Rightarrow> (int \<times> u64) option" where
  "find_sequence_from bs len word_index bit0 =
     (if word_index < bs_data_bytes bs div 8 then do {
        data \<leftarrow> bs_data bs;
        word \<leftarrow> cell_get data (unat word_index);
        if NOT word = 0 then find_sequence_from bs len (word_index + 1) bit0
        else do {
          let bit_index_start = word_index * 8 * 8;
          r \<leftarrow> scan_word bs len bit_index_start (bit_index_start + 8 * 8);
          case r of Some b \<Rightarrow> Some (0, b)
                  | None \<Rightarrow> find_sequence_from bs len (word_index + 1) bit0
        }
      } else Some (-1, bit0))"

definition bitset_find_first_free_bit_sequence :: "bitset \<Rightarrow> u64 \<Rightarrow> u64 \<Rightarrow> (int \<times> u64) option" where
  "bitset_find_first_free_bit_sequence bs len bit0 = find_sequence_from bs len 0 bit0"

definition bitset_bit_count :: "bitset \<Rightarrow> u64" where
  "bitset_bit_count bs = bs_bit_count bs"

section \<open>Invariant and abstraction\<close>

text \<open>
  The block consists of whole words, holds all counted bits, and its size in bits fits the
  address arithmetic.
\<close>

definition bs_wf :: "bitset \<Rightarrow> bool" where
  "bs_wf bs \<longleftrightarrow>
     (case bs_data bs of None \<Rightarrow> False
      | Some data \<Rightarrow> length data = unat (bs_data_bytes bs) div 8 \<and>
          unat (bs_bit_count bs) \<le> 64 * length data) \<and>
     unat (bs_data_bytes bs) \<le> 2 ^ 60"

definition bs_bit :: "bitset \<Rightarrow> nat \<Rightarrow> bool" where
  "bs_bit bs i \<longleftrightarrow> bit (the (bs_data bs) ! (i div 64)) (i mod 64)"

definition bs_words :: "bitset \<Rightarrow> nat" where
  "bs_words bs = unat (bs_data_bytes bs) div 8"

definition bs_set :: "bitset \<Rightarrow> nat set" where
  "bs_set bs = {i. i < unat (bs_bit_count bs) \<and> bs_bit bs i}"

definition bs_count :: "bitset \<Rightarrow> nat" where
  "bs_count bs = unat (bs_bit_count bs)"

lemma bs_wfE:
  assumes "bs_wf bs"
  obtains data where "bs_data bs = Some data" "length data = bs_words bs"
    "bs_count bs \<le> 64 * bs_words bs" "bs_words bs \<le> 2 ^ 57"
  using assms by (auto simp: bs_wf_def bs_words_def bs_count_def split: option.splits)

lemma mask_bit: "k < 64 \<Longrightarrow> (w :: u64) AND push_bit k 1 = 0 \<longleftrightarrow> \<not> bit w k"
  by (simp add: and_exp_eq_0_iff_not_bit)

lemma get_masked:
  assumes "k < 64"
  shows "drop_bit k ((w :: u64) AND push_bit k 1) \<noteq> 0 \<longleftrightarrow> bit w k"
proof
  assume "bit w k"
  then have "bit (drop_bit k (w AND push_bit k 1)) 0"
    using assms by (simp add: bit_simps)
  then show "drop_bit k (w AND push_bit k 1) \<noteq> 0" by auto
next
  assume nz: "drop_bit k (w AND push_bit k 1) \<noteq> 0"
  show "bit w k"
  proof (rule ccontr)
    assume "\<not> bit w k"
    then have "w AND push_bit k 1 = 0" using mask_bit [OF assms] by blast
    with nz show False by (simp only: drop_bit_of_0)
  qed
qed

lemma bit_or_mask: "k < 64 \<Longrightarrow> bit ((w :: u64) OR push_bit k 1) j \<longleftrightarrow> j = k \<or> bit w j"
  by (auto simp: bit_simps)

lemma bit_and_not_mask: "k < 64 \<Longrightarrow> bit ((w :: u64) AND NOT (push_bit k 1)) j \<longleftrightarrow> j \<noteq> k \<and> bit w j"
  by (auto simp: bit_simps dest: bit_imp_le_length)

lemma bit_xor_mask: "k < 64 \<Longrightarrow> bit ((w :: u64) XOR push_bit k 1) j \<longleftrightarrow> (if j = k then \<not> bit w j else bit w j)"
  by (auto simp: bit_simps)

lemma offset_ok:
  assumes "unat b < bs_count bs"
  shows "bitset_offset bs b = (0, b div 64, b mod 64)" "unat (b div 64) = unat b div 64"
    "unat (b mod 64) = unat b mod 64"
  using assms by (simp_all add: bitset_offset_def bs_count_def word_le_nat_alt unat_div unat_mod)

lemma word_in_range: "bs_wf bs \<Longrightarrow> i < bs_count bs \<Longrightarrow> i div 64 < bs_words bs"
  by (auto elim!: bs_wfE)

text \<open>An update of the word that holds bit \<open>i\<close>, described by its effect on every bit.\<close>

lemma bs_bit_update:
  assumes wf: "bs_wf bs" and i: "i < bs_count bs" and d: "bs_data bs = Some data"
    and w: "\<And>j. bit w j = (if j = i mod 64 then v else bit (data ! (i div 64)) j)"
  shows "bs_bit (bs\<lparr>bs_data := Some (data[i div 64 := w])\<rparr>) k = (if k = i then v else bs_bit bs k)"
proof -
  have "i div 64 < length data" using word_in_range [OF wf i] wf d by (auto elim!: bs_wfE)
  moreover have "k = i \<longleftrightarrow> k div 64 = i div 64 \<and> k mod 64 = i mod 64"
    by (metis div_mult_mod_eq)
  ultimately show ?thesis using d w by (auto simp: bs_bit_def nth_list_update)
qed

lemma bs_wf_update:
  assumes "bs_wf bs" "bs_data bs = Some data" "length data' = length data"
  shows "bs_wf (bs\<lparr>bs_data := Some data'\<rparr>)" "bs_count (bs\<lparr>bs_data := Some data'\<rparr>) = bs_count bs"
    "bs_words (bs\<lparr>bs_data := Some data'\<rparr>) = bs_words bs"
  using assms by (simp_all add: bs_wf_def bs_count_def bs_words_def)

section \<open>Single bits\<close>

lemma get_bit_iff:
  assumes wf: "bs_wf bs" and i: "unat b < bs_count bs"
  shows "bitset_get_bit bs b = Some (bs_bit bs (unat b))"
  using wf word_in_range [OF wf i]
  by (elim bs_wfE) (simp add: bitset_get_bit_def offset_ok [OF i] Let_def cell_get_def get_masked bs_bit_def
      del: drop_bit_and push_bit_of_1)

lemma bit_out_of_range:
  assumes "bs_count bs \<le> unat b"
  shows "bitset_get_bit bs b = None" "bitset_set_bit bs b = None" "bitset_clear_bit bs b = None"
    "bitset_toggle_bit bs b = None"
  using assms
  by (simp_all add: bitset_get_bit_def bitset_set_bit_def bitset_clear_bit_def bitset_toggle_bit_def
      bitset_offset_def bs_count_def word_le_nat_alt)

text \<open>\<open>bs_upd bs i v bs'\<close>: \<open>bs'\<close> is \<open>bs\<close> with bit \<open>i\<close> set to \<open>v\<close> and nothing else changed.\<close>

definition bs_upd :: "bitset \<Rightarrow> nat \<Rightarrow> bool \<Rightarrow> bitset \<Rightarrow> bool" where
  "bs_upd bs i v bs' \<longleftrightarrow> bs_wf bs' \<and> bs_count bs' = bs_count bs \<and> bs_words bs' = bs_words bs \<and>
     (\<forall>k. bs_bit bs' k = (if k = i then v else bs_bit bs k))"

lemma set_bit_upd:
  assumes wf: "bs_wf bs" and i: "unat b < bs_count bs"
  shows "\<exists>bs'. bitset_set_bit bs b = Some bs' \<and> bs_upd bs (unat b) True bs'"
proof -
  obtain data where d: "bs_data bs = Some data" "length data = bs_words bs"
    using wf by (elim bs_wfE)
  let ?w = "data ! (unat b div 64) OR push_bit (unat b mod 64) 1"
  show ?thesis
    using d word_in_range [OF wf i] bs_wf_update [OF wf d(1)]
      bs_bit_update [OF wf i d(1), of ?w True] bit_or_mask
    by (simp add: bitset_set_bit_def offset_ok [OF i] Let_def cell_get_def cell_set_def bs_upd_def)
qed

lemma clear_bit_upd:
  assumes wf: "bs_wf bs" and i: "unat b < bs_count bs"
  shows "\<exists>bs'. bitset_clear_bit bs b = Some bs' \<and> bs_upd bs (unat b) False bs'"
proof -
  obtain data where d: "bs_data bs = Some data" "length data = bs_words bs"
    using wf by (elim bs_wfE)
  let ?w = "data ! (unat b div 64) AND NOT (push_bit (unat b mod 64) 1)"
  show ?thesis
    using d word_in_range [OF wf i] bs_wf_update [OF wf d(1)]
      bs_bit_update [OF wf i d(1), of ?w False] bit_and_not_mask
    by (simp add: bitset_clear_bit_def offset_ok [OF i] Let_def cell_get_def cell_set_def bs_upd_def)
qed

lemma toggle_bit_upd:
  assumes wf: "bs_wf bs" and i: "unat b < bs_count bs"
  shows "\<exists>bs'. bitset_toggle_bit bs b = Some bs' \<and> bs_upd bs (unat b) (\<not> bs_bit bs (unat b)) bs'"
proof -
  obtain data where d: "bs_data bs = Some data" "length data = bs_words bs"
    using wf by (elim bs_wfE)
  let ?w = "data ! (unat b div 64) XOR push_bit (unat b mod 64) 1"
  show ?thesis
    using d word_in_range [OF wf i] bs_wf_update [OF wf d(1)]
      bs_bit_update [OF wf i d(1), of ?w "\<not> bs_bit bs (unat b)"] bit_xor_mask
    by (simp add: bitset_toggle_bit_def offset_ok [OF i] Let_def cell_get_def cell_set_def bs_upd_def
        bs_bit_def)
qed

lemma write_bit_upd:
  assumes "bs_wf bs" "unat b < bs_count bs"
  shows "\<exists>bs'. bitset_write_bit bs b v = Some bs' \<and> bs_upd bs (unat b) v bs'"
  using set_bit_upd [OF assms] clear_bit_upd [OF assms] by (simp add: bitset_write_bit_def)

section \<open>Sequences of bits\<close>

definition bs_upd_range :: "bitset \<Rightarrow> nat \<Rightarrow> nat \<Rightarrow> (bool \<Rightarrow> bool) \<Rightarrow> bitset \<Rightarrow> bool" where
  "bs_upd_range bs lo hi g bs' \<longleftrightarrow>
     bs_wf bs' \<and> bs_count bs' = bs_count bs \<and> bs_words bs' = bs_words bs \<and>
     (\<forall>k. bs_bit bs' k = (if lo \<le> k \<and> k < hi then g (bs_bit bs k) else bs_bit bs k))"

lemma fold_upd_range:
  fixes f :: "u64 \<Rightarrow> bitset \<Rightarrow> bitset option"
  assumes step: "\<And>bs i. bs_wf bs \<Longrightarrow> unat i < bs_count bs \<Longrightarrow>
      \<exists>bs'. f i bs = Some bs' \<and> bs_upd bs (unat i) (g (bs_bit bs (unat i))) bs'"
    and "bs_wf bs" "m + n \<le> bs_count bs"
  shows "\<exists>bs'. fold_opt (\<lambda>k. f (of_nat k)) [m..<m + n] bs = Some bs' \<and> bs_upd_range bs m (m + n) g bs'"
  using assms(2,3)
proof (induction n arbitrary: m bs)
  case 0
  then show ?case by (auto simp: bs_upd_range_def)
next
  case (Suc n)
  have "m < 2 ^ 64" using Suc.prems(2) u64_bound [of "bs_bit_count bs"] by (simp add: bs_count_def)
  then have m: "unat (of_nat m :: u64) = m" by simp
  with Suc.prems obtain bs1 where b1: "f (of_nat m) bs = Some bs1"
    "bs_upd bs m (g (bs_bit bs m)) bs1"
    using step [of bs "of_nat m"] by auto
  then obtain bs2 where "fold_opt (\<lambda>k. f (of_nat k)) [Suc m..<Suc m + n] bs1 = Some bs2"
    "bs_upd_range bs1 (Suc m) (Suc m + n) g bs2"
    using Suc.IH [of bs1 "Suc m"] Suc.prems by (auto simp: bs_upd_def)
  moreover have "[m..<m + Suc n] = m # [Suc m..<Suc m + n]"
    using upt_conv_Cons [of m "m + Suc n"] by simp
  ultimately show ?case
    using b1 by (auto simp: bs_upd_def bs_upd_range_def simp del: upt_Suc)
qed

lemma for_upd_range:
  fixes f :: "u64 \<Rightarrow> bitset \<Rightarrow> bitset option"
  assumes step: "\<And>bs i. bs_wf bs \<Longrightarrow> unat i < bs_count bs \<Longrightarrow>
      \<exists>bs'. f i bs = Some bs' \<and> bs_upd bs (unat i) (g (bs_bit bs (unat i))) bs'"
    and "bs_wf bs" "unat a + unat len \<le> bs_count bs"
  shows "\<exists>bs'. for_u64 a (a + len) f bs = Some bs' \<and>
    bs_upd_range bs (unat a) (unat a + unat len) g bs'"
proof -
  have "unat a + unat len < 2 ^ 64"
    using assms(3) u64_bound [of "bs_bit_count bs"] by (simp add: bs_count_def)
  then have "unat (a + len) = unat a + unat len" by (simp add: unat_add_u64)
  then show ?thesis
    using fold_upd_range [of f g bs "unat a" "unat len"] assms by (simp add: for_u64_fold)
qed

lemma set_sequence_upd:
  assumes "bs_wf bs" "unat a + unat len \<le> bs_count bs"
  shows "\<exists>bs'. bitset_set_bit_sequence bs a len = Some bs' \<and>
    bs_upd_range bs (unat a) (unat a + unat len) (\<lambda>_. True) bs'"
  unfolding bitset_set_bit_sequence_def using set_bit_upd assms by (rule for_upd_range)

lemma clear_sequence_upd:
  assumes "bs_wf bs" "unat a + unat len \<le> bs_count bs"
  shows "\<exists>bs'. bitset_clear_bit_sequence bs a len = Some bs' \<and>
    bs_upd_range bs (unat a) (unat a + unat len) (\<lambda>_. False) bs'"
  unfolding bitset_clear_bit_sequence_def using clear_bit_upd assms by (rule for_upd_range)

lemma toggle_sequence_upd:
  assumes "bs_wf bs" "unat a + unat len \<le> bs_count bs"
  shows "\<exists>bs'. bitset_toggle_bit_sequence bs a len = Some bs' \<and>
    bs_upd_range bs (unat a) (unat a + unat len) Not bs'"
  unfolding bitset_toggle_bit_sequence_def using toggle_bit_upd assms by (rule for_upd_range)

lemma write_sequence_upd:
  assumes "bs_wf bs" "unat a + unat len \<le> bs_count bs"
  shows "\<exists>bs'. bitset_write_bit_sequence bs a len v = Some bs' \<and>
    bs_upd_range bs (unat a) (unat a + unat len) (\<lambda>_. v) bs'"
  unfolding bitset_write_bit_sequence_def using write_bit_upd assms by (rule for_upd_range)

section \<open>Searching\<close>

lemma first_zero_from:
  assumes "unat k \<le> z" "z < 64" "\<not> bit w z" "\<forall>j. unat k \<le> j \<and> j < z \<longrightarrow> bit w j"
  shows "first_zero_bit_from w k = Some (of_nat z)"
  using assms
proof (induction "z - unat k" arbitrary: k)
  case 0
  then have k: "unat k = z" by simp
  then have "(of_nat z :: u64) = k" by auto
  with 0 k show ?case
    by (simp add: first_zero_bit_from.simps [of w k] word_le_nat_alt mask_bit del: push_bit_of_1)
next
  case (Suc n)
  then have lt: "unat k < z" "z < 64" by simp_all
  then have s: "unat (k + 1) = Suc (unat k)" using unat_add_u64 [of k 1] by simp
  have "bit w (unat k)" using Suc.prems(4) lt by blast
  moreover have "first_zero_bit_from w (k + 1) = Some (of_nat z)"
    using Suc.hyps(1) [of "k + 1"] Suc.hyps(2) Suc.prems lt s by simp
  ultimately show ?case
    using lt by (simp add: first_zero_bit_from.simps [of w k] word_le_nat_alt mask_bit
        del: push_bit_of_1)
qed

lemma bitset_first_zero_bit_least:
  assumes "NOT w \<noteq> (0 :: u64)"
  shows "\<exists>z < 64. bitset_first_zero_bit w = Some (of_nat z) \<and> \<not> bit w z \<and> (\<forall>j < z. bit w j)"
proof -
  obtain j where "bit (NOT w) j" using assms by (auto simp: bit_eq_iff)
  then have "\<exists>j < 64. \<not> bit w j" by (auto simp: bit_simps)
  then obtain z where "z < 64 \<and> \<not> bit w z" "\<forall>j < z. \<not> (j < 64 \<and> \<not> bit w j)"
    using exists_least_iff [of "\<lambda>j. j < 64 \<and> \<not> bit w j"] by blast
  then show ?thesis
    using first_zero_from [of 0 z w] by (auto simp: bitset_first_zero_bit_def)
qed

lemma full_word_iff: "NOT (w :: u64) = 0 \<longleftrightarrow> (\<forall>j < 64. bit w j)"
  by (auto simp: bit_eq_iff bit_simps)

lemma bs_bit_word:
  "bs_data bs = Some data \<Longrightarrow> j < 64 \<Longrightarrow> bs_bit bs (64 * k + j) = bit (data ! k) j"
  by (simp add: bs_bit_def)

lemma word_index_less:
  "word_index < bs_data_bytes bs div 8 \<longleftrightarrow> unat word_index < bs_words bs"
  by (simp add: word_less_nat_alt unat_div bs_words_def)

lemma unat_bit_base:
  assumes "bs_wf bs" "unat (wi :: u64) < bs_words bs"
  shows "unat (wi * 8 * 8) = 64 * unat wi"
  using assms unat_mult_u64 [of wi 8] unat_mult_u64 [of "wi * 8" 8] by (elim bs_wfE) simp

lemma word_of_wf:
  assumes "bs_wf bs" "unat (wi :: u64) < bs_words bs"
  obtains data where "bs_data bs = Some data" "cell_get data (unat wi) = Some (data ! unat wi)"
  using assms by (elim bs_wfE) (simp add: cell_get_def)

lemma full_word_bits:
  assumes "bs_data bs = Some data" "NOT (data ! k) = 0" "64 * k \<le> i" "i < 64 * Suc k"
  shows "bs_bit bs i"
proof -
  have "i = 64 * k + (i - 64 * k)" "i - 64 * k < 64" using assms(3,4) by simp_all
  then show ?thesis
    using bs_bit_word [OF assms(1), of "i - 64 * k" k] assms(2) by (simp add: full_word_iff)
qed

lemma find_free_hit:
  assumes wf: "bs_wf bs"
    and "z < 64 * bs_words bs" "\<not> bs_bit bs z" "64 * unat wi \<le> z"
    and "\<forall>j. 64 * unat wi \<le> j \<and> j < z \<longrightarrow> bs_bit bs j"
  shows "find_free_from bs wi bit0 = Some (0, of_nat z)"
  using assms(2-)
proof (induction "bs_words bs - unat wi" arbitrary: wi)
  case 0
  then show ?case by simp
next
  case (Suc n)
  then have lt: "unat wi < bs_words bs" by simp
  obtain data where d: "bs_data bs = Some data" "cell_get data (unat wi) = Some (data ! unat wi)"
    using word_of_wf [OF wf lt] .
  show ?case
  proof (cases "NOT (data ! unat wi) = 0")
    case True
    then have "\<not> z < 64 * Suc (unat wi)"
      using full_word_bits [OF d(1) True, of z] Suc.prems by blast
    moreover have s: "unat (wi + 1) = Suc (unat wi)"
      using lt wf unat_add_u64 [of wi 1] by (elim bs_wfE) simp
    ultimately have "find_free_from bs (wi + 1) bit0 = Some (0, of_nat z)"
      using Suc.hyps(1) [of "wi + 1"] Suc.hyps(2) Suc.prems by simp
    then show ?thesis
      using True lt d by (simp add: find_free_from.simps [of bs wi] word_index_less)
  next
    case False
    then obtain j where j: "j < 64" "bitset_first_zero_bit (data ! unat wi) = Some (of_nat j)"
      "\<not> bit (data ! unat wi) j" "\<forall>i < j. bit (data ! unat wi) i"
      using bitset_first_zero_bit_least by blast
    have bits: "bs_bit bs (64 * unat wi + i) = bit (data ! unat wi) i" if "i < 64" for i
      using bs_bit_word [OF d(1) that] by simp
    have z: "z = 64 * unat wi + j"
    proof (rule antisym)
      show "z \<le> 64 * unat wi + j"
      proof (rule ccontr)
        assume "\<not> z \<le> 64 * unat wi + j"
        then have "bs_bit bs (64 * unat wi + j)" using Suc.prems(4) by simp
        then show False using bits [OF j(1)] j(3) by simp
      qed
      show "64 * unat wi + j \<le> z"
      proof (rule ccontr)
        assume "\<not> 64 * unat wi + j \<le> z"
        then have "z = 64 * unat wi + (z - 64 * unat wi)" "z - 64 * unat wi < j"
          using Suc.prems(3) by simp_all
        then show False using bits [of "z - 64 * unat wi"] j Suc.prems(2) by simp
      qed
    qed
    have "unat (wi * 8 * 8 + of_nat j) = z"
      using unat_bit_base [OF wf lt] j(1) z Suc.prems(1) wf
        unat_add_u64 [of "wi * 8 * 8" "of_nat j"] by (elim bs_wfE) simp
    then have "wi * 8 * 8 + of_nat j = of_nat z" by auto
    then show ?thesis
      using False lt d j by (simp add: find_free_from.simps [of bs wi] word_index_less)
  qed
qed

lemma find_free_miss:
  assumes wf: "bs_wf bs" and "\<forall>j. 64 * unat wi \<le> j \<and> j < 64 * bs_words bs \<longrightarrow> bs_bit bs j"
  shows "find_free_from bs wi bit0 = Some (-1, bit0)"
  using assms(2)
proof (induction "bs_words bs - unat wi" arbitrary: wi)
  case 0
  then show ?case by (simp add: find_free_from.simps [of bs wi] word_index_less)
next
  case (Suc n)
  then have lt: "unat wi < bs_words bs" by simp
  obtain data where d: "bs_data bs = Some data" "cell_get data (unat wi) = Some (data ! unat wi)"
    using word_of_wf [OF wf lt] .
  have "bit (data ! unat wi) j" if "j < 64" for j
    using Suc.prems bs_bit_word [OF d(1) that, of "unat wi"] lt that by simp
  then have full: "NOT (data ! unat wi) = 0" by (simp add: full_word_iff)
  have s: "unat (wi + 1) = Suc (unat wi)"
    using lt wf unat_add_u64 [of wi 1] by (elim bs_wfE) simp
  have "find_free_from bs (wi + 1) bit0 = Some (-1, bit0)"
    using Suc.hyps(1) [of "wi + 1"] Suc.hyps(2) Suc.prems s by simp
  then show ?case
    using full lt d by (simp add: find_free_from.simps [of bs wi] word_index_less)
qed

text \<open>\<open>free_run bs b n\<close>: the \<open>n\<close> bits from \<open>b\<close> on are counted and clear.\<close>

definition free_run :: "bitset \<Rightarrow> nat \<Rightarrow> nat \<Rightarrow> bool" where
  "free_run bs b n \<longleftrightarrow> (\<forall>i < n. b + i < bs_count bs \<and> \<not> bs_bit bs (b + i))"

lemma bs_count_bound: "bs_wf bs \<Longrightarrow> bs_count bs \<le> 2 ^ 63"
  by (elim bs_wfE) simp

lemma consecutive_free_run:
  assumes wf: "bs_wf bs" and b: "unat b \<le> 2 ^ 63"
    and "c \<le> len" "free_run bs (unat b) (unat c)"
  shows "\<exists>r. consecutive_free bs len b c = Some r \<and> (r = len \<longleftrightarrow> free_run bs (unat b) (unat len))"
  using assms(3,4)
proof (induction "unat len - unat c" arbitrary: c)
  case 0
  then have "c = len" by (simp add: word_le_nat_alt word_unat_eq_iff)
  with 0 show ?case by (simp add: consecutive_free.simps [of bs len b len])
next
  case (Suc n)
  then have lt: "unat c < unat len" by simp
  have "unat b + unat c \<le> 2 ^ 63"
  proof (cases "unat c")
    case (Suc k)
    then have "unat b + k < bs_count bs" using Suc.prems(2) by (simp add: free_run_def)
    then show ?thesis using Suc bs_count_bound [OF wf] by simp
  qed (use b in simp)
  then have sum: "unat (b + c) = unat b + unat c" by (simp add: unat_add_u64)
  have s: "unat (c + 1) = Suc (unat c)"
    using unat_Suc_u64 [of c len] lt by (simp add: word_less_nat_alt)
  have stop: "\<not> free_run bs (unat b) (unat len) \<and> c \<noteq> len"
    if "bs_count bs \<le> unat b + unat c \<or> bs_bit bs (unat b + unat c)"
    using that lt by (auto simp: free_run_def)
  show ?case
  proof (cases "bs_count bs \<le> unat b + unat c")
    case True
    then show ?thesis
      using stop lt sum
      by (simp add: consecutive_free.simps [of bs len b c] word_less_nat_alt word_le_nat_alt bs_count_def)
  next
    case False
    then have g: "bitset_get_bit bs (b + c) = Some (bs_bit bs (unat b + unat c))"
      using get_bit_iff [OF wf, of "b + c"] sum by simp
    have nge: "\<not> b + c \<ge> bs_bit_count bs" using False sum by (simp add: word_le_nat_alt bs_count_def)
    show ?thesis
    proof (cases "bs_bit bs (unat b + unat c)")
      case True
      then show ?thesis
        using stop lt g nge by (simp add: consecutive_free.simps [of bs len b c] word_less_nat_alt)
    next
      case clear: False
      have "free_run bs (unat b) (unat (c + 1))"
        using Suc.prems(2) False clear s by (auto simp: free_run_def less_Suc_eq)
      then have "\<exists>r. consecutive_free bs len b (c + 1) = Some r \<and>
          (r = len \<longleftrightarrow> free_run bs (unat b) (unat len))"
        using Suc.hyps(1) [of "c + 1"] Suc.hyps(2) s lt by (simp add: word_le_nat_alt)
      then show ?thesis
        using clear lt g nge by (simp add: consecutive_free.simps [of bs len b c] word_less_nat_alt)
    qed
  qed
qed

definition least_run :: "bitset \<Rightarrow> nat \<Rightarrow> nat \<Rightarrow> nat \<Rightarrow> bool" where
  "least_run bs n lo b \<longleftrightarrow> lo \<le> b \<and> free_run bs b n \<and> (\<forall>b'. lo \<le> b' \<and> b' < b \<longrightarrow> \<not> free_run bs b' n)"

lemma scan_word_run:
  assumes wf: "bs_wf bs" and "unat hi \<le> 2 ^ 63"
  shows "\<exists>r. scan_word bs len lo hi = Some r \<and>
    (case r of Some b \<Rightarrow> least_run bs (unat len) (unat lo) (unat b)
     | None \<Rightarrow> \<forall>b. unat lo \<le> b \<and> b \<le> unat hi \<longrightarrow> \<not> free_run bs b (unat len))"
proof (induction "Suc (unat hi) - unat lo" arbitrary: lo)
  case 0
  then show ?case by (auto simp: scan_word.simps [of bs len lo] word_le_nat_alt)
next
  case (Suc n)
  then have le: "unat lo \<le> unat hi" by simp
  then obtain r where r: "consecutive_free bs len lo 0 = Some r"
    "r = len \<longleftrightarrow> free_run bs (unat lo) (unat len)"
    using consecutive_free_run [OF wf, of lo 0 len] assms(2) by (auto simp: free_run_def)
  have s: "unat (lo + 1) = Suc (unat lo)"
    using le assms(2) unat_add_u64 [of lo 1] by simp
  show ?case
  proof (cases "r = len")
    case True
    then show ?thesis
      using r le by (auto simp: scan_word.simps [of bs len lo] word_le_nat_alt least_run_def)
  next
    case False
    obtain r' where r': "scan_word bs len (lo + 1) hi = Some r'"
      "case r' of Some b \<Rightarrow> least_run bs (unat len) (unat (lo + 1)) (unat b)
       | None \<Rightarrow> \<forall>b. unat (lo + 1) \<le> b \<and> b \<le> unat hi \<longrightarrow> \<not> free_run bs b (unat len)"
    proof -
      have "n = Suc (unat hi) - unat (lo + 1)" using Suc.hyps(2) s by linarith
      from Suc.hyps(1) [OF this] show ?thesis using that by blast
    qed
    have "scan_word bs len lo hi = Some r'"
      using False r r'(1) le by (simp add: scan_word.simps [of bs len lo] word_le_nat_alt)
    moreover have "\<not> free_run bs (unat lo) (unat len)" using False r by simp
    ultimately show ?thesis
      using r'(2) s
      by (auto simp: least_run_def Suc_le_eq split: option.splits) (metis le_neq_implies_less)+
  qed
qed

lemma free_run_start: "0 < n \<Longrightarrow> free_run bs b n \<Longrightarrow> b < bs_count bs \<and> \<not> bs_bit bs b"
  by (auto simp: free_run_def dest: spec [of _ 0])

text \<open>What a search that starts at bit \<open>lo\<close> reports: the first run from there on, or that there is none.\<close>

definition run_report :: "bitset \<Rightarrow> nat \<Rightarrow> nat \<Rightarrow> u64 \<Rightarrow> int \<times> u64 \<Rightarrow> bool" where
  "run_report bs n lo bit0 r \<longleftrightarrow>
     (case r of (rc, b) \<Rightarrow>
        rc = 0 \<and> least_run bs n lo (unat b) \<or>
        rc = -1 \<and> b = bit0 \<and> (\<forall>k \<ge> lo. \<not> free_run bs k n))"

lemma run_report_skip:
  assumes "run_report bs n (lo + 64) bit0 r"
    and "\<And>k. lo \<le> k \<Longrightarrow> k < lo + 64 \<Longrightarrow> \<not> free_run bs k n"
  shows "run_report bs n lo bit0 r"
  using assms by (auto simp: run_report_def least_run_def) (metis not_le)+

lemma scan_word_of:
  assumes wf: "bs_wf bs" and lt: "unat wi < bs_words bs"
  shows "\<exists>r. scan_word bs len (wi * 8 * 8) (wi * 8 * 8 + 8 * 8) = Some r \<and>
    (case r of Some b \<Rightarrow> least_run bs (unat len) (64 * unat wi) (unat b)
     | None \<Rightarrow> \<forall>k. 64 * unat wi \<le> k \<and> k < 64 * unat wi + 64 \<longrightarrow> \<not> free_run bs k (unat len))"
proof -
  have base: "unat (wi * 8 * 8) = 64 * unat wi" using unat_bit_base [OF wf lt] .
  have w: "bs_words bs \<le> 2 ^ 57" using wf by (elim bs_wfE)
  then have hi: "unat (wi * 8 * 8 + 64) = 64 * unat wi + 64"
    using base lt unat_add_u64 [of "wi * 8 * 8" 64] by simp
  obtain r where "scan_word bs len (wi * 8 * 8) (wi * 8 * 8 + 64) = Some r"
    "case r of Some b \<Rightarrow> least_run bs (unat len) (64 * unat wi) (unat b)
     | None \<Rightarrow> \<forall>b. 64 * unat wi \<le> b \<and> b \<le> 64 * unat wi + 64 \<longrightarrow> \<not> free_run bs b (unat len)"
  proof -
    have "unat (wi * 8 * 8 + 64) \<le> 2 ^ 63" using hi w lt by simp
    from scan_word_run [OF wf this, of len "wi * 8 * 8"] show ?thesis
      using that unfolding base hi by blast
  qed
  then show ?thesis by (auto split: option.splits)
qed

lemma find_sequence_run:
  assumes wf: "bs_wf bs" and len: "0 < unat len"
  shows "\<exists>r. find_sequence_from bs len wi bit0 = Some r \<and>
    run_report bs (unat len) (64 * unat wi) bit0 r"
proof (induction "bs_words bs - unat wi" arbitrary: wi)
  case 0
  then have "\<not> free_run bs k (unat len)" if "64 * unat wi \<le> k" for k
    using free_run_start [OF len, of bs k] that wf by (auto elim!: bs_wfE)
  with 0 show ?case
    by (simp add: find_sequence_from.simps [of bs len wi] word_index_less run_report_def)
next
  case (Suc n)
  then have lt: "unat wi < bs_words bs" by simp
  obtain data where d: "bs_data bs = Some data" "cell_get data (unat wi) = Some (data ! unat wi)"
    using word_of_wf [OF wf lt] .
  have s: "unat (wi + 1) = Suc (unat wi)"
    using lt wf unat_add_u64 [of wi 1] by (elim bs_wfE) simp
  have "n = bs_words bs - unat (wi + 1)" using Suc.hyps(2) s by linarith
  from Suc.hyps(1) [OF this] obtain rest where
    rest: "find_sequence_from bs len (wi + 1) bit0 = Some rest"
      "run_report bs (unat len) (64 * unat wi + 64) bit0 rest"
    using s by (auto simp: add.commute)
  note unfold = find_sequence_from.simps [of bs len wi]
  show ?case
  proof (cases "NOT (data ! unat wi) = 0")
    case True
    then have "\<not> free_run bs k (unat len)" if "64 * unat wi \<le> k" "k < 64 * unat wi + 64" for k
      using free_run_start [OF len, of bs k] full_word_bits [OF d(1) True, of k] that by auto
    with rest True lt d show ?thesis
      by (auto simp: unfold word_index_less intro: run_report_skip)
  next
    case False
    obtain r where r: "scan_word bs len (wi * 8 * 8) (wi * 8 * 8 + 8 * 8) = Some r"
      "case r of Some b \<Rightarrow> least_run bs (unat len) (64 * unat wi) (unat b)
       | None \<Rightarrow> \<forall>k. 64 * unat wi \<le> k \<and> k < 64 * unat wi + 64 \<longrightarrow> \<not> free_run bs k (unat len)"
      using scan_word_of [OF wf lt] by blast
    show ?thesis
    proof (cases r)
      case None
      with r rest False lt d show ?thesis
        by (auto simp: unfold word_index_less intro: run_report_skip)
    next
      case (Some b)
      with r False lt d show ?thesis by (auto simp: unfold word_index_less run_report_def)
    qed
  qed
qed

section \<open>Interface: a store of allocation bits\<close>

text \<open>
  What the page frame allocator relies on: marking and unmarking one index or a range, and the two
  searches. \<open>store_size\<close> is the number of indices.
\<close>

locale bit_store =
  fixes inv :: "'b \<Rightarrow> bool"
    and used :: "'b \<Rightarrow> nat \<Rightarrow> bool"
    and store_size :: "'b \<Rightarrow> nat"
    and mark :: "'b \<Rightarrow> u64 \<Rightarrow> 'b option"
    and unmark :: "'b \<Rightarrow> u64 \<Rightarrow> 'b option"
    and mark_range :: "'b \<Rightarrow> u64 \<Rightarrow> u64 \<Rightarrow> 'b option"
    and unmark_range :: "'b \<Rightarrow> u64 \<Rightarrow> u64 \<Rightarrow> 'b option"
    and find_one :: "'b \<Rightarrow> u64 \<Rightarrow> (int \<times> u64) option"
    and find_run :: "'b \<Rightarrow> u64 \<Rightarrow> u64 \<Rightarrow> (int \<times> u64) option"
  assumes mark_law: "inv b \<Longrightarrow> unat i < store_size b \<Longrightarrow>
      \<exists>b'. mark b i = Some b' \<and> inv b' \<and> store_size b' = store_size b \<and>
        (\<forall>k < store_size b. used b' k \<longleftrightarrow> k = unat i \<or> used b k)"
    and unmark_law: "inv b \<Longrightarrow> unat i < store_size b \<Longrightarrow>
      \<exists>b'. unmark b i = Some b' \<and> inv b' \<and> store_size b' = store_size b \<and>
        (\<forall>k < store_size b. used b' k \<longleftrightarrow> k \<noteq> unat i \<and> used b k)"
    and mark_range_law: "inv b \<Longrightarrow> unat i + unat n \<le> store_size b \<Longrightarrow>
      \<exists>b'. mark_range b i n = Some b' \<and> inv b' \<and> store_size b' = store_size b \<and>
        (\<forall>k < store_size b. used b' k \<longleftrightarrow> k \<in> {unat i..<unat i + unat n} \<or> used b k)"
    and unmark_range_law: "inv b \<Longrightarrow> unat i + unat n \<le> store_size b \<Longrightarrow>
      \<exists>b'. unmark_range b i n = Some b' \<and> inv b' \<and> store_size b' = store_size b \<and>
        (\<forall>k < store_size b. used b' k \<longleftrightarrow> k \<notin> {unat i..<unat i + unat n} \<and> used b k)"
    and find_one_law: "inv b \<Longrightarrow>
      (\<exists>i. find_one b d = Some (0, i) \<and> unat i < store_size b \<and> \<not> used b (unat i) \<and>
         (\<forall>k < unat i. used b k)) \<or>
      find_one b d = Some (-1, d) \<and> (\<forall>k < store_size b. used b k)"
    and find_run_law: "inv b \<Longrightarrow> n \<noteq> 0 \<Longrightarrow>
      (\<exists>i. find_run b n d = Some (0, i) \<and> unat i + unat n \<le> store_size b \<and>
         (\<forall>k \<in> {unat i..<unat i + unat n}. \<not> used b k) \<and>
         (\<forall>j < unat i. \<exists>k \<in> {j..<j + unat n}. used b k)) \<or>
      find_run b n d = Some (-1, d) \<and>
        (\<forall>j. j + unat n \<le> store_size b \<longrightarrow> (\<exists>k \<in> {j..<j + unat n}. used b k))"
begin

text \<open>Taking the first free index: it was free, becomes used, and nothing else changes.\<close>

lemma take_first:
  assumes "inv b"
  shows "(\<exists>i b'. find_one b d = Some (0, i) \<and> mark b i = Some b' \<and> inv b' \<and>
      store_size b' = store_size b \<and> unat i < store_size b \<and> \<not> used b (unat i) \<and>
      (\<forall>k < unat i. used b k) \<and> (\<forall>k < store_size b. used b' k \<longleftrightarrow> k = unat i \<or> used b k)) \<or>
    find_one b d = Some (-1, d) \<and> (\<forall>k < store_size b. used b k)"
  using find_one_law [OF assms, of d] mark_law [OF assms] by blast

lemma take_run:
  assumes "inv b" "n \<noteq> 0"
  shows "(\<exists>i b'. find_run b n d = Some (0, i) \<and> mark_range b i n = Some b' \<and> inv b' \<and>
      store_size b' = store_size b \<and> unat i + unat n \<le> store_size b \<and>
      (\<forall>k \<in> {unat i..<unat i + unat n}. \<not> used b k) \<and>
      (\<forall>k < store_size b. used b' k \<longleftrightarrow> k \<in> {unat i..<unat i + unat n} \<or> used b k)) \<or>
    find_run b n d = Some (-1, d) \<and>
      (\<forall>j. j + unat n \<le> store_size b \<longrightarrow> (\<exists>k \<in> {j..<j + unat n}. used b k))"
  using find_run_law [OF assms, of d] mark_range_law [OF assms(1), of _ n] by meson

end

text \<open>The bit set provides the interface when its bits fill its words, as the page bit set does.\<close>

definition bs_whole :: "bitset \<Rightarrow> bool" where
  "bs_whole bs \<longleftrightarrow> bs_wf bs \<and> bs_count bs = 64 * bs_words bs"

lemma find_first_report:
  assumes "bs_wf bs"
  shows "(\<exists>i. bitset_find_first_free_bit bs bit0 = Some (0, i) \<and> unat i < 64 * bs_words bs \<and>
      \<not> bs_bit bs (unat i) \<and> (\<forall>k < unat i. bs_bit bs k)) \<or>
    bitset_find_first_free_bit bs bit0 = Some (-1, bit0) \<and> (\<forall>k < 64 * bs_words bs. bs_bit bs k)"
proof (cases "\<exists>z < 64 * bs_words bs. \<not> bs_bit bs z")
  case True
  then obtain z where z: "z < 64 * bs_words bs \<and> \<not> bs_bit bs z"
    "\<forall>j < z. \<not> (j < 64 * bs_words bs \<and> \<not> bs_bit bs j)"
    using exists_least_iff [of "\<lambda>z. z < 64 * bs_words bs \<and> \<not> bs_bit bs z"] by blast
  moreover have "bs_words bs \<le> 2 ^ 57" using assms by (elim bs_wfE)
  ultimately have "unat (of_nat z :: u64) = z" by simp
  then show ?thesis
    using find_free_hit [OF assms, of z 0 bit0] z
    by (auto simp: bitset_find_first_free_bit_def)
next
  case False
  then show ?thesis
    using find_free_miss [OF assms, of 0 bit0] by (auto simp: bitset_find_first_free_bit_def)
qed

lemma free_run_iff:
  "0 < n \<Longrightarrow> free_run bs b n \<longleftrightarrow> b + n \<le> bs_count bs \<and> (\<forall>k \<in> {b..<b + n}. \<not> bs_bit bs k)"
proof
  assume n: "0 < n" and r: "free_run bs b n"
  from n r have "b + (n - 1) < bs_count bs" unfolding free_run_def by (meson diff_less zero_less_one)
  moreover have "\<not> bs_bit bs k" if "k \<in> {b..<b + n}" for k
    using r that le_Suc_ex [of b k] by (auto simp: free_run_def)
  ultimately show "b + n \<le> bs_count bs \<and> (\<forall>k \<in> {b..<b + n}. \<not> bs_bit bs k)" using n by auto
qed (auto simp: free_run_def)

lemma find_sequence_report:
  assumes "bs_wf bs" "len \<noteq> 0"
  shows "(\<exists>i. bitset_find_first_free_bit_sequence bs len bit0 = Some (0, i) \<and>
      free_run bs (unat i) (unat len) \<and> (\<forall>j < unat i. \<not> free_run bs j (unat len))) \<or>
    bitset_find_first_free_bit_sequence bs len bit0 = Some (-1, bit0) \<and>
      (\<forall>j. \<not> free_run bs j (unat len))"
  using find_sequence_run [OF assms(1), of len 0 bit0] assms(2)
  by (auto simp: bitset_find_first_free_bit_sequence_def run_report_def least_run_def unat_gt_0)

interpretation bss: bit_store bs_whole bs_bit bs_count bitset_set_bit bitset_clear_bit
  bitset_set_bit_sequence bitset_clear_bit_sequence bitset_find_first_free_bit
  bitset_find_first_free_bit_sequence
proof unfold_locales
  fix b :: bitset and i :: u64
  assume w: "bs_whole b" and i: "unat i < bs_count b"
  show "\<exists>b'. bitset_set_bit b i = Some b' \<and> bs_whole b' \<and> bs_count b' = bs_count b \<and>
      (\<forall>k < bs_count b. bs_bit b' k \<longleftrightarrow> k = unat i \<or> bs_bit b k)"
    using set_bit_upd [of b i] w i by (auto simp: bs_whole_def bs_upd_def)
  show "\<exists>b'. bitset_clear_bit b i = Some b' \<and> bs_whole b' \<and> bs_count b' = bs_count b \<and>
      (\<forall>k < bs_count b. bs_bit b' k \<longleftrightarrow> k \<noteq> unat i \<and> bs_bit b k)"
    using clear_bit_upd [of b i] w i by (auto simp: bs_whole_def bs_upd_def)
next
  fix b :: bitset and i n :: u64
  assume w: "bs_whole b" and r: "unat i + unat n \<le> bs_count b"
  show "\<exists>b'. bitset_set_bit_sequence b i n = Some b' \<and> bs_whole b' \<and> bs_count b' = bs_count b \<and>
      (\<forall>k < bs_count b. bs_bit b' k \<longleftrightarrow> k \<in> {unat i..<unat i + unat n} \<or> bs_bit b k)"
    using set_sequence_upd [of b i n] w r by (auto simp: bs_whole_def bs_upd_range_def)
  show "\<exists>b'. bitset_clear_bit_sequence b i n = Some b' \<and> bs_whole b' \<and> bs_count b' = bs_count b \<and>
      (\<forall>k < bs_count b. bs_bit b' k \<longleftrightarrow> k \<notin> {unat i..<unat i + unat n} \<and> bs_bit b k)"
    using clear_sequence_upd [of b i n] w r by (auto simp: bs_whole_def bs_upd_range_def)
next
  fix b :: bitset and d :: u64
  assume "bs_whole b"
  then show "(\<exists>i. bitset_find_first_free_bit b d = Some (0, i) \<and> unat i < bs_count b \<and>
        \<not> bs_bit b (unat i) \<and> (\<forall>k < unat i. bs_bit b k)) \<or>
      bitset_find_first_free_bit b d = Some (-1, d) \<and> (\<forall>k < bs_count b. bs_bit b k)"
    using find_first_report [of b d] by (simp add: bs_whole_def)
next
  fix b :: bitset and n d :: u64
  assume w: "bs_whole b" and n: "n \<noteq> 0"
  have run: "free_run b j (unat n) \<longleftrightarrow>
      j + unat n \<le> bs_count b \<and> (\<forall>k \<in> {j..<j + unat n}. \<not> bs_bit b k)" for j
    using n by (simp add: free_run_iff unat_gt_0)
  have early: "\<exists>k \<in> {j..<j + unat n}. bs_bit b k"
    if "j < i" "i + unat n \<le> bs_count b" "\<not> free_run b j (unat n)" for i j
    using that unfolding run by auto
  show "(\<exists>i. bitset_find_first_free_bit_sequence b n d = Some (0, i) \<and>
        unat i + unat n \<le> bs_count b \<and> (\<forall>k \<in> {unat i..<unat i + unat n}. \<not> bs_bit b k) \<and>
        (\<forall>j < unat i. \<exists>k \<in> {j..<j + unat n}. bs_bit b k)) \<or>
      bitset_find_first_free_bit_sequence b n d = Some (-1, d) \<and>
        (\<forall>j. j + unat n \<le> bs_count b \<longrightarrow> (\<exists>k \<in> {j..<j + unat n}. bs_bit b k))"
    using find_sequence_report [OF _ n, of b d] w run early by (auto simp: bs_whole_def)
qed

section \<open>Properties\<close>

text \<open>C19 (bitset_sequences_update_range). Setting, clearing, toggling or writing a run of bits that
  lies inside the bit set succeeds and changes exactly the bits of that run, wherever it starts and
  ends inside the words.\<close>

theorem bitset_sequences_update_range:
  assumes "bs_wf bs" and "unat a + unat len \<le> bs_count bs"
  shows "(\<exists>bs'. bitset_set_bit_sequence bs a len = Some bs' \<and> bs_wf bs' \<and>
      bs_set bs' = bs_set bs \<union> {unat a..<unat a + unat len}) \<and>
    (\<exists>bs'. bitset_clear_bit_sequence bs a len = Some bs' \<and> bs_wf bs' \<and>
      bs_set bs' = bs_set bs - {unat a..<unat a + unat len}) \<and>
    (\<exists>bs'. bitset_toggle_bit_sequence bs a len = Some bs' \<and> bs_wf bs' \<and>
      bs_set bs' = (bs_set bs - {unat a..<unat a + unat len}) \<union>
        ({unat a..<unat a + unat len} - bs_set bs)) \<and>
    (\<exists>bs'. bitset_write_bit_sequence bs a len v = Some bs' \<and> bs_wf bs' \<and>
      bs_set bs' = (if v then bs_set bs \<union> {unat a..<unat a + unat len}
        else bs_set bs - {unat a..<unat a + unat len}))"
proof -
  have rng: "bs_wf bs' \<and> bs_set bs' = (bs_set bs - {unat a..<unat a + unat len}) \<union>
      {k \<in> {unat a..<unat a + unat len}. g (bs_bit bs k)}"
    if "bs_upd_range bs (unat a) (unat a + unat len) g bs'" for g bs'
    using that assms(2) by (auto simp: bs_set_def bs_upd_range_def bs_count_def)
  have "{k \<in> {unat a..<unat a + unat len}. \<not> bs_bit bs k} = {unat a..<unat a + unat len} - bs_set bs"
    using assms(2) by (auto simp: bs_set_def bs_count_def)
  then show ?thesis
    using rng set_sequence_upd [OF assms] clear_sequence_upd [OF assms]
      toggle_sequence_upd [OF assms] write_sequence_upd [OF assms, of v]
    by (intro conjI) (force split: if_splits)+
qed

definition bs_example :: bitset where
  "bs_example = \<lparr>bs_data = Some [-1, 7], bs_data_bytes = 16, bs_bit_count = 100, bs_owned = False\<rparr>"

lemma bs_example_wf: "bs_wf bs_example" "bs_count bs_example = 100"
  by (simp_all add: bs_wf_def bs_example_def bs_count_def)

lemma bitset_sequences_update_range_witness:
  "bs_wf bs_example \<and> (\<exists>bs'. bitset_set_bit_sequence bs_example 66 10 = Some bs' \<and>
     bs_set bs' = bs_set bs_example \<union> {66..<76})"
  using bitset_sequences_update_range [OF bs_example_wf(1), of 66 10 True] bs_example_wf by auto

text \<open>C20 (bitset_find_first_least). The search for one free bit always ends: it reports the lowest
  clear bit of the words, or -1 with \<open>*bit\<close> untouched when every bit of every word is set.\<close>

theorem bitset_find_first_least:
  assumes "bs_wf bs"
  shows "bitset_find_first_free_bit bs bit0 =
    (if \<exists>i < 64 * bs_words bs. \<not> bs_bit bs i
     then Some (0, of_nat (LEAST i. \<not> bs_bit bs i)) else Some (-1, bit0))"
proof (cases "\<exists>i < 64 * bs_words bs. \<not> bs_bit bs i")
  case True
  then obtain i where i: "bitset_find_first_free_bit bs bit0 = Some (0, i)"
    "\<not> bs_bit bs (unat i)" "\<forall>k < unat i. bs_bit bs k"
    using find_first_report [OF assms, of bit0] by blast
  then have "(LEAST i. \<not> bs_bit bs i) = unat i"
    by (intro Least_equality) (auto simp: not_less [symmetric])
  then show ?thesis using True i by simp
next
  case False
  then show ?thesis using find_first_report [OF assms, of bit0] by auto
qed

lemma bitset_find_first_least_witness:
  "bs_wf bs_example \<and> bitset_find_first_free_bit bs_example 0 = Some (0, 67)"
proof -
  have b: "bs_bit bs_example i \<longleftrightarrow> i < 67" if "i < 128" for i
  proof (cases "i < 64")
    case False
    then have "i div 64 = 1" "i mod 64 = i - 64" using that by (auto simp: div_nat_eqI mod_once)
    moreover have "bit (7 :: u64) k \<longleftrightarrow> k < 3" if "k < 64" for k
    proof -
      have "(7 :: u64) = mask 3" by (simp add: mask_eq_decr_exp)
      then show ?thesis using that by (simp only: bit_mask_iff) simp
    qed
    ultimately show ?thesis using False that by (auto simp: bs_bit_def bs_example_def)
  qed (simp add: bs_bit_def bs_example_def)
  have "(LEAST i. \<not> bs_bit bs_example i) = 67"
    by (rule Least_equality) (use b in \<open>force simp: not_less [symmetric]\<close>)+
  moreover have "\<exists>i < 64 * bs_words bs_example. \<not> bs_bit bs_example i"
    using b [of 67] by (intro exI [of _ 67]) (simp add: bs_words_def bs_example_def)
  ultimately show ?thesis
    using bitset_find_first_least [OF bs_example_wf(1), of 0] bs_example_wf(1) by simp
qed

text \<open>C21 (bitset_find_sequence_least). The search for a run of \<open>len\<close> free bits always ends: it
  reports the lowest position at which \<open>len\<close> counted bits are all clear, also when the run crosses
  words, or -1 when there is no such position.\<close>

theorem bitset_find_sequence_least:
  assumes "bs_wf bs" and "len \<noteq> 0"
  shows "bitset_find_first_free_bit_sequence bs len bit0 =
    (if \<exists>i. i + unat len \<le> bs_count bs \<and> {i..<i + unat len} \<inter> bs_set bs = {}
     then Some (0, of_nat (LEAST i. i + unat len \<le> bs_count bs \<and> {i..<i + unat len} \<inter> bs_set bs = {}))
     else Some (-1, bit0))"
proof -
  have run: "free_run bs i (unat len) \<longleftrightarrow>
      i + unat len \<le> bs_count bs \<and> {i..<i + unat len} \<inter> bs_set bs = {}" for i
    using assms(2) by (auto simp: free_run_iff unat_gt_0 bs_set_def bs_count_def)
  have "(LEAST i. free_run bs i (unat len)) = n"
    if "free_run bs n (unat len)" "\<forall>j < n. \<not> free_run bs j (unat len)" for n
    using that by (intro Least_equality) (auto simp: not_less [symmetric])
  then show ?thesis
    using find_sequence_report [OF assms, of bit0] unfolding run [symmetric] by auto
qed

lemma bitset_find_sequence_least_witness:
  "bs_wf bs_example \<and> bitset_find_first_free_bit_sequence bs_example 200 5 = Some (-1, 5)"
  using bitset_find_sequence_least [OF bs_example_wf(1), of 200 5] bs_example_wf by simp

text \<open>C22 (bitset_find_first_ignores_bit_count). The search for one free bit looks at whole words, not
  at \<open>bit_count\<close>: when every counted bit is set but a word has spare bits, it reports a bit outside
  the set, for which every accessor panics.\<close>

theorem bitset_find_first_ignores_bit_count:
  assumes "bs_wf bs" and "\<forall>i < bs_count bs. bs_bit bs i"
    and "\<exists>i < 64 * bs_words bs. \<not> bs_bit bs i"
  shows "\<exists>i. bitset_find_first_free_bit bs bit0 = Some (0, i) \<and> bs_bit_count bs \<le> i \<and>
    bitset_set_bit bs i = None \<and> bitset_get_bit bs i = None"
proof -
  obtain i where i: "bitset_find_first_free_bit bs bit0 = Some (0, i)" "\<not> bs_bit bs (unat i)"
    using find_first_report [OF assms(1), of bit0] assms(3) by blast
  then have "bs_bit_count bs \<le> i"
    using assms(2) by (metis bs_count_def word_le_nat_alt not_le)
  then show ?thesis using i bit_out_of_range [of bs i] by (simp add: bs_count_def word_le_nat_alt)
qed

lemma bitset_find_first_ignores_bit_count_witness:
  "\<exists>i. bitset_find_first_free_bit
      \<lparr>bs_data = Some [0], bs_data_bytes = 8, bs_bit_count = 0, bs_owned = False\<rparr> 9 = Some (0, i) \<and>
    bitset_set_bit \<lparr>bs_data = Some [0], bs_data_bytes = 8, bs_bit_count = 0, bs_owned = False\<rparr> i = None"
proof -
  let ?b = "\<lparr>bs_data = Some [0], bs_data_bytes = 8, bs_bit_count = 0, bs_owned = False\<rparr> :: bitset"
  have "bs_wf ?b" "\<forall>i < bs_count ?b. bs_bit ?b i" by (simp_all add: bs_wf_def bs_count_def)
  moreover have "\<exists>i < 64 * bs_words ?b. \<not> bs_bit ?b i"
    by (intro exI [of _ 0]) (simp add: bs_words_def bs_bit_def)
  ultimately show ?thesis using bitset_find_first_ignores_bit_count [of ?b 9] by blast
qed

end
