(* ===== verification/Page_Frames.thy ===== *)
theory Page_Frames
  imports Bitset
begin

text \<open>
  The physical page frame allocator, \<^verbatim>\<open>kernel/mem/page_frame_allocator.c\<close>, on top of the bit set.
  One bit stands for one 4 KiB frame; a set bit is a frame that is reserved or handed out. The
  theory shows that the allocator hands out only free frames, never the same frame twice, that the
  accounting of \<open>phys_memory_allocated\<close> is exact over any sequence of requests, and what the frames
  are that the start-up code leaves reserved.
\<close>

section \<open>Model\<close>

record phys_page_stats =
  phys_memory_allocated :: u64
  phys_memory_total :: u64
  phys_memory_max :: u64

text \<open>
  \<open>page_bitset\<close> and \<open>g_phys_page_stats\<close> are the static variables; \<open>resident_memory\<close> is that field of
  every \<open>struct process\<close>, a process being named by a number. The record is extended by the block
  cache, which lives in the same state.
\<close>

type_synonym process = nat

record pf_state =
  page_bitset :: bitset
  g_phys_page_stats :: phys_page_stats
  resident_memory :: "process \<Rightarrow> u64"

abbreviation (input) PAGE_SIZE :: u64 where "PAGE_SIZE \<equiv> 4096"

abbreviation (input) PAGE_BITMAP_SIZE :: u64 where "PAGE_BITMAP_SIZE \<equiv> PAGE_SIZE * 32"

text \<open>\<^verbatim>\<open>x & ~0xFFF\<close>: the int constant is sign extended.\<close>

definition page_trunc :: "u64 \<Rightarrow> u64" where
  "page_trunc x = x AND NOT 0xFFF"

definition NUM_PAGES :: "u64 \<Rightarrow> u64 \<Rightarrow> u64" where
  "NUM_PAGES start end' =
     (page_trunc end' - page_trunc start + (if end' mod PAGE_SIZE \<noteq> 0 then PAGE_SIZE else 0)) div PAGE_SIZE"

definition ALIGN_UP :: "u64 \<Rightarrow> u64 \<Rightarrow> u64" where
  "ALIGN_UP size' align =
     (if size' = 0 then 0 else if align = 0 then size' else ((size' + align - 1) div align) * align)"

definition ALIGN_DOWN :: "u64 \<Rightarrow> u64 \<Rightarrow> u64" where
  "ALIGN_DOWN size' align = (if align = 0 then 0 else (size' div align) * align)"

definition mark_used :: "u64 \<Rightarrow> u64 \<Rightarrow> 'a pf_state_scheme \<Rightarrow> 'a pf_state_scheme option" where
  "mark_used phys_addr_start len st = do {
     let num_pages = NUM_PAGES phys_addr_start (phys_addr_start + len);
     let bit_index_base = phys_addr_start div PAGE_SIZE;
     bs \<leftarrow> bitset_set_bit_sequence (page_bitset st) bit_index_base num_pages;
     Some (st\<lparr>page_bitset := bs\<rparr>)
   }"

definition mark_available :: "u64 \<Rightarrow> u64 \<Rightarrow> 'a pf_state_scheme \<Rightarrow> 'a pf_state_scheme option" where
  "mark_available phys_addr_start len st = do {
     let num_pages = NUM_PAGES phys_addr_start (phys_addr_start + len);
     let bit_index_base = phys_addr_start div PAGE_SIZE;
     bs \<leftarrow> bitset_clear_bit_sequence (page_bitset st) bit_index_base num_pages;
     Some (st\<lparr>page_bitset := bs\<rparr>)
   }"

definition add_allocated :: "u64 \<Rightarrow> 'a pf_state_scheme \<Rightarrow> 'a pf_state_scheme" where
  "add_allocated n st = st\<lparr>g_phys_page_stats := (g_phys_page_stats st)
     \<lparr>phys_memory_allocated := phys_memory_allocated (g_phys_page_stats st) + n\<rparr>\<rparr>"

text \<open>The uninitialised \<open>page_index\<close> is only read after a successful search.\<close>

definition try_get_next_phys_page ::
  "process \<Rightarrow> 'a pf_state_scheme \<Rightarrow> (u64 \<times> 'a pf_state_scheme) option" where
  "try_get_next_phys_page process st = do {
     (rc, page_index) \<leftarrow> bitset_find_first_free_bit (page_bitset st) 0;
     if rc = 0 then do {
       bs \<leftarrow> bitset_set_bit (page_bitset st) page_index;
       let st = add_allocated PAGE_SIZE (st\<lparr>page_bitset := bs\<rparr>);
       let st = st\<lparr>resident_memory := (resident_memory st)
                    (process := resident_memory st process + PAGE_SIZE)\<rparr>;
       Some (page_index * PAGE_SIZE, st)
     } else Some (0, st)
   }"

text \<open>\<open>block_trim_cache\<close> is the argument \<open>trim\<close>; the block cache supplies it.\<close>

definition get_next_phys_page ::
  "('a pf_state_scheme \<Rightarrow> 'a pf_state_scheme option) \<Rightarrow> process \<Rightarrow> 'a pf_state_scheme \<Rightarrow>
   (u64 \<times> 'a pf_state_scheme) option" where
  "get_next_phys_page trim process st = do {
     (try_1, st) \<leftarrow> try_get_next_phys_page process st;
     if try_1 \<noteq> 0 then Some (try_1, st)
     else do {
       st \<leftarrow> trim st;
       (try_2, st) \<leftarrow> try_get_next_phys_page process st;
       if try_2 \<noteq> 0 then Some (try_2, st) else None
     }
   }"

definition get_contiguous_pages :: "u64 \<Rightarrow> 'a pf_state_scheme \<Rightarrow> (u64 \<times> 'a pf_state_scheme) option" where
  "get_contiguous_pages pages st = do {
     (rc, bit_start) \<leftarrow> bitset_find_first_free_bit_sequence (page_bitset st) pages 0;
     if rc = 0 then do {
       bs \<leftarrow> bitset_set_bit_sequence (page_bitset st) bit_start pages;
       Some (bit_start * PAGE_SIZE, add_allocated (pages * PAGE_SIZE) (st\<lparr>page_bitset := bs\<rparr>))
     } else Some (0, st)
   }"

definition free_phys_page :: "u64 \<Rightarrow> process option \<Rightarrow> 'a pf_state_scheme \<Rightarrow> 'a pf_state_scheme option" where
  "free_phys_page phys_addr process st = do {
     bs \<leftarrow> bitset_clear_bit (page_bitset st) (phys_addr div PAGE_SIZE);
     let st = st\<lparr>page_bitset := bs\<rparr>;
     let st = (case process of
         Some p \<Rightarrow> if resident_memory st p \<ge> PAGE_SIZE
                   then st\<lparr>resident_memory := (resident_memory st)
                          (p := resident_memory st p - PAGE_SIZE)\<rparr>
                   else st
       | None \<Rightarrow> st);
     Some (add_allocated (- PAGE_SIZE) st)
   }"

record memory_map_entry =
  base_address :: u64
  entry_length :: u64
  entry_type :: u32

abbreviation (input) MULTIBOOT2_MEMORY_MAP_AVAILABLE :: u32 where "MULTIBOOT2_MEMORY_MAP_AVAILABLE \<equiv> 1"

definition process_memory_map_region ::
  "u64 \<Rightarrow> u64 \<Rightarrow> u32 \<Rightarrow> 'a pf_state_scheme \<Rightarrow> 'a pf_state_scheme option" where
  "process_memory_map_region start len type st = do {
     st \<leftarrow> (if type = MULTIBOOT2_MEMORY_MAP_AVAILABLE then do {
         let st = (if start < 0x100000
           then add_allocated (ALIGN_UP (min (ALIGN_UP (page_trunc start + len) PAGE_SIZE) 0x100000
                  - page_trunc start) PAGE_SIZE) st
           else st);
         st \<leftarrow> mark_available (page_trunc start) len st;
         Some (st\<lparr>g_phys_page_stats := (g_phys_page_stats st)\<lparr>phys_memory_total :=
           phys_memory_total (g_phys_page_stats st) + (len - page_trunc start)\<rparr>\<rparr>)
       } else Some st);
     Some (st\<lparr>g_phys_page_stats := (g_phys_page_stats st)\<lparr>phys_memory_max :=
       max (ALIGN_UP (page_trunc start + len) PAGE_SIZE)
           (phys_memory_max (g_phys_page_stats st))\<rparr>\<rparr>)
   }"

text \<open>
  The part of \<open>struct boot_info\<close> the allocator reads. The memory map is the sequence of its entries:
  all entries inside the multiboot2 tag, or the array the Xen start info points to.
\<close>

datatype boot_info_type = BOOT_INFO_MULTIBOOT2 | BOOT_INFO_XEN | BOOT_INFO_OTHER

record boot_info =
  bi_type :: boot_info_type
  initrd_phys_start :: u64
  initrd_phys_end :: u64
  memory_map :: "memory_map_entry list"
  memory_map_count :: u64

definition process_entry :: "memory_map_entry \<Rightarrow> 'a pf_state_scheme \<Rightarrow> 'a pf_state_scheme option" where
  "process_entry entry st =
     process_memory_map_region (base_address entry) (entry_length entry) (entry_type entry) st"

definition init_from_multiboot2_map :: "boot_info \<Rightarrow> 'a pf_state_scheme \<Rightarrow> 'a pf_state_scheme option" where
  "init_from_multiboot2_map boot_info st = fold_opt process_entry (memory_map boot_info) st"

definition init_from_xen_map :: "boot_info \<Rightarrow> 'a pf_state_scheme \<Rightarrow> 'a pf_state_scheme option" where
  "init_from_xen_map boot_info st =
     fold_opt (\<lambda>i st. do { entry \<leftarrow> cell_get (memory_map boot_info) i; process_entry entry st })
       [0..<unat (memory_map_count boot_info)] st"

text \<open>\<open>KERNEL_PHYS_START\<close> and \<open>KERNEL_PHYS_END\<close> are addresses the linker sets.\<close>

definition init_page_frame_allocator ::
  "u64 \<Rightarrow> u64 \<Rightarrow> boot_info \<Rightarrow> 'a pf_state_scheme \<Rightarrow> 'a pf_state_scheme option" where
  "init_page_frame_allocator KERNEL_PHYS_START KERNEL_PHYS_END boot_info st = do {
     let page_bitset_storage = replicate (unat (PAGE_BITMAP_SIZE div 8)) (-1 :: u64);
     bs \<leftarrow> init_bitset page_bitset_storage PAGE_BITMAP_SIZE (PAGE_BITMAP_SIZE * 8);
     let st = st\<lparr>page_bitset := bs\<rparr>;
     st \<leftarrow> (case bi_type boot_info of
         BOOT_INFO_MULTIBOOT2 \<Rightarrow> init_from_multiboot2_map boot_info st
       | BOOT_INFO_XEN \<Rightarrow> init_from_xen_map boot_info st
       | BOOT_INFO_OTHER \<Rightarrow> None);
     st \<leftarrow> mark_used 0 0x100000 st;
     let st = add_allocated (ALIGN_UP (KERNEL_PHYS_END - KERNEL_PHYS_START) PAGE_SIZE) st;
     st \<leftarrow> mark_used KERNEL_PHYS_START (KERNEL_PHYS_END - KERNEL_PHYS_START) st;
     let st = add_allocated
       (ALIGN_UP (initrd_phys_end boot_info - initrd_phys_start boot_info) PAGE_SIZE) st;
     mark_used (initrd_phys_start boot_info)
       (initrd_phys_end boot_info - initrd_phys_start boot_info) st
   }"

section \<open>Frames as a set\<close>

text \<open>The invariant after start-up: 2^20 frames, and frame 0 is never free (address 0 is the error value).\<close>

definition frames_used :: "'a pf_state_scheme \<Rightarrow> nat set" where
  "frames_used st = bs_set (page_bitset st)"

definition pf_sized :: "'a pf_state_scheme \<Rightarrow> bool" where
  "pf_sized st \<longleftrightarrow> bs_whole (page_bitset st) \<and> bs_count (page_bitset st) = 2 ^ 20"

definition pf_inv :: "'a pf_state_scheme \<Rightarrow> bool" where
  "pf_inv st \<longleftrightarrow> pf_sized st \<and> 0 \<in> frames_used st"

lemma frames_used_iff: "k \<in> frames_used st \<longleftrightarrow> k < bs_count (page_bitset st) \<and> bs_bit (page_bitset st) k"
  by (simp add: frames_used_def bs_set_def bs_count_def)

lemma frames_used_add [simp]:
  "frames_used (add_allocated n st) = frames_used st"
  "frames_used (st\<lparr>g_phys_page_stats := s\<rparr>) = frames_used st"
  "frames_used (st\<lparr>resident_memory := r\<rparr>) = frames_used st"
  "frames_used (st\<lparr>page_bitset := b\<rparr>) = bs_set b"
  by (simp_all add: frames_used_def add_allocated_def)

lemma pf_sized_add [simp]:
  "pf_sized (add_allocated n st) = pf_sized st"
  "pf_sized (st\<lparr>g_phys_page_stats := s\<rparr>) = pf_sized st"
  "pf_sized (st\<lparr>resident_memory := r\<rparr>) = pf_sized st"
  "pf_sized (st\<lparr>page_bitset := b\<rparr>) \<longleftrightarrow> bs_whole b \<and> bs_count b = 2 ^ 20"
  by (simp_all add: pf_sized_def add_allocated_def)

lemma frames_bound: "pf_sized st \<Longrightarrow> frames_used st \<subseteq> {..<2 ^ 20}"
  by (auto simp: pf_sized_def frames_used_iff)

lemma frame_address:
  "unat (i :: u64) < 2 ^ 20 \<Longrightarrow> unat (i * PAGE_SIZE) = unat i * 4096 \<and> i * PAGE_SIZE div PAGE_SIZE = i"
proof -
  assume "unat i < 2 ^ 20"
  then have "unat (i * PAGE_SIZE) = unat i * 4096" using unat_mult_u64 [of i PAGE_SIZE] by simp
  then show ?thesis by (simp add: u64_eq_iff unat_div)
qed

section \<open>Requests\<close>

text \<open>\<open>unaccounted\<close> is what the counter says beyond the frames that are marked; requests keep it.\<close>

definition unaccounted :: "'a pf_state_scheme \<Rightarrow> u64" where
  "unaccounted st = phys_memory_allocated (g_phys_page_stats st) - PAGE_SIZE * of_nat (card (frames_used st))"

lemma card_used_add:
  assumes "pf_sized st" "F \<subseteq> {..<2 ^ 20}" "F \<inter> frames_used st = {}"
  shows "card (frames_used st \<union> F) = card (frames_used st) + card F"
  using assms frames_bound [OF assms(1)]
  by (intro card_Un_disjoint) (auto intro: finite_subset)

lemma finite_frames: "pf_sized st \<Longrightarrow> finite (frames_used st)"
  using frames_bound finite_subset by blast

lemma try_get_spec:
  assumes "pf_sized st"
  shows "(\<exists>i st'. try_get_next_phys_page p st = Some (i * PAGE_SIZE, st') \<and> unat i < 2 ^ 20 \<and>
      unat i \<notin> frames_used st \<and> (\<forall>k < unat i. k \<in> frames_used st) \<and> pf_sized st' \<and>
      frames_used st' = insert (unat i) (frames_used st) \<and> unaccounted st' = unaccounted st \<and>
      resident_memory st' = (resident_memory st)(p := resident_memory st p + PAGE_SIZE)) \<or>
    try_get_next_phys_page p st = Some (0, st) \<and> frames_used st = {..<2 ^ 20}"
proof -
  from assms have w: "bs_whole (page_bitset st)" and c: "bs_count (page_bitset st) = 2 ^ 20"
    by (simp_all add: pf_sized_def)
  from bss.take_first [OF w, of 0] show ?thesis
  proof (elim disjE exE conjE)
    fix i b'
    assume *: "bitset_find_first_free_bit (page_bitset st) 0 = Some (0, i)"
      "bitset_set_bit (page_bitset st) i = Some b'" "bs_whole b'"
      "bs_count b' = bs_count (page_bitset st)" "unat i < bs_count (page_bitset st)"
      "\<not> bs_bit (page_bitset st) (unat i)" "\<forall>k < unat i. bs_bit (page_bitset st) k"
      "\<forall>k < bs_count (page_bitset st). bs_bit b' k \<longleftrightarrow> k = unat i \<or> bs_bit (page_bitset st) k"
    define st' where "st' = (let s = add_allocated PAGE_SIZE (st\<lparr>page_bitset := b'\<rparr>) in
      s\<lparr>resident_memory := (resident_memory s)(p := resident_memory s p + PAGE_SIZE)\<rparr>)"
    have u: "frames_used st' = insert (unat i) (frames_used st)"
      using * c by (auto simp: st'_def Let_def bs_set_def frames_used_iff bs_count_def)
    have n: "unat i \<notin> frames_used st" using * by (simp add: frames_used_iff)
    have "unaccounted st' = unaccounted st"
      using n finite_frames [OF assms] u
      by (simp add: unaccounted_def algebra_simps) (simp add: st'_def Let_def add_allocated_def)
    moreover have "try_get_next_phys_page p st = Some (i * PAGE_SIZE, st')"
      using * by (simp add: try_get_next_phys_page_def st'_def Let_def)
    moreover have "\<forall>k < unat i. k \<in> frames_used st"
      using * by (auto simp: frames_used_iff)
    moreover have "pf_sized st'" using * c by (simp add: st'_def Let_def)
    moreover have "resident_memory st' = (resident_memory st)(p := resident_memory st p + PAGE_SIZE)"
      by (simp add: st'_def Let_def add_allocated_def)
    ultimately show ?thesis using u n * c by auto
  next
    assume "bitset_find_first_free_bit (page_bitset st) 0 = Some (- 1, 0)"
      "\<forall>k < bs_count (page_bitset st). bs_bit (page_bitset st) k"
    then show ?thesis using c by (auto simp: try_get_next_phys_page_def frames_used_iff)
  qed
qed

lemma get_contiguous_spec:
  assumes "pf_sized st" "n \<noteq> 0"
  shows "(\<exists>i st'. get_contiguous_pages n st = Some (i * PAGE_SIZE, st') \<and> unat i + unat n \<le> 2 ^ 20 \<and>
      {unat i..<unat i + unat n} \<inter> frames_used st = {} \<and> pf_sized st' \<and>
      frames_used st' = frames_used st \<union> {unat i..<unat i + unat n} \<and>
      unaccounted st' = unaccounted st) \<or>
    get_contiguous_pages n st = Some (0, st) \<and>
      (\<forall>j. j + unat n \<le> 2 ^ 20 \<longrightarrow> {j..<j + unat n} \<inter> frames_used st \<noteq> {})"
proof -
  from assms have w: "bs_whole (page_bitset st)" and c: "bs_count (page_bitset st) = 2 ^ 20"
    by (simp_all add: pf_sized_def)
  from bss.take_run [OF w assms(2), of 0] show ?thesis
  proof (elim disjE exE conjE)
    fix i b'
    assume *: "bitset_find_first_free_bit_sequence (page_bitset st) n 0 = Some (0, i)"
      "bitset_set_bit_sequence (page_bitset st) i n = Some b'" "bs_whole b'"
      "bs_count b' = bs_count (page_bitset st)" "unat i + unat n \<le> bs_count (page_bitset st)"
      "\<forall>k \<in> {unat i..<unat i + unat n}. \<not> bs_bit (page_bitset st) k"
      "\<forall>k < bs_count (page_bitset st). bs_bit b' k \<longleftrightarrow>
         k \<in> {unat i..<unat i + unat n} \<or> bs_bit (page_bitset st) k"
    define st' where "st' = add_allocated (n * PAGE_SIZE) (st\<lparr>page_bitset := b'\<rparr>)"
    have u: "frames_used st' = frames_used st \<union> {unat i..<unat i + unat n}"
      using * c by (auto simp: st'_def bs_set_def frames_used_iff bs_count_def)
    have d: "{unat i..<unat i + unat n} \<inter> frames_used st = {}" using * by (auto simp: frames_used_iff)
    have "card (frames_used st') = card (frames_used st) + unat n"
    proof -
      have "{unat i..<unat i + unat n} \<subseteq> {..<2 ^ 20}" using *(5) c by (auto simp del: power_numeral)
      from card_used_add [OF assms(1) this d] show ?thesis by (simp add: u)
    qed
    then have "unaccounted st' = unaccounted st"
      by (simp add: unaccounted_def algebra_simps) (simp add: st'_def add_allocated_def)
    moreover have "get_contiguous_pages n st = Some (i * PAGE_SIZE, st')"
      using * by (simp add: get_contiguous_pages_def st'_def)
    ultimately show ?thesis using u d * c by (auto simp: st'_def)
  next
    assume "bitset_find_first_free_bit_sequence (page_bitset st) n 0 = Some (- 1, 0)"
      "\<forall>j. j + unat n \<le> bs_count (page_bitset st) \<longrightarrow>
         (\<exists>k \<in> {j..<j + unat n}. bs_bit (page_bitset st) k)"
    then show ?thesis using c by (fastforce simp: get_contiguous_pages_def frames_used_iff)
  qed
qed

lemma free_spec:
  assumes "pf_sized st" "unat a div 4096 \<in> frames_used st"
  shows "\<exists>st'. free_phys_page a p st = Some st' \<and> pf_sized st' \<and>
    frames_used st' = frames_used st - {unat a div 4096} \<and> unaccounted st' = unaccounted st"
proof -
  from assms have w: "bs_whole (page_bitset st)" and c: "bs_count (page_bitset st) = 2 ^ 20"
    by (simp_all add: pf_sized_def)
  have k: "unat (a div PAGE_SIZE) = unat a div 4096" by (simp add: unat_div)
  then have "unat (a div PAGE_SIZE) < bs_count (page_bitset st)"
    using assms(2) by (simp add: frames_used_iff)
  from bss.unmark_law [OF w this] obtain b' where b: "bitset_clear_bit (page_bitset st) (a div PAGE_SIZE) = Some b'"
    "bs_whole b'" "bs_count b' = bs_count (page_bitset st)"
    "\<forall>j < bs_count (page_bitset st). bs_bit b' j \<longleftrightarrow> j \<noteq> unat a div 4096 \<and> bs_bit (page_bitset st) j"
    unfolding k by blast
  obtain st' where st': "free_phys_page a p st = Some st'" "page_bitset st' = b'"
    "phys_memory_allocated (g_phys_page_stats st') = phys_memory_allocated (g_phys_page_stats st) - PAGE_SIZE"
    using b(1) by (simp add: free_phys_page_def add_allocated_def Let_def split: option.splits)
  have u: "frames_used st' = frames_used st - {unat a div 4096}"
    using b st'(2) by (auto simp: frames_used_iff)
  have "card (frames_used st) = Suc (card (frames_used st'))"
    using card_Suc_Diff1 [OF finite_frames [OF assms(1)] assms(2)] by (simp add: u)
  then have "unaccounted st' = unaccounted st" using st'(3) by (simp add: unaccounted_def algebra_simps)
  then show ?thesis using st' u b c by (auto simp: pf_sized_def)
qed

section \<open>Interface: an allocator of frames\<close>

text \<open>
  What the users of physical memory rely on. \<open>taken\<close> are the frames that are not free, \<open>rest\<close> is the
  part of the accounting that requests leave alone; \<open>get\<close>, \<open>get_run\<close> and \<open>release\<close> give the frame
  number (or none) and the new state.
\<close>

locale frame_allocator =
  fixes inv :: "'s \<Rightarrow> bool"
    and taken :: "'s \<Rightarrow> nat set"
    and rest :: "'s \<Rightarrow> u64"
    and get :: "process \<Rightarrow> 's \<Rightarrow> (nat \<times> 's) option"
    and get_run :: "u64 \<Rightarrow> 's \<Rightarrow> (nat option \<times> 's) option"
    and release :: "nat \<Rightarrow> process option \<Rightarrow> 's \<Rightarrow> 's option"
  assumes get_law: "inv s \<Longrightarrow>
      (\<exists>f s'. get p s = Some (f, s') \<and> inv s' \<and> f \<notin> taken s \<and> taken s' = insert f (taken s) \<and>
        rest s' = rest s) \<or> get p s = None"
    and run_law: "inv s \<Longrightarrow> n \<noteq> 0 \<Longrightarrow>
      (\<exists>f s'. get_run n s = Some (Some f, s') \<and> inv s' \<and> {f..<f + unat n} \<inter> taken s = {} \<and>
        taken s' = taken s \<union> {f..<f + unat n} \<and> rest s' = rest s) \<or> get_run n s = Some (None, s)"
    and release_law: "inv s \<Longrightarrow> f \<in> taken s \<Longrightarrow> f \<noteq> 0 \<Longrightarrow>
      \<exists>s'. release f q s = Some s' \<and> inv s' \<and> taken s' = taken s - {f} \<and> rest s' = rest s"
    and zero_taken: "inv s \<Longrightarrow> 0 \<in> taken s"

datatype frame_op = Get_Page process | Get_Run u64 | Free_Page nat "process option"

text \<open>
  A sequence of requests, with the set of frames the clients own. A client frees only frames it
  owns. A request that does not return ends the sequence.
\<close>

fun frame_step ::
  "(process \<Rightarrow> 's \<Rightarrow> (nat \<times> 's) option) \<Rightarrow> (u64 \<Rightarrow> 's \<Rightarrow> (nat option \<times> 's) option) \<Rightarrow>
   (nat \<Rightarrow> process option \<Rightarrow> 's \<Rightarrow> 's option) \<Rightarrow> frame_op \<Rightarrow> 's \<times> nat set \<Rightarrow> ('s \<times> nat set) option" where
  "frame_step get run rel (Get_Page p) (s, own) =
     do { (f, s) \<leftarrow> get p s; Some (s, insert f own) }"
| "frame_step get run rel (Get_Run n) (s, own) =
     do { (r, s) \<leftarrow> run n s;
          Some (s, case r of Some f \<Rightarrow> own \<union> {f..<f + unat n} | None \<Rightarrow> own) }"
| "frame_step get run rel (Free_Page f p) (s, own) =
     (if f \<in> own then do { s \<leftarrow> rel f p s; Some (s, own - {f}) } else Some (s, own))"

text \<open>The taken frames are the reserved ones and the clients', which are apart.\<close>

definition owns ::
  "('s \<Rightarrow> bool) \<Rightarrow> ('s \<Rightarrow> nat set) \<Rightarrow> ('s \<Rightarrow> u64) \<Rightarrow> nat set \<Rightarrow> u64 \<Rightarrow> 's \<times> nat set \<Rightarrow> bool" where
  "owns ok taken rest res r x \<longleftrightarrow>
     ok (fst x) \<and> rest (fst x) = r \<and> taken (fst x) = res \<union> snd x \<and> res \<inter> snd x = {}"

context frame_allocator
begin

lemma owns_step:
  assumes "owns inv taken rest res r x" "op \<noteq> Get_Run 0" "0 \<in> res" "frame_step get get_run release op x = Some y"
  shows "owns inv taken rest res r y"
proof (cases op)
  case (Get_Page p)
  then show ?thesis
    using assms get_law [of "fst x" p] by (cases x) (auto simp: owns_def split: bind_splits)
next
  case (Get_Run n)
  then show ?thesis
    using assms run_law [of "fst x" n] by (cases x) (fastforce simp: owns_def split: bind_splits)
next
  case (Free_Page f p)
  show ?thesis
  proof (cases "f \<in> snd x")
    case True
    then have "f \<in> taken (fst x)" "f \<noteq> 0" "inv (fst x)" using assms by (auto simp: owns_def)
    from release_law [OF this(3,1,2), of p] show ?thesis
      using True assms Free_Page by (cases x) (auto simp: owns_def split: bind_splits)
  qed (use assms Free_Page in \<open>cases x; simp\<close>)
qed

lemma owns_run:
  assumes "inv s" "Get_Run 0 \<notin> set ops"
    and "fold_opt (frame_step get get_run release) ops (s, {}) = Some y"
  shows "owns inv taken rest (taken s) (rest s) y"
  using assms(3)
proof (rule fold_opt_inv)
  show "owns inv taken rest (taken s) (rest s) (s, {})" using assms(1) by (simp add: owns_def)
next
  fix x s1 s2
  assume "x \<in> set ops" "owns inv taken rest (taken s) (rest s) s1" "frame_step get get_run release x s1 = Some s2"
  then show "owns inv taken rest (taken s) (rest s) s2"
    using owns_step zero_taken [OF assms(1)] assms(2) by metis
qed

end

text \<open>
  The kernel's allocator in these terms, by frame numbers instead of addresses. The block cache has
  nothing to give back here; \<open>block_trim_cache\<close> is then without effect.
\<close>

definition frame_of :: "u64 \<Rightarrow> nat" where
  "frame_of a = unat a div 4096"

definition pf_get :: "process \<Rightarrow> 'a pf_state_scheme \<Rightarrow> (nat \<times> 'a pf_state_scheme) option" where
  "pf_get p st = do { (a, st) \<leftarrow> get_next_phys_page Some p st; Some (frame_of a, st) }"

definition pf_get_run :: "u64 \<Rightarrow> 'a pf_state_scheme \<Rightarrow> (nat option \<times> 'a pf_state_scheme) option" where
  "pf_get_run n st = do { (a, st) \<leftarrow> get_contiguous_pages n st;
     Some (if a = 0 then None else Some (frame_of a), st) }"

definition pf_release :: "nat \<Rightarrow> process option \<Rightarrow> 'a pf_state_scheme \<Rightarrow> 'a pf_state_scheme option" where
  "pf_release f p st = free_phys_page (of_nat f * PAGE_SIZE) p st"

text \<open>When the first try finds a free frame the request is served without trimming the cache.\<close>

lemma get_next_first_try:
  assumes "pf_inv st" "frames_used st \<noteq> {..<2 ^ 20}"
  shows "\<exists>i st'. get_next_phys_page trim p st = Some (i * PAGE_SIZE, st') \<and> i * PAGE_SIZE \<noteq> 0 \<and>
    unat i < 2 ^ 20 \<and> unat i \<notin> frames_used st \<and> (\<forall>k < unat i. k \<in> frames_used st) \<and> pf_inv st' \<and>
    frames_used st' = insert (unat i) (frames_used st) \<and> unaccounted st' = unaccounted st"
proof -
  obtain i st' where i: "try_get_next_phys_page p st = Some (i * PAGE_SIZE, st')" "unat i < 2 ^ 20"
      "unat i \<notin> frames_used st" "\<forall>k < unat i. k \<in> frames_used st" "pf_sized st'"
      "frames_used st' = insert (unat i) (frames_used st)" "unaccounted st' = unaccounted st"
    using try_get_spec [of st p] assms by (auto simp: pf_inv_def)
  have "unat i \<noteq> 0" using i(3) assms(1) unfolding pf_inv_def by metis
  then have "unat (i * PAGE_SIZE) \<noteq> 0" using frame_address [OF i(2)] by simp
  then have "i * PAGE_SIZE \<noteq> 0" by (metis unat_0)
  then show ?thesis using i assms(1) by (auto simp: get_next_phys_page_def pf_inv_def)
qed

lemma get_next_full:
  assumes "pf_inv st" "frames_used st = {..<2 ^ 20}"
  shows "try_get_next_phys_page p st = Some (0, st)"
  using try_get_spec [of st p] assms by (auto simp: pf_inv_def)

interpretation pfa: frame_allocator pf_inv frames_used unaccounted pf_get pf_get_run pf_release
proof unfold_locales
  fix s :: "'a pf_state_scheme" and p
  assume inv: "pf_inv s"
  show "(\<exists>f s'. pf_get p s = Some (f, s') \<and> pf_inv s' \<and> f \<notin> frames_used s \<and>
      frames_used s' = insert f (frames_used s) \<and> unaccounted s' = unaccounted s) \<or> pf_get p s = None"
  proof (cases "frames_used s = {..<2 ^ 20}")
    case True
    from get_next_full [OF inv True] show ?thesis
      by (simp add: pf_get_def get_next_phys_page_def)
  next
    case False
    from get_next_first_try [OF inv this, of Some p] show ?thesis
      by (auto simp: pf_get_def frame_of_def frame_address)
  qed
next
  fix s :: "'a pf_state_scheme" and n :: u64
  assume inv: "pf_inv s" and n: "n \<noteq> 0"
  then have z: "0 \<in> frames_used s" "pf_sized s" by (simp_all add: pf_inv_def)
  from get_contiguous_spec [OF z(2) n]
  show "(\<exists>f s'. pf_get_run n s = Some (Some f, s') \<and> pf_inv s' \<and> {f..<f + unat n} \<inter> frames_used s = {} \<and>
      frames_used s' = frames_used s \<union> {f..<f + unat n} \<and> unaccounted s' = unaccounted s) \<or>
    pf_get_run n s = Some (None, s)"
  proof (elim disjE exE conjE)
    fix i s'
    assume *: "get_contiguous_pages n s = Some (i * PAGE_SIZE, s')" "unat i + unat n \<le> 2 ^ 20"
      "{unat i..<unat i + unat n} \<inter> frames_used s = {}" "pf_sized s'"
      "frames_used s' = frames_used s \<union> {unat i..<unat i + unat n}" "unaccounted s' = unaccounted s"
    have "0 < unat n" using n by (simp add: unat_gt_0)
    then have i: "unat i < 2 ^ 20" "unat i \<noteq> 0" using * z by auto
    then have "unat (i * PAGE_SIZE) \<noteq> 0" using frame_address [OF i(1)] by simp
    then have "i * PAGE_SIZE \<noteq> 0" by (metis unat_0)
    then show ?thesis using * z frame_address [OF i(1)]
      by (auto simp: pf_get_run_def frame_of_def pf_inv_def)
  qed (simp add: pf_get_run_def)
next
  fix s :: "'a pf_state_scheme" and f p
  assume inv: "pf_inv s" and f: "f \<in> frames_used s" "f \<noteq> 0"
  then have "f < 2 ^ 20" using frames_bound by (auto simp: pf_inv_def)
  then have "unat (of_nat f * PAGE_SIZE) div 4096 = f"
    using frame_address [of "of_nat f"] by simp
  then show "\<exists>s'. pf_release f p s = Some s' \<and> pf_inv s' \<and> frames_used s' = frames_used s - {f} \<and>
      unaccounted s' = unaccounted s"
    using free_spec [of s "of_nat f * PAGE_SIZE" p] inv f by (auto simp: pf_release_def pf_inv_def)
qed (simp add: pf_inv_def)

section \<open>Start-up\<close>

lemma unat_page_trunc: "unat (page_trunc x) = unat x div 4096 * 4096"
proof -
  have "page_trunc x = push_bit 12 (drop_bit 12 x)"
    by (rule bit_word_eqI)
      (auto simp: page_trunc_def bit_simps simp flip: mask_eq_exp_minus_1 [of 12, where 'a = "64 word", simplified])
  also have "unat \<dots> = unat x div 4096 * 4096"
  proof -
    have "unat x div 4096 * 4096 \<le> unat x" by simp
    then have "unat x div 4096 * 4096 < 2 ^ 64" using u64_bound [of x] by simp
    then show ?thesis
      using unat_mult_u64 [of "x div PAGE_SIZE" PAGE_SIZE]
      by (simp add: push_bit_eq_mult drop_bit_eq_div unat_div)
  qed
  finally show ?thesis .
qed

text \<open>The number of frames an address range touches, for ranges below the last page.\<close>

lemma unat_NUM_PAGES:
  assumes "unat a \<le> unat e" "unat e \<le> 2 ^ 64 - 8192"
  shows "unat (NUM_PAGES a e) = (unat e + 4095) div 4096 - unat a div 4096"
proof -
  have le: "unat (page_trunc a) \<le> unat (page_trunc e)"
    using assms(1) by (simp add: unat_page_trunc div_le_mono)
  have d: "unat (page_trunc e - page_trunc a) = (unat e div 4096 - unat a div 4096) * 4096"
    using unat_sub_u64 [OF le] by (simp add: unat_page_trunc diff_mult_distrib)
  have m: "e mod PAGE_SIZE \<noteq> 0 \<longleftrightarrow> unat e mod 4096 \<noteq> 0"
    by (simp add: u64_eq_iff unat_mod)
  let ?x = "if e mod PAGE_SIZE \<noteq> 0 then PAGE_SIZE else 0"
  have x: "unat ?x = (if unat e mod 4096 \<noteq> 0 then 4096 else 0)" using m by simp
  have "(unat e div 4096 - unat a div 4096) * 4096 \<le> unat e" by (simp add: algebra_simps le_diff_conv)
  then have "unat (page_trunc e - page_trunc a) + unat ?x < 2 ^ 64"
    using assms(2) d x by (simp split: if_splits)
  then have "unat (page_trunc e - page_trunc a + ?x) =
      (unat e div 4096 - unat a div 4096) * 4096 + unat ?x"
    using unat_add_u64 d by simp
  then have "unat (NUM_PAGES a e) = ((unat e div 4096 - unat a div 4096) * 4096 + unat ?x) div 4096"
    by (simp add: NUM_PAGES_def unat_div del: add_diff_cancel)
  also have "\<dots> = unat e div 4096 - unat a div 4096 + (if unat e mod 4096 \<noteq> 0 then 1 else 0)"
    unfolding x by simp
  also have "\<dots> = (unat e + 4095) div 4096 - unat a div 4096"
  proof -
    have "(n + 4095) div 4096 = n div 4096 + (if n mod 4096 \<noteq> 0 then 1 else 0)" for n :: nat
    proof -
      have "(q * 4096 + r + 4095) div 4096 = q + (if r \<noteq> 0 then 1 else 0)" if "r < 4096" for q r :: nat
        using that by (auto intro!: div_nat_eqI)
      from this [of "n mod 4096" "n div 4096"] show ?thesis by simp
    qed
    then show ?thesis using div_le_mono [OF assms(1), of 4096] by simp
  qed
  finally show ?thesis .
qed

definition region_frames :: "u64 \<Rightarrow> u64 \<Rightarrow> nat set" where
  "region_frames a len = {unat a div 4096..<(unat a + unat len + 4095) div 4096}"

lemma region_num_pages:
  assumes "unat (a :: u64) + unat len \<le> 2 ^ 64 - 8192"
  shows "unat (a div PAGE_SIZE) + unat (NUM_PAGES a (a + len)) =
      max (unat a div 4096) ((unat a + unat len + 4095) div 4096) \<and>
    region_frames a len =
      {unat (a div PAGE_SIZE)..<unat (a div PAGE_SIZE) + unat (NUM_PAGES a (a + len))}"
proof -
  have e: "unat (a + len) = unat a + unat len" using assms by (simp add: unat_add_u64)
  have "unat a div 4096 \<le> (unat a + unat len + 4095) div 4096" by (intro div_le_mono) simp
  then show ?thesis
    using unat_NUM_PAGES [of a "a + len"] assms by (simp add: e unat_div region_frames_def)
qed

lemma marking:
  assumes "pf_sized st" "unat a + unat len \<le> 2 ^ 32"
  shows "\<exists>st'. mark_used a len st = Some st' \<and> pf_sized st' \<and>
      frames_used st' = frames_used st \<union> region_frames a len"
    and "\<exists>st'. mark_available a len st = Some st' \<and> pf_sized st' \<and>
      frames_used st' = frames_used st - region_frames a len"
proof -
  let ?i = "a div PAGE_SIZE" and ?n = "NUM_PAGES a (a + len)"
  from assms have w: "bs_whole (page_bitset st)" and c: "bs_count (page_bitset st) = 2 ^ 20"
    by (simp_all add: pf_sized_def)
  have r: "unat ?i + unat ?n = max (unat a div 4096) ((unat a + unat len + 4095) div 4096)"
    "region_frames a len = {unat ?i..<unat ?i + unat ?n}"
    using region_num_pages [of a len] assms(2) by simp_all
  have "(unat a + unat len + 4095) div 4096 \<le> 2 ^ 20" "unat a div 4096 \<le> 2 ^ 20"
    using assms(2) by auto
  then have fit: "unat ?i + unat ?n \<le> bs_count (page_bitset st)" unfolding r(1) c by simp
  have sub: "region_frames a len \<subseteq> {..<2 ^ 20}" using fit unfolding r(2) c by auto
  have eq: "bs_set b = {k \<in> {..<2 ^ 20}. bs_bit b k}" if "bs_count b = 2 ^ 20" for b
    using that by (auto simp: bs_set_def bs_count_def)
  from bss.mark_range_law [OF w fit] obtain b where b:
    "bitset_set_bit_sequence (page_bitset st) ?i ?n = Some b" "bs_whole b" "bs_count b = 2 ^ 20"
    "\<forall>k < 2 ^ 20. bs_bit b k \<longleftrightarrow> k \<in> region_frames a len \<or> bs_bit (page_bitset st) k"
    unfolding r(2) c by blast
  have "bs_set b = frames_used st \<union> region_frames a len"
    using b(4) sub unfolding frames_used_def eq [OF c] eq [OF b(3)] by blast
  then show "\<exists>st'. mark_used a len st = Some st' \<and> pf_sized st' \<and>
      frames_used st' = frames_used st \<union> region_frames a len"
    using b(1-3) by (simp add: mark_used_def)
  from bss.unmark_range_law [OF w fit] obtain b where b:
    "bitset_clear_bit_sequence (page_bitset st) ?i ?n = Some b" "bs_whole b" "bs_count b = 2 ^ 20"
    "\<forall>k < 2 ^ 20. bs_bit b k \<longleftrightarrow> k \<notin> region_frames a len \<and> bs_bit (page_bitset st) k"
    unfolding r(2) c by blast
  have "bs_set b = frames_used st - region_frames a len"
    using b(4) sub unfolding frames_used_def eq [OF c] eq [OF b(3)] by blast
  then show "\<exists>st'. mark_available a len st = Some st' \<and> pf_sized st' \<and>
      frames_used st' = frames_used st - region_frames a len"
    using b(1-3) by (simp add: mark_available_def)
qed

lemma clear_sequence_past_end:
  assumes "bs_whole bs" "bs_count bs = n" "unat (a + len) > n" "unat a < unat (a + len)"
  shows "bitset_clear_bit_sequence bs a len = None"
  unfolding bitset_clear_bit_sequence_def for_u64_fold
proof (rule fold_opt_fails [where P = "\<lambda>b. bs_whole b \<and> bs_count b = n" and y = "max n (unat a)"])
  show "max n (unat a) \<in> set [unat a..<unat (a + len)]" using assms by auto
next
  fix b :: bitset
  assume b: "bs_whole b \<and> bs_count b = n"
  have "max n (unat a) < 2 ^ 64" using assms(3,4) u64_bound [of "a + len"] by simp
  then show "bitset_clear_bit b (of_nat (max n (unat a))) = None"
    using bit_out_of_range(3) [of b] b by simp
next
  fix k and b b' :: bitset
  assume "bs_whole b \<and> bs_count b = n" "bitset_clear_bit b (of_nat k) = Some b'"
  then show "bs_whole b' \<and> bs_count b' = n"
    using bss.unmark_law [of b "of_nat k"] bit_out_of_range(3) [of b "of_nat k"] by force
qed (use assms in simp)

lemma clear_sequence_sized:
  assumes "bs_whole bs" "bitset_clear_bit_sequence bs a len = Some bs'"
  shows "bs_whole bs' \<and> bs_count bs' = bs_count bs"
  using assms(2) unfolding bitset_clear_bit_sequence_def for_u64_fold
proof (rule fold_opt_inv)
  fix k and b b' :: bitset
  assume "bs_whole b \<and> bs_count b = bs_count bs" "bitset_clear_bit b (of_nat k) = Some b'"
  then show "bs_whole b' \<and> bs_count b' = bs_count bs"
    using bss.unmark_law [of b "of_nat k"] bit_out_of_range(3) [of b "of_nat k"] by force
qed (use assms in simp)

lemma process_entry_sized:
  assumes "pf_sized st" "process_entry e st = Some st'"
  shows "pf_sized st'"
proof -
  have mark: "pf_sized s'" if "pf_sized s" "mark_available a len s = Some s'"
    for a len and s s' :: "'a pf_state_scheme"
    using that clear_sequence_sized by (auto simp: mark_available_def pf_sized_def split: bind_splits)
  show ?thesis
    using assms
    by (auto simp: process_entry_def process_memory_map_region_def Let_def
        split: if_splits bind_splits dest: mark [rotated])
qed

definition available_frames :: "memory_map_entry \<Rightarrow> nat set" where
  "available_frames e = (if entry_type e = MULTIBOOT2_MEMORY_MAP_AVAILABLE
     then region_frames (page_trunc (base_address e)) (entry_length e) else {})"

definition entry_fits :: "memory_map_entry \<Rightarrow> bool" where
  "entry_fits e \<longleftrightarrow> entry_type e = MULTIBOOT2_MEMORY_MAP_AVAILABLE \<longrightarrow>
     unat (page_trunc (base_address e)) + unat (entry_length e) \<le> 2 ^ 32"

lemma process_entry_frames:
  assumes "pf_sized st" "entry_fits e"
  shows "\<exists>st'. process_entry e st = Some st' \<and> pf_sized st' \<and>
    frames_used st' = frames_used st - available_frames e"
proof (cases "entry_type e = MULTIBOOT2_MEMORY_MAP_AVAILABLE")
  case True
  let ?a = "page_trunc (base_address e)"
  have fit: "unat ?a + unat (entry_length e) \<le> 2 ^ 32" using assms(2) True by (simp add: entry_fits_def)
  define st1 where "st1 = (if base_address e < 0x100000
    then add_allocated (ALIGN_UP (min (ALIGN_UP (?a + entry_length e) PAGE_SIZE) 0x100000 - ?a) PAGE_SIZE) st
    else st)"
  have "pf_sized st1" "frames_used st1 = frames_used st" using assms(1) by (simp_all add: st1_def)
  with marking(2) [OF _ fit, of st1] show ?thesis
    unfolding process_entry_def process_memory_map_region_def available_frames_def Let_def
      if_P [OF True] st1_def [symmetric]
    by auto
next
  case False
  then show ?thesis
    using assms(1) by (simp add: process_entry_def process_memory_map_region_def available_frames_def)
qed

lemma process_entries_frames:
  assumes "pf_sized st" "list_all entry_fits es"
  shows "\<exists>st'. fold_opt process_entry es st = Some st' \<and> pf_sized st' \<and>
    frames_used st' = frames_used st - \<Union> (available_frames ` set es)"
  using assms
proof (induction es arbitrary: st)
  case (Cons e es)
  from process_entry_frames [OF Cons.prems(1), of e] Cons.prems(2) obtain st1
    where "process_entry e st = Some st1" "pf_sized st1" "frames_used st1 = frames_used st - available_frames e"
    by auto
  then show ?case using Cons.IH [of st1] Cons.prems(2) by auto
qed simp

text \<open>The entries the start-up code reads.\<close>

definition map_entries :: "boot_info \<Rightarrow> memory_map_entry list" where
  "map_entries bi = (case bi_type bi of BOOT_INFO_XEN \<Rightarrow> take (unat (memory_map_count bi)) (memory_map bi)
     | _ \<Rightarrow> memory_map bi)"

lemma xen_map_entries:
  assumes "n \<le> length es"
  shows "fold_opt (\<lambda>i st. do { entry \<leftarrow> cell_get es i; process_entry entry st }) [0..<n] st =
    fold_opt process_entry (take n es) st"
  using assms
proof (induction n)
  case (Suc n)
  then show ?case by (simp add: fold_opt_append take_Suc_conv_app_nth cell_get_def bind_runit)
qed simp

lemma initial_bits:
  "\<exists>bs. init_bitset (replicate (unat (PAGE_BITMAP_SIZE div 8)) (-1)) PAGE_BITMAP_SIZE (PAGE_BITMAP_SIZE * 8) = Some bs \<and>
     bs_whole bs \<and> bs_count bs = 2 ^ 20 \<and> bs_set bs = {..<2 ^ 20}"
proof -
  have "i div 64 < 16384" if "i < 1048576" for i :: nat using that by simp
  then show ?thesis
    by (auto simp: init_bitset_def bs_whole_def bs_wf_def bs_count_def bs_words_def bs_set_def bs_bit_def)
qed

lemma read_memory_map:
  assumes "bi_type bi \<noteq> BOOT_INFO_OTHER" "unat (memory_map_count bi) \<le> length (memory_map bi)"
  shows "(case bi_type bi of BOOT_INFO_MULTIBOOT2 \<Rightarrow> init_from_multiboot2_map bi st
      | BOOT_INFO_XEN \<Rightarrow> init_from_xen_map bi st | BOOT_INFO_OTHER \<Rightarrow> None) =
    fold_opt process_entry (map_entries bi) st"
  using assms xen_map_entries [of "unat (memory_map_count bi)" "memory_map bi" st]
  by (simp add: init_from_multiboot2_map_def init_from_xen_map_def map_entries_def
      split: boot_info_type.splits)

section \<open>Properties\<close>


definition boot_example :: boot_info where
  "boot_example = \<lparr>bi_type = BOOT_INFO_MULTIBOOT2, initrd_phys_start = 0x200000, initrd_phys_end = 0x201800,
     memory_map = [\<lparr>base_address = 0, entry_length = 0x9FC00, entry_type = 1\<rparr>,
                   \<lparr>base_address = 0x100000, entry_length = 0x7EE0000, entry_type = 1\<rparr>,
                   \<lparr>base_address = 0xFFFC0000, entry_length = 0x40000, entry_type = 2\<rparr>],
     memory_map_count = 3\<rparr>"

definition blank_state :: pf_state where
  "blank_state = \<lparr>page_bitset = \<lparr>bs_data = None, bs_data_bytes = 0, bs_bit_count = 0, bs_owned = False\<rparr>,
     g_phys_page_stats = \<lparr>phys_memory_allocated = 0, phys_memory_total = 0, phys_memory_max = 0\<rparr>,
     resident_memory = (\<lambda>_. 0)\<rparr>"

lemma boot_example_ok:
  "bi_type boot_example \<noteq> BOOT_INFO_OTHER"
  "unat (memory_map_count boot_example) \<le> length (memory_map boot_example)"
  "list_all entry_fits (map_entries boot_example)"
  "unat (0x100000 :: u64) + unat (0x180000 - 0x100000 :: u64) \<le> 2 ^ 32"
  "unat (initrd_phys_start boot_example) +
     unat (initrd_phys_end boot_example - initrd_phys_start boot_example) \<le> 2 ^ 32"
  by (simp_all add: boot_example_def map_entries_def entry_fits_def unat_page_trunc)


text \<open>C25 (memory_above_4g_panics). The bit set covers 2^20 frames. A memory map with an available entry
  that reaches beyond 4 GiB stops the start-up code in a failed assertion: the machine does not boot
  with the memory above the limit ignored.\<close>

theorem memory_above_4g_panics:
  assumes "bi_type bi \<noteq> BOOT_INFO_OTHER" "unat (memory_map_count bi) \<le> length (memory_map bi)"
    and "e \<in> set (map_entries bi)" "entry_type e = MULTIBOOT2_MEMORY_MAP_AVAILABLE" "entry_length e \<noteq> 0"
    and "unat (page_trunc (base_address e)) + unat (entry_length e) > 2 ^ 32"
    and "unat (page_trunc (base_address e)) + unat (entry_length e) \<le> 2 ^ 64 - 8192"
  shows "init_page_frame_allocator ks ke bi st = None"
proof -
  obtain bs where bs: "init_bitset (replicate (unat (PAGE_BITMAP_SIZE div 8)) (-1)) PAGE_BITMAP_SIZE
      (PAGE_BITMAP_SIZE * 8) = Some bs" "bs_whole bs" "bs_count bs = 2 ^ 20"
    using initial_bits by blast
  let ?a = "page_trunc (base_address e)"
  let ?i = "?a div PAGE_SIZE" and ?n = "NUM_PAGES ?a (?a + entry_length e)"
  have "unat ?i + unat ?n = max (unat ?a div 4096) ((unat ?a + unat (entry_length e) + 4095) div 4096)"
    using region_num_pages [OF assms(7)] by simp
  moreover have "(unat ?a + unat (entry_length e) + 4095) div 4096 > 2 ^ 20" using assms(6) by simp
  moreover have "unat ?i = unat ?a div 4096" by (simp add: unat_div)
  moreover have "unat ?a div 4096 < (unat ?a + unat (entry_length e) + 4095) div 4096"
  proof -
    have "unat ?a div 4096 + 1 = (unat ?a + 4096) div 4096" by simp
    also have "\<dots> \<le> (unat ?a + unat (entry_length e) + 4095) div 4096"
      using assms(5) by (intro div_le_mono) (simp add: u64_neq_0)
    finally show ?thesis by simp
  qed
  moreover have "unat ?i + unat ?n < 2 ^ 64" using calculation assms(7) by (simp add: max_def)
  ultimately have "unat (?i + ?n) > 2 ^ 20" "unat ?i < unat (?i + ?n)"
    using unat_add_u64 [of ?i ?n] by (simp_all add: max_def split: if_splits)
  then have "process_entry e s = None" if "pf_sized s" for s :: "'a pf_state_scheme"
    using clear_sequence_past_end [of "page_bitset s" "2 ^ 20" ?i ?n] that assms(4)
    by (simp add: process_entry_def process_memory_map_region_def mark_available_def Let_def
        pf_sized_def add_allocated_def)
  then have "fold_opt process_entry (map_entries bi) (st\<lparr>page_bitset := bs\<rparr>) = None"
    using fold_opt_fails [of pf_sized "st\<lparr>page_bitset := bs\<rparr>" e "map_entries bi" process_entry]
      bs process_entry_sized assms(3) by force
  then show ?thesis
    unfolding init_page_frame_allocator_def Let_def bs(1) Option.bind.bind_lunit
      read_memory_map [OF assms(1,2)] by simp
qed

definition big_machine :: boot_info where
  "big_machine = boot_example\<lparr>memory_map := memory_map boot_example @
     [\<lparr>base_address = 0x100000000, entry_length = 0x1000, entry_type = 1\<rparr>], memory_map_count := 4\<rparr>"

lemma memory_above_4g_panics_witness:
  "init_page_frame_allocator 0x100000 0x180000 big_machine blank_state = None"
  using memory_above_4g_panics
    [of big_machine "\<lparr>base_address = 0x100000000, entry_length = 0x1000, entry_type = 1\<rparr>"
      "0x100000" "0x180000" blank_state]
  by (simp add: big_machine_def boot_example_def map_entries_def unat_page_trunc)

text \<open>C23 (get_next_phys_page_lowest). A request for a frame is served with the lowest free frame, before
  or, if none is free, after the block cache gave frames back; the frame becomes used, its address
  is never 0, and nothing else changes. The kernel stops only if every frame is still used after the
  cache was trimmed.\<close>

theorem get_next_phys_page_lowest:
  assumes "pf_inv st" and "\<And>s. pf_inv s \<Longrightarrow> \<exists>s'. trim s = Some s' \<and> pf_inv s'"
  shows "case get_next_phys_page trim p st of
      Some (a, st') \<Rightarrow> \<exists>s f. (s = st \<or> frames_used st = {..<2 ^ 20} \<and> trim st = Some s) \<and>
        unat a = f * 4096 \<and> a \<noteq> 0 \<and> f \<notin> frames_used s \<and> (\<forall>k < f. k \<in> frames_used s) \<and>
        frames_used st' = insert f (frames_used s) \<and> pf_inv st' \<and> unaccounted st' = unaccounted s
    | None \<Rightarrow> frames_used st = {..<2 ^ 20} \<and> (\<forall>s. trim st = Some s \<longrightarrow> frames_used s = {..<2 ^ 20})"
proof (cases "frames_used st = {..<2 ^ 20}")
  case False
  from get_next_first_try [OF assms(1) this, of trim p] show ?thesis
    by (auto simp: frame_address)
next
  case True
  obtain s where s: "trim st = Some s" "pf_inv s" using assms by blast
  have "get_next_phys_page trim p st = get_next_phys_page (\<lambda>_. None) p s"
    using get_next_full [OF assms(1) True, of p] s
    by (simp add: get_next_phys_page_def case_prod_beta cong: if_cong)
  then have eq: "get_next_phys_page trim p st = get_next_phys_page (\<lambda>_. None) p s" .
  show ?thesis
  proof (cases "frames_used s = {..<2 ^ 20}")
    case full: True
    have "get_next_phys_page (\<lambda>_. None) p s = None"
      using get_next_full [OF s(2) full, of p] by (simp add: get_next_phys_page_def)
    then show ?thesis using eq True full s(1) by simp
  next
    case False
    from get_next_first_try [OF s(2) this, of "\<lambda>_. None" p] obtain i st' where
      "get_next_phys_page trim p st = Some (i * PAGE_SIZE, st')" "i * PAGE_SIZE \<noteq> 0" "unat i < 2 ^ 20"
      "unat i \<notin> frames_used s" "\<forall>k < unat i. k \<in> frames_used s" "pf_inv st'"
      "frames_used st' = insert (unat i) (frames_used s)" "unaccounted st' = unaccounted s"
      unfolding eq by blast
    then show ?thesis
      using True s(1) frame_address [of i]
      by (simp only: option.case prod.case) (intro exI [of _ s] exI [of _ "unat i"], simp)
  qed
qed

definition all_free_but_zero :: pf_state where
  "all_free_but_zero = blank_state\<lparr>page_bitset := \<lparr>bs_data = Some (1 # replicate 16383 0),
     bs_data_bytes = PAGE_BITMAP_SIZE, bs_bit_count = PAGE_BITMAP_SIZE * 8, bs_owned = False\<rparr>\<rparr>"

lemma all_free_but_zero_inv:
  "pf_inv all_free_but_zero" "frames_used all_free_but_zero = {0}" "frames_used all_free_but_zero \<noteq> {..<2 ^ 20}"
proof -
  have "bs_bit (page_bitset all_free_but_zero) i \<longleftrightarrow> i = 0" if "i < 1048576" for i
  proof (cases "i < 64")
    case False
    then have "0 < i div 64" "i div 64 < 16384" using that by (auto simp: div_greater_zero_iff)
    then show ?thesis
      using False by (auto simp: bs_bit_def all_free_but_zero_def nth_Cons')
  qed (auto simp: bs_bit_def all_free_but_zero_def bit_1_iff)
  moreover have "bs_count (page_bitset all_free_but_zero) = 1048576"
    by (simp add: all_free_but_zero_def bs_count_def)
  ultimately show u: "frames_used all_free_but_zero = {0}" by (auto simp: frames_used_iff)
  then show "pf_inv all_free_but_zero"
    by (simp add: pf_inv_def pf_sized_def bs_whole_def bs_wf_def bs_count_def bs_words_def
        all_free_but_zero_def)
  have "1 \<in> {..<2 ^ 20 :: nat}" "1 \<notin> frames_used all_free_but_zero" by (simp_all add: u)
  then show "frames_used all_free_but_zero \<noteq> {..<2 ^ 20}" by metis
qed

lemma get_next_phys_page_lowest_witness:
  "\<exists>st'. get_next_phys_page Some 7 all_free_but_zero = Some (4096, st') \<and> frames_used st' = {0, 1}"
proof -
  note all = all_free_but_zero_inv(3)
  note t = get_next_phys_page_lowest [OF all_free_but_zero_inv(1), of Some 7]
  show ?thesis
  proof (cases "get_next_phys_page Some 7 all_free_but_zero")
    case None
    with t all show ?thesis by auto
  next
    case (Some r)
    obtain a st' where "r = (a, st')" by (cases r)
    with t Some obtain f where f: "unat a = f * 4096" "f \<noteq> 0" "\<forall>k < f. k = 0" "frames_used st' = insert f {0}"
      by (auto simp: all_free_but_zero_inv(2))
    then have "f = 1" by (metis One_nat_def Suc_lessI neq0_conv zero_neq_one)
    with f have "a = 4096" "frames_used st' = {0, 1}" by (simp_all add: u64_eq_iff insert_commute)
    with Some \<open>r = (a, st')\<close> show ?thesis by auto
  qed
qed



end
