(* ===== verification/Vm_Region.thy ===== *)
theory Vm_Region
  imports Page_Frames
begin

text \<open>
  The lists of virtual memory regions, \<^verbatim>\<open>kernel/mem/vm_region.c\<close>, and the reference counted objects
  behind regions, \<^verbatim>\<open>kernel/mem/vm_object.c\<close>. A list of regions linked by \<open>next\<close> is the HOL list of the
  regions; \<open>region_id\<close> is the address of the \<open>struct vm_region\<close>, by which callers keep a pointer to
  it. The theory shows that the operations keep the lists ordered and the regions apart.
\<close>

section \<open>Model\<close>

abbreviation (input) VM_WRITE :: u64 where "VM_WRITE \<equiv> push_bit 1 1"
abbreviation (input) VM_USER :: u64 where "VM_USER \<equiv> push_bit 2 1"
abbreviation (input) VM_HUGE :: u64 where "VM_HUGE \<equiv> push_bit 7 1"
abbreviation (input) VM_GLOBAL :: u64 where "VM_GLOBAL \<equiv> push_bit 8 1"
abbreviation (input) VM_COW :: u64 where "VM_COW \<equiv> push_bit 9 1"
abbreviation (input) VM_PROT_NONE :: u64 where "VM_PROT_NONE \<equiv> push_bit 10 1"
abbreviation (input) VM_SHARED :: u64 where "VM_SHARED \<equiv> push_bit 11 1"
abbreviation (input) VM_STACK :: u64 where "VM_STACK \<equiv> push_bit 62 1"
abbreviation (input) VM_NO_EXEC :: u64 where "VM_NO_EXEC \<equiv> push_bit 63 1"

abbreviation (input) VM_KERNEL_PHYS_ID :: u64 where "VM_KERNEL_PHYS_ID \<equiv> 0"
abbreviation (input) VM_KERNEL_TEXT :: u64 where "VM_KERNEL_TEXT \<equiv> 1"
abbreviation (input) VM_KERNEL_ROD :: u64 where "VM_KERNEL_ROD \<equiv> 2"
abbreviation (input) VM_KERNEL_DATA :: u64 where "VM_KERNEL_DATA \<equiv> 3"
abbreviation (input) VM_INITRD :: u64 where "VM_INITRD \<equiv> 4"
abbreviation (input) VM_KERNEL_HEAP :: u64 where "VM_KERNEL_HEAP \<equiv> 5"
abbreviation (input) VM_KERNEL_ANON_MAPPING :: u64 where "VM_KERNEL_ANON_MAPPING \<equiv> 6"
abbreviation (input) VM_KERNEL_ID_MAPPING :: u64 where "VM_KERNEL_ID_MAPPING \<equiv> 7"
abbreviation (input) VM_KERNEL_PHYS_MAPPING :: u64 where "VM_KERNEL_PHYS_MAPPING \<equiv> 8"
abbreviation (input) VM_KERNEL_VM_MAPPING :: u64 where "VM_KERNEL_VM_MAPPING \<equiv> 9"
abbreviation (input) VM_KERNEL_DMA_MAPPING :: u64 where "VM_KERNEL_DMA_MAPPING \<equiv> 10"
abbreviation (input) VM_KERNEL_STACK :: u64 where "VM_KERNEL_STACK \<equiv> 11"
abbreviation (input) VM_PROCESS_TEXT :: u64 where "VM_PROCESS_TEXT \<equiv> 16"
abbreviation (input) VM_PROCESS_ROD :: u64 where "VM_PROCESS_ROD \<equiv> 17"
abbreviation (input) VM_PROCESS_DATA :: u64 where "VM_PROCESS_DATA \<equiv> 18"
abbreviation (input) VM_PROCESS_BSS :: u64 where "VM_PROCESS_BSS \<equiv> 19"
abbreviation (input) VM_PROCESS_HEAP :: u64 where "VM_PROCESS_HEAP \<equiv> 20"
abbreviation (input) VM_PROCESS_TLS_MASTER_COPY :: u64 where "VM_PROCESS_TLS_MASTER_COPY \<equiv> 21"
abbreviation (input) VM_TASK_STACK :: u64 where "VM_TASK_STACK \<equiv> 22"
abbreviation (input) VM_TASK_STACK_GUARD :: u64 where "VM_TASK_STACK_GUARD \<equiv> 23"
abbreviation (input) VM_PROCESS_FILE :: u64 where "VM_PROCESS_FILE \<equiv> 40"
abbreviation (input) VM_DEVICE_MEMORY_MAP_DONT_FREE_PHYS_PAGES :: u64 where
  "VM_DEVICE_MEMORY_MAP_DONT_FREE_PHYS_PAGES \<equiv> 41"
abbreviation (input) VM_PROCESS_ANON_MAPPING :: u64 where "VM_PROCESS_ANON_MAPPING \<equiv> 42"

record vm_region =
  region_id :: addr
  vr_start :: u64
  vr_end :: u64
  vr_flags :: u64
  vr_type :: u64
  vr_object :: "addr option"
  vr_object_offset :: u64

fun add_vm_region :: "vm_region list \<Rightarrow> vm_region \<Rightarrow> vm_region list" where
  "add_vm_region [] to_add = [to_add]"
| "add_vm_region (r # rs) to_add =
     (if vr_start r < vr_end to_add then r # add_vm_region rs to_add else to_add # r # rs)"

text \<open>A missing type makes the code read \<open>next\<close> of NULL.\<close>

fun remove_vm_region :: "vm_region list \<Rightarrow> u64 \<Rightarrow> vm_region list option" where
  "remove_vm_region [] type = None"
| "remove_vm_region (r # rs) type =
     (if vr_type r \<noteq> type then do { rs \<leftarrow> remove_vm_region rs type; Some (r # rs) } else Some rs)"

fun get_vm_region :: "vm_region list \<Rightarrow> u64 \<Rightarrow> vm_region option" where
  "get_vm_region [] type = None"
| "get_vm_region (r # rs) type = (if vr_type r \<noteq> type then get_vm_region rs type else Some r)"

text \<open>The resizing functions give the return code and the list.\<close>

fun extend_vm_region_end :: "vm_region list \<Rightarrow> u64 \<Rightarrow> u64 \<Rightarrow> int \<times> vm_region list" where
  "extend_vm_region_end [] type num_pages = (-1, [])"
| "extend_vm_region_end (r # rs) type num_pages =
     (if vr_type r \<noteq> type then
        (let (rc, rs') = extend_vm_region_end rs type num_pages in (rc, r # rs'))
      else
        (let new_end = vr_end r + num_pages * PAGE_SIZE in
         if rs \<noteq> [] \<and> new_end > vr_start (hd rs) then (-2, r # rs)
         else (0, r\<lparr>vr_end := new_end\<rparr> # rs)))"

fun extend_start_from :: "vm_region \<Rightarrow> vm_region list \<Rightarrow> u64 \<Rightarrow> u64 \<Rightarrow> int \<times> vm_region list" where
  "extend_start_from entry [] type num_pages = (-1, [])"
| "extend_start_from entry (r # rs) type num_pages =
     (if vr_type r \<noteq> type then
        (let (rc, rs') = extend_start_from r rs type num_pages in (rc, r # rs'))
      else
        (let new_start = vr_start r - num_pages * PAGE_SIZE in
         if vr_end entry > new_start then (-2, r # rs)
         else (0, r\<lparr>vr_start := new_start\<rparr> # rs)))"

definition extend_vm_region_start :: "vm_region list \<Rightarrow> u64 \<Rightarrow> u64 \<Rightarrow> int \<times> vm_region list" where
  "extend_vm_region_start list type num_pages =
     (case list of [] \<Rightarrow> (-1, [])
      | entry # rs \<Rightarrow>
          if vr_type entry = type
          then (0, entry\<lparr>vr_start := vr_start entry - num_pages * PAGE_SIZE\<rparr> # rs)
          else (let (rc, rs') = extend_start_from entry rs type num_pages in (rc, entry # rs')))"

fun contract_vm_region_end :: "vm_region list \<Rightarrow> u64 \<Rightarrow> u64 \<Rightarrow> int \<times> vm_region list" where
  "contract_vm_region_end [] type num_pages = (-1, [])"
| "contract_vm_region_end (r # rs) type num_pages =
     (if vr_type r \<noteq> type then
        (let (rc, rs') = contract_vm_region_end rs type num_pages in (rc, r # rs'))
      else
        (let new_end = vr_end r - num_pages * PAGE_SIZE in
         if new_end < vr_start r then (-2, r # rs) else (0, r\<lparr>vr_end := new_end\<rparr> # rs)))"

fun contract_vm_region_start :: "vm_region list \<Rightarrow> u64 \<Rightarrow> u64 \<Rightarrow> int \<times> vm_region list" where
  "contract_vm_region_start [] type num_pages = (-1, [])"
| "contract_vm_region_start (r # rs) type num_pages =
     (if vr_type r \<noteq> type then
        (let (rc, rs') = contract_vm_region_start rs type num_pages in (rc, r # rs'))
      else
        (let new_start = vr_start r + num_pages * PAGE_SIZE in
         if new_start > vr_end r then (-2, r # rs) else (0, r\<lparr>vr_start := new_start\<rparr> # rs)))"

fun last_region_from :: "vm_region option \<Rightarrow> vm_region list \<Rightarrow> u64 \<Rightarrow> vm_region option" where
  "last_region_from region [] type = region"
| "last_region_from region (r # rs) type =
     last_region_from (if vr_type r = type then Some r else region) rs type"

definition get_vm_last_region :: "vm_region list \<Rightarrow> u64 \<Rightarrow> vm_region option" where
  "get_vm_last_region list type = last_region_from None list type"

definition vm_type_to_string :: "u64 \<Rightarrow> string" where
  "vm_type_to_string type =
     (if type = VM_KERNEL_PHYS_ID then ''kernel=>physical id map''
      else if type = VM_KERNEL_TEXT then ''kernel=>text''
      else if type = VM_KERNEL_ROD then ''kernel=>read only data''
      else if type = VM_KERNEL_DATA then ''kernel=>data''
      else if type = VM_INITRD then ''kernel=>initial ram disk''
      else if type = VM_KERNEL_HEAP then ''kernel=>heap''
      else if type = VM_KERNEL_ANON_MAPPING then ''kernel=>anonymous mapping''
      else if type = VM_KERNEL_PHYS_MAPPING then ''kernel=>physical mapping''
      else if type = VM_KERNEL_VM_MAPPING then ''kernel=>vm mapping''
      else if type = VM_KERNEL_DMA_MAPPING then ''kernel=>dma mapping''
      else if type = VM_KERNEL_STACK then ''kernel=>stack''
      else if type = VM_PROCESS_TEXT then ''text''
      else if type = VM_PROCESS_ROD then ''read only data''
      else if type = VM_PROCESS_DATA then ''data''
      else if type = VM_PROCESS_BSS then ''bss''
      else if type = VM_PROCESS_HEAP then ''heap''
      else if type = VM_PROCESS_TLS_MASTER_COPY then ''thread local storage''
      else if type = VM_TASK_STACK then ''stack''
      else if type = VM_TASK_STACK_GUARD then ''stack guard''
      else if type = VM_PROCESS_FILE then ''file''
      else if type = VM_DEVICE_MEMORY_MAP_DONT_FREE_PHYS_PAGES then ''device map''
      else if type = VM_PROCESS_ANON_MAPPING then ''anonymous mapping''
      else ''unknown'')"

section \<open>Objects behind regions\<close>

datatype vm_object_type = VM_INODE | VM_ANON | VM_PHYS

text \<open>
  An object with the operations it has: the presence of \<open>kill\<close>, and the functions \<open>map\<close>, \<open>extend\<close>,
  \<open>handle_fault\<close> and \<open>handle_cow_fault\<close> as far as their results reach the callers. None is a NULL
  operation. The kinds of objects (inode, anonymous, physical) supply them.
\<close>

record vm_object =
  vo_type :: vm_object_type
  vo_ref_count :: int
  vo_has_kill :: bool
  vo_map :: "(vm_region \<Rightarrow> int) option"
  vo_extend :: "(u64 \<Rightarrow> int) option"
  vo_handle_fault :: "(u64 \<Rightarrow> u64 \<times> bool) option"
  vo_handle_cow_fault :: "(u64 \<Rightarrow> u64) option"
  vo_clone :: "(u64 \<Rightarrow> u64 \<Rightarrow> addr) option"

text \<open>The objects in memory, and the order in which objects were destroyed.\<close>

record vm_objects =
  objects :: "addr \<Rightarrow> vm_object option"
  killed :: "addr list"

definition drop_vm_object :: "addr \<Rightarrow> vm_objects \<Rightarrow> vm_objects option" where
  "drop_vm_object obj m = do {
     ob \<leftarrow> objects m obj;
     let fetched_ref_count = vo_ref_count ob;
     assert_that (fetched_ref_count > 0);
     if fetched_ref_count = 1
     then Some (m\<lparr>objects := (objects m)(obj := None),
                  killed := (if vo_has_kill ob then killed m @ [obj] else killed m)\<rparr>)
     else Some (m\<lparr>objects := (objects m)(obj := Some (ob\<lparr>vo_ref_count := fetched_ref_count - 1\<rparr>))\<rparr>)
   }"

text \<open>The argument is a pointer: bumping NULL is a NULL dereference.\<close>

definition bump_vm_object :: "addr option \<Rightarrow> vm_objects \<Rightarrow> vm_objects option" where
  "bump_vm_object obj m = do {
     a \<leftarrow> obj;
     ob \<leftarrow> objects m a;
     Some (m\<lparr>objects := (objects m)(a := Some (ob\<lparr>vo_ref_count := vo_ref_count ob + 1\<rparr>))\<rparr>)
   }"

text \<open>\<open>ops\<close> holds the operations; the address is the one \<open>malloc\<close> gives.\<close>

definition vm_create_object :: "vm_object_type \<Rightarrow> vm_object option \<Rightarrow> addr \<Rightarrow> vm_objects \<Rightarrow> vm_objects option" where
  "vm_create_object type ops a m = do {
     ob \<leftarrow> ops;
     Some (m\<lparr>objects := (objects m)(a := Some (ob\<lparr>vo_type := type, vo_ref_count := 1\<rparr>))\<rparr>)
   }"

text \<open>What a page fault does: it returns 0 with a mapping to install, or 1.\<close>

datatype fault_action = Map_New_Page u64 u64 | Map_Frame u64 u64 u64

definition vm_handle_cow_fault_in_region ::
  "vm_region \<Rightarrow> u64 \<Rightarrow> vm_objects \<Rightarrow> (int \<times> fault_action option) option" where
  "vm_handle_cow_fault_in_region region address m = do {
     let address = address AND NOT (PAGE_SIZE - 1);
     a \<leftarrow> vr_object region;
     object \<leftarrow> objects m a;
     let offset_in_object = vr_object_offset region + address - vr_start region;
     case vo_handle_cow_fault object of None \<Rightarrow> Some (1, None)
     | Some f \<Rightarrow> Some (0, Some (Map_Frame (f offset_in_object) address (vr_flags region)))
   }"

definition vm_handle_fault_in_region ::
  "vm_region \<Rightarrow> u64 \<Rightarrow> vm_objects \<Rightarrow> (int \<times> fault_action option) option" where
  "vm_handle_fault_in_region region address m =
     (let address = address AND NOT (PAGE_SIZE - 1) in
      case vr_object region of
        None \<Rightarrow> Some (0, Some (Map_New_Page address (vr_flags region)))
      | Some a \<Rightarrow> do {
          object \<leftarrow> objects m a;
          let offset_in_object = vr_object_offset region + address - vr_start region;
          case vo_handle_fault object of None \<Rightarrow> Some (1, None)
          | Some f \<Rightarrow>
              let (phys, is_cow) = f offset_in_object in
              Some (0, Some (Map_Frame phys address
                (if is_cow then (vr_flags region AND NOT VM_WRITE) OR VM_COW else vr_flags region)))
        })"

definition vm_clone_object :: "addr \<Rightarrow> u64 \<Rightarrow> u64 \<Rightarrow> vm_objects \<Rightarrow> addr option" where
  "vm_clone_object obj start size' m = do {
     ob \<leftarrow> objects m obj;
     f \<leftarrow> vo_clone ob;
     Some (f start size')
   }"

text \<open>The result of the object's \<open>map\<close>, and whether the profiler records the memory map.\<close>

definition vm_map_region_with_object :: "vm_region \<Rightarrow> bool \<Rightarrow> vm_objects \<Rightarrow> (int \<times> bool) option" where
  "vm_map_region_with_object self should_profile m = do {
     a \<leftarrow> vr_object self;
     object \<leftarrow> objects m a;
     f \<leftarrow> vo_map object;
     let record = (vr_flags self AND VM_NO_EXEC = 0 \<and> vo_type object = VM_INODE \<and> should_profile);
     Some (f self, record)
   }"

section \<open>Ordered lists of regions\<close>

definition region_addrs :: "vm_region \<Rightarrow> nat set" where
  "region_addrs r = {unat (vr_start r)..<unat (vr_end r)}"

definition covered :: "vm_region list \<Rightarrow> nat set" where
  "covered rs = \<Union> (region_addrs ` set rs)"

abbreviation before :: "vm_region \<Rightarrow> vm_region \<Rightarrow> bool" where
  "before r r' \<equiv> vr_end r \<le> vr_start r'"

definition regions_ok :: "vm_region list \<Rightarrow> bool" where
  "regions_ok rs \<longleftrightarrow> sorted_wrt before rs \<and> (\<forall>r \<in> set rs. vr_start r \<le> vr_end r)"

lemma regions_ok_Cons [simp]:
  "regions_ok (r # rs) \<longleftrightarrow> vr_start r \<le> vr_end r \<and> (\<forall>r' \<in> set rs. before r r') \<and> regions_ok rs"
  by (auto simp: regions_ok_def)

lemma regions_ok_Nil [simp]: "regions_ok []"
  by (simp add: regions_ok_def)

lemma covered_simps [simp]: "covered [] = {}" "covered (r # rs) = region_addrs r \<union> covered rs"
  by (simp_all add: covered_def)

text \<open>In an ordered list it is enough to compare with the next region.\<close>

lemma regions_ok_hd:
  assumes "regions_ok rs" "vr_start r \<le> vr_end r" "rs \<noteq> [] \<Longrightarrow> before r (hd rs)"
  shows "regions_ok (r # rs)"
  using assms by (cases rs) (auto dest: order_trans)

lemma set_add_vm_region [simp]: "set (add_vm_region rs t) = insert t (set rs)"
  by (induction rs) auto

lemma covered_add [simp]: "covered (add_vm_region rs t) = region_addrs t \<union> covered rs"
  by (simp add: covered_def)

lemma add_vm_region_ok:
  assumes "regions_ok rs" "vr_start t \<le> vr_end t" "\<forall>r \<in> set rs. before r t \<or> before t r"
  shows "regions_ok (add_vm_region rs t)"
  using assms
proof (induction rs)
  case (Cons r rs)
  show ?case
  proof (cases "vr_start r < vr_end t")
    case True
    have "before r t"
      using Cons.prems(3) True by auto
    then show ?thesis using Cons True by auto
  next
    case False
    then have t: "vr_end t \<le> vr_start r" by simp
    then have "\<forall>r' \<in> set rs. before t r'" using Cons.prems(1) by (auto dest: order_trans)
    then show ?thesis using False t Cons.prems by simp
  qed
qed simp

lemma get_vm_region_Some: "get_vm_region rs t = Some r \<Longrightarrow> r \<in> set rs \<and> vr_type r = t"
  by (induction rs) (auto split: if_splits)

text \<open>
  What a successful resize does: it changes one bound of the first region of the type, after
  comparing it with its neighbour.
\<close>

lemma extend_end_split:
  "extend_vm_region_end rs t n = (0, rs') \<Longrightarrow> \<exists>xs r ys. rs = xs @ r # ys \<and> get_vm_region rs t = Some r \<and>
     rs' = xs @ r\<lparr>vr_end := vr_end r + n * PAGE_SIZE\<rparr> # ys \<and>
     (ys \<noteq> [] \<longrightarrow> vr_end r + n * PAGE_SIZE \<le> vr_start (hd ys))"
proof (induction rs arbitrary: rs')
  case (Cons x rs)
  show ?case
  proof (cases "vr_type x = t")
    case True
    then show ?thesis
      using Cons.prems
      by (intro exI [of _ "[]"] exI [of _ x] exI [of _ rs]) (auto simp: Let_def not_less split: if_splits)
  next
    case False
    then obtain rs1 where rs1: "extend_vm_region_end rs t n = (0, rs1)" "rs' = x # rs1"
      using Cons.prems by (auto simp: Let_def split: prod.splits)
    from Cons.IH [OF rs1(1)] show ?thesis
      apply (elim exE)
      subgoal for xs r ys
        using False rs1(2) by (intro exI [of _ "x # xs"] exI [of _ r] exI [of _ ys]) auto
      done
  qed
qed simp

lemma contract_end_split:
  "contract_vm_region_end rs t n = (0, rs') \<Longrightarrow> \<exists>xs r ys. rs = xs @ r # ys \<and> get_vm_region rs t = Some r \<and>
     rs' = xs @ r\<lparr>vr_end := vr_end r - n * PAGE_SIZE\<rparr> # ys \<and> vr_start r \<le> vr_end r - n * PAGE_SIZE"
proof (induction rs arbitrary: rs')
  case (Cons x rs)
  show ?case
  proof (cases "vr_type x = t")
    case True
    then show ?thesis
      using Cons.prems
      by (intro exI [of _ "[]"] exI [of _ x] exI [of _ rs]) (auto simp: Let_def not_less split: if_splits)
  next
    case False
    then obtain rs1 where rs1: "contract_vm_region_end rs t n = (0, rs1)" "rs' = x # rs1"
      using Cons.prems by (auto simp: Let_def split: prod.splits)
    from Cons.IH [OF rs1(1)] show ?thesis
      apply (elim exE)
      subgoal for xs r ys
        using False rs1(2) by (intro exI [of _ "x # xs"] exI [of _ r] exI [of _ ys]) auto
      done
  qed
qed simp

lemma contract_start_split:
  "contract_vm_region_start rs t n = (0, rs') \<Longrightarrow> \<exists>xs r ys. rs = xs @ r # ys \<and> get_vm_region rs t = Some r \<and>
     rs' = xs @ r\<lparr>vr_start := vr_start r + n * PAGE_SIZE\<rparr> # ys \<and> vr_start r + n * PAGE_SIZE \<le> vr_end r"
proof (induction rs arbitrary: rs')
  case (Cons x rs)
  show ?case
  proof (cases "vr_type x = t")
    case True
    then show ?thesis
      using Cons.prems
      by (intro exI [of _ "[]"] exI [of _ x] exI [of _ rs]) (auto simp: Let_def not_less split: if_splits)
  next
    case False
    then obtain rs1 where rs1: "contract_vm_region_start rs t n = (0, rs1)" "rs' = x # rs1"
      using Cons.prems by (auto simp: Let_def split: prod.splits)
    from Cons.IH [OF rs1(1)] show ?thesis
      apply (elim exE)
      subgoal for xs r ys
        using False rs1(2) by (intro exI [of _ "x # xs"] exI [of _ r] exI [of _ ys]) auto
      done
  qed
qed simp

lemma extend_from_split:
  "extend_start_from e rs t n = (0, rs') \<Longrightarrow> \<exists>xs r ys. rs = xs @ r # ys \<and> get_vm_region rs t = Some r \<and>
     rs' = xs @ r\<lparr>vr_start := vr_start r - n * PAGE_SIZE\<rparr> # ys \<and>
     vr_end (last (e # xs)) \<le> vr_start r - n * PAGE_SIZE"
proof (induction rs arbitrary: e rs')
  case (Cons x rs)
  show ?case
  proof (cases "vr_type x = t")
    case True
    then show ?thesis
      using Cons.prems
      by (intro exI [of _ "[]"] exI [of _ x] exI [of _ rs]) (auto simp: Let_def not_less split: if_splits)
  next
    case False
    then obtain rs1 where rs1: "extend_start_from x rs t n = (0, rs1)" "rs' = x # rs1"
      using Cons.prems by (auto simp: Let_def split: prod.splits)
    from Cons.IH [OF rs1(1)] show ?thesis
      apply (elim exE)
      subgoal for xs r ys
        using False rs1(2) by (intro exI [of _ "x # xs"] exI [of _ r] exI [of _ ys]) auto
      done
  qed
qed simp

lemma extend_start_split:
  assumes "extend_vm_region_start rs t n = (0, rs')"
  shows "\<exists>xs r ys. rs = xs @ r # ys \<and> get_vm_region rs t = Some r \<and>
     rs' = xs @ r\<lparr>vr_start := vr_start r - n * PAGE_SIZE\<rparr> # ys \<and>
     (xs \<noteq> [] \<longrightarrow> vr_end (last xs) \<le> vr_start r - n * PAGE_SIZE)"
proof (cases rs)
  case (Cons x xs)
  show ?thesis
  proof (cases "vr_type x = t")
    case True
    then show ?thesis
      using assms Cons
      by (intro exI [of _ "[]"] exI [of _ x] exI [of _ xs]) (simp add: extend_vm_region_start_def)
  next
    case False
    then obtain rs1 where rs1: "extend_start_from x xs t n = (0, rs1)" "rs' = x # rs1"
      using assms Cons by (auto simp: extend_vm_region_start_def Let_def split: prod.splits)
    from extend_from_split [OF rs1(1)] show ?thesis
      apply (elim exE)
      subgoal for zs r ys
        using False rs1(2) Cons by (intro exI [of _ "x # zs"] exI [of _ r] exI [of _ ys]) auto
      done
  qed
qed (use assms in \<open>simp add: extend_vm_region_start_def\<close>)

lemma regions_ok_append:
  "regions_ok (xs @ ys) \<longleftrightarrow> regions_ok xs \<and> regions_ok ys \<and> (\<forall>x \<in> set xs. \<forall>y \<in> set ys. before x y)"
  by (auto simp: regions_ok_def sorted_wrt_append)

lemma region_end_le_last:
  assumes "regions_ok xs" "x \<in> set xs"
  shows "vr_end x \<le> vr_end (last xs)"
  using assms
proof (induction xs rule: rev_induct)
  case (snoc y ys)
  show ?case
  proof (cases "x = y")
    case False
    then have "vr_end x \<le> vr_start y" "vr_start y \<le> vr_end y"
      using snoc.prems by (auto simp: regions_ok_append)
    then show ?thesis by (auto dest: order_trans)
  qed simp
qed simp

lemma regions_ok_replace:
  assumes ok: "regions_ok (xs @ r # ys)" and r': "vr_start r' \<le> vr_end r'"
    and "xs \<noteq> [] \<longrightarrow> before (last xs) r'" "ys \<noteq> [] \<longrightarrow> before r' (hd ys)"
  shows "regions_ok (xs @ r' # ys)"
proof -
  have "before x r'" if "x \<in> set xs" for x
  proof -
    have "regions_ok xs" using ok by (simp add: regions_ok_append)
    from region_end_le_last [OF this that] have "vr_end x \<le> vr_end (last xs)" .
    moreover have "vr_end (last xs) \<le> vr_start r'" using assms(3) that by auto
    ultimately show ?thesis by (rule order_trans)
  qed
  moreover have "regions_ok (r' # ys)"
    using ok r' assms(4) by (intro regions_ok_hd) (auto simp: regions_ok_append)
  ultimately show ?thesis using ok by (auto simp: regions_ok_append)
qed

lemma covered_append [simp]: "covered (xs @ ys) = covered xs \<union> covered ys"
  by (auto simp: covered_def)

lemma region_apart:
  assumes "regions_ok (xs @ r # ys)"
  shows "region_addrs r \<inter> covered (xs @ ys) = {}"
proof -
  have "region_addrs r \<inter> region_addrs x = {}" if "x \<in> set (xs @ ys)" for x
    using assms that by (auto simp: regions_ok_append region_addrs_def word_le_nat_alt)
  then show ?thesis unfolding covered_def by auto
qed

text \<open>Intervals with one bound moved.\<close>

lemma ivl_moved:
  fixes a b k :: nat
  shows "a \<le> b \<Longrightarrow> {a..<b + k} = {a..<b} \<union> {b..<b + k}"
    and "k \<le> a \<Longrightarrow> a \<le> b \<Longrightarrow> {a - k..<b} = {a..<b} \<union> {a - k..<a}"
    and "a \<le> b - k \<Longrightarrow> {a..<b - k} = {a..<b} - {b - k..<b}"
    and "{a + k..<b} = {a..<b} - {a..<a + k}"
  by auto

lemma move_bound:
  assumes ok: "regions_ok (xs @ r # ys)" and le: "vr_start r' \<le> vr_end r'"
    and "xs \<noteq> [] \<longrightarrow> vr_end (last xs) \<le> vr_start r'" "ys \<noteq> [] \<longrightarrow> vr_end r' \<le> vr_start (hd ys)"
  shows "regions_ok (xs @ r' # ys)"
    and "region_addrs r' = region_addrs r \<union> A \<Longrightarrow> covered (xs @ r' # ys) = covered (xs @ r # ys) \<union> A"
    and "region_addrs r' = region_addrs r - A \<Longrightarrow> A \<subseteq> region_addrs r \<Longrightarrow>
      covered (xs @ r' # ys) = covered (xs @ r # ys) - A"
proof -
  show "regions_ok (xs @ r' # ys)" using assms by (rule regions_ok_replace)
  show "region_addrs r' = region_addrs r \<union> A \<Longrightarrow> covered (xs @ r' # ys) = covered (xs @ r # ys) \<union> A"
    by auto
  have "region_addrs r \<inter> covered (xs @ ys) = {}" using ok by (rule region_apart)
  then show "region_addrs r' = region_addrs r - A \<Longrightarrow> A \<subseteq> region_addrs r \<Longrightarrow>
      covered (xs @ r' # ys) = covered (xs @ r # ys) - A"
    by auto
qed

lemma neighbours:
  assumes "regions_ok (xs @ r # ys)"
  shows "vr_start r \<le> vr_end r" "xs \<noteq> [] \<longrightarrow> vr_end (last xs) \<le> vr_start r" "ys \<noteq> [] \<longrightarrow> vr_end r \<le> vr_start (hd ys)"
  using assms by (auto simp: regions_ok_append)

lemma unat_pages: "unat (n :: u64) * 4096 < 2 ^ 64 \<Longrightarrow> unat (n * PAGE_SIZE) = unat n * 4096"
  using unat_mult_u64 [of n PAGE_SIZE] by simp

lemma extend_end_ok:
  assumes ok: "regions_ok rs" and r: "get_vm_region rs t = Some r"
    and f: "extend_vm_region_end rs t n = (0, rs')" and b: "unat (vr_end r) + unat n * 4096 < 2 ^ 64"
  shows "regions_ok rs' \<and> covered rs' = covered rs \<union> {unat (vr_end r)..<unat (vr_end r) + unat n * 4096}"
proof -
  from extend_end_split [OF f] r obtain xs ys where
    *: "rs = xs @ r # ys" "rs' = xs @ r\<lparr>vr_end := vr_end r + n * PAGE_SIZE\<rparr> # ys"
      "ys \<noteq> [] \<longrightarrow> vr_end r + n * PAGE_SIZE \<le> vr_start (hd ys)" by auto
  note nb = neighbours [OF ok [unfolded *(1)]]
  have e: "unat (vr_end r + n * PAGE_SIZE) = unat (vr_end r) + unat n * 4096"
    using b unat_pages [of n] unat_add_u64 [of "vr_end r" "n * PAGE_SIZE"] by simp
  have le: "unat (vr_start r) \<le> unat (vr_end r)" using nb(1) by (simp add: word_le_nat_alt)
  let ?r = "r\<lparr>vr_end := vr_end r + n * PAGE_SIZE\<rparr>"
  have g: "vr_start ?r \<le> vr_end ?r" using le e by (simp add: word_le_nat_alt)
  have "region_addrs ?r = region_addrs r \<union> {unat (vr_end r)..<unat (vr_end r) + unat n * 4096}"
    using ivl_moved(1) [OF le] e by (simp add: region_addrs_def)
  with move_bound(1,2) [OF ok [unfolded *(1)] g] nb(2) *(3) show ?thesis unfolding *(1,2) by simp
qed

lemma extend_start_ok:
  assumes ok: "regions_ok rs" and r: "get_vm_region rs t = Some r" and n: "unat n * 4096 < 2 ^ 64"
    and f: "extend_vm_region_start rs t n = (0, rs')" and b: "unat n * 4096 \<le> unat (vr_start r)"
  shows "regions_ok rs' \<and> covered rs' = covered rs \<union> {unat (vr_start r) - unat n * 4096..<unat (vr_start r)}"
proof -
  from extend_start_split [OF f] r obtain xs ys where
    *: "rs = xs @ r # ys" "rs' = xs @ r\<lparr>vr_start := vr_start r - n * PAGE_SIZE\<rparr> # ys"
      "xs \<noteq> [] \<longrightarrow> vr_end (last xs) \<le> vr_start r - n * PAGE_SIZE" by auto
  note nb = neighbours [OF ok [unfolded *(1)]]
  have e: "unat (vr_start r - n * PAGE_SIZE) = unat (vr_start r) - unat n * 4096"
    using b unat_pages [OF n] unat_sub_u64 [of "n * PAGE_SIZE" "vr_start r"] by simp
  have le: "unat (vr_start r) \<le> unat (vr_end r)" using nb(1) by (simp add: word_le_nat_alt)
  let ?r = "r\<lparr>vr_start := vr_start r - n * PAGE_SIZE\<rparr>"
  have g: "vr_start ?r \<le> vr_end ?r" using le e by (simp add: word_le_nat_alt)
  have "region_addrs ?r = region_addrs r \<union> {unat (vr_start r) - unat n * 4096..<unat (vr_start r)}"
    using ivl_moved(2) [OF b le] e by (simp add: region_addrs_def)
  with move_bound(1,2) [OF ok [unfolded *(1)] g] nb(3) *(3) show ?thesis unfolding *(1,2) by simp
qed

lemma contract_end_ok:
  assumes ok: "regions_ok rs" and r: "get_vm_region rs t = Some r" and n: "unat n * 4096 < 2 ^ 64"
    and f: "contract_vm_region_end rs t n = (0, rs')" and b: "unat n * 4096 \<le> unat (vr_end r)"
  shows "regions_ok rs' \<and> covered rs' = covered rs - {unat (vr_end r) - unat n * 4096..<unat (vr_end r)}"
proof -
  from contract_end_split [OF f] r obtain xs ys where
    *: "rs = xs @ r # ys" "rs' = xs @ r\<lparr>vr_end := vr_end r - n * PAGE_SIZE\<rparr> # ys"
      "vr_start r \<le> vr_end r - n * PAGE_SIZE" by auto
  note nb = neighbours [OF ok [unfolded *(1)]]
  have e: "unat (vr_end r - n * PAGE_SIZE) = unat (vr_end r) - unat n * 4096"
    using b unat_pages [OF n] unat_sub_u64 [of "n * PAGE_SIZE" "vr_end r"] by simp
  have le: "unat (vr_start r) \<le> unat (vr_end r) - unat n * 4096" using *(3) e by (simp add: word_le_nat_alt)
  let ?r = "r\<lparr>vr_end := vr_end r - n * PAGE_SIZE\<rparr>"
  have "vr_end ?r \<le> vr_end r" using e by (simp add: word_le_nat_alt)
  then have ys: "ys \<noteq> [] \<longrightarrow> vr_end ?r \<le> vr_start (hd ys)" using nb(3) by (auto dest: order_trans)
  have "region_addrs ?r = region_addrs r - {unat (vr_end r) - unat n * 4096..<unat (vr_end r)}"
    "{unat (vr_end r) - unat n * 4096..<unat (vr_end r)} \<subseteq> region_addrs r"
    using ivl_moved(3) [OF le] e le by (simp_all add: region_addrs_def)
  with move_bound(1,3) [OF ok [unfolded *(1)], of ?r] nb(2) *(3) ys show ?thesis unfolding *(1,2) by simp
qed

lemma contract_start_ok:
  assumes ok: "regions_ok rs" and r: "get_vm_region rs t = Some r"
    and f: "contract_vm_region_start rs t n = (0, rs')" and b: "unat (vr_start r) + unat n * 4096 < 2 ^ 64"
  shows "regions_ok rs' \<and> covered rs' = covered rs - {unat (vr_start r)..<unat (vr_start r) + unat n * 4096}"
proof -
  from contract_start_split [OF f] r obtain xs ys where
    *: "rs = xs @ r # ys" "rs' = xs @ r\<lparr>vr_start := vr_start r + n * PAGE_SIZE\<rparr> # ys"
      "vr_start r + n * PAGE_SIZE \<le> vr_end r" by auto
  note nb = neighbours [OF ok [unfolded *(1)]]
  have e: "unat (vr_start r + n * PAGE_SIZE) = unat (vr_start r) + unat n * 4096"
    using b unat_pages [of n] unat_add_u64 [of "vr_start r" "n * PAGE_SIZE"] by simp
  have le: "unat (vr_start r) + unat n * 4096 \<le> unat (vr_end r)" using *(3) e by (simp add: word_le_nat_alt)
  let ?r = "r\<lparr>vr_start := vr_start r + n * PAGE_SIZE\<rparr>"
  have "vr_start r \<le> vr_start ?r" using e by (simp add: word_le_nat_alt)
  then have xs: "xs \<noteq> [] \<longrightarrow> vr_end (last xs) \<le> vr_start ?r" using nb(2) by (auto dest: order_trans)
  have "region_addrs ?r = region_addrs r - {unat (vr_start r)..<unat (vr_start r) + unat n * 4096}"
    "{unat (vr_start r)..<unat (vr_start r) + unat n * 4096} \<subseteq> region_addrs r"
    using ivl_moved(4) [of "unat (vr_start r)" "unat n * 4096" "unat (vr_end r)"] e le
    by (simp_all add: region_addrs_def)
  with move_bound(1,3) [OF ok [unfolded *(1)], of ?r] nb(3) *(3) xs show ?thesis unfolding *(1,2) by simp
qed

section \<open>Properties\<close>

text \<open>C29 (vm_region_resizes_keep_order). Growing or shrinking the region of a type at either end, when it
  succeeds and the page count does not wrap the address arithmetic, keeps the list ordered and the
  regions apart, and adds or removes exactly the pages at that end.\<close>

theorem vm_region_resizes_keep_order:
  assumes ok: "regions_ok rs" and r: "get_vm_region rs t = Some r" and n: "unat n * 4096 < 2 ^ 64"
  shows "(\<forall>rs'. extend_vm_region_end rs t n = (0, rs') \<longrightarrow> unat (vr_end r) + unat n * 4096 < 2 ^ 64 \<longrightarrow>
      regions_ok rs' \<and> covered rs' = covered rs \<union> {unat (vr_end r)..<unat (vr_end r) + unat n * 4096}) \<and>
    (\<forall>rs'. extend_vm_region_start rs t n = (0, rs') \<longrightarrow> unat n * 4096 \<le> unat (vr_start r) \<longrightarrow>
      regions_ok rs' \<and> covered rs' = covered rs \<union> {unat (vr_start r) - unat n * 4096..<unat (vr_start r)}) \<and>
    (\<forall>rs'. contract_vm_region_end rs t n = (0, rs') \<longrightarrow> unat n * 4096 \<le> unat (vr_end r) \<longrightarrow>
      regions_ok rs' \<and> covered rs' = covered rs - {unat (vr_end r) - unat n * 4096..<unat (vr_end r)}) \<and>
    (\<forall>rs'. contract_vm_region_start rs t n = (0, rs') \<longrightarrow> unat (vr_start r) + unat n * 4096 < 2 ^ 64 \<longrightarrow>
      regions_ok rs' \<and> covered rs' = covered rs - {unat (vr_start r)..<unat (vr_start r) + unat n * 4096})"
  using extend_end_ok [OF ok r] extend_start_ok [OF ok r n] contract_end_ok [OF ok r n]
    contract_start_ok [OF ok r]
  by blast

definition two_regions :: "vm_region list" where
  "two_regions =
     [\<lparr>region_id = 1, vr_start = 0x400000, vr_end = 0x402000, vr_flags = 0, vr_type = VM_PROCESS_TEXT,
       vr_object = None, vr_object_offset = 0\<rparr>,
      \<lparr>region_id = 2, vr_start = 0x500000, vr_end = 0x501000, vr_flags = 0, vr_type = VM_PROCESS_HEAP,
       vr_object = None, vr_object_offset = 0\<rparr>]"

lemma two_regions_ok: "regions_ok two_regions" "get_vm_region two_regions VM_PROCESS_HEAP = Some (two_regions ! 1)"
  by (simp_all add: two_regions_def)

lemma vm_region_resizes_keep_order_witness:
  "\<exists>rs'. extend_vm_region_end two_regions VM_PROCESS_HEAP 3 = (0, rs') \<and> regions_ok rs' \<and>
     covered rs' = covered two_regions \<union> {0x501000..<0x504000}"
  using vm_region_resizes_keep_order [OF two_regions_ok, of 3] by (simp add: two_regions_def)

lemma resize_by_nothing:
  assumes "regions_ok rs" "get_vm_region rs t = Some r" "n * PAGE_SIZE = 0"
  shows "contract_vm_region_end rs t n = (0, rs) \<and> extend_vm_region_end rs t n = (0, rs)"
  using assms(1,2)
proof (induction rs)
  case (Cons x rs)
  have nx: "\<not> (rs \<noteq> [] \<and> vr_end x > vr_start (hd rs))"
    using Cons.prems(1) by (cases rs) (auto simp: not_less)
  show ?case
  proof (cases "vr_type x = t")
    case True
    then show ?thesis using nx Cons.prems(1) assms(3) by (simp add: Let_def not_less)
  next
    case False
    then show ?thesis using Cons by simp
  qed
qed simp

text \<open>C30 (vm_region_resize_wraps). The checks of the resizing functions do not see a page count that wraps:
  growing or shrinking any region by 2^52 pages (2^64 bytes) at its end is reported as done.\<close>

theorem vm_region_resize_wraps:
  assumes "regions_ok rs" "get_vm_region rs t = Some r"
  shows "contract_vm_region_end rs t (2 ^ 52) = (0, rs) \<and> extend_vm_region_end rs t (2 ^ 52) = (0, rs)"
  using assms by (rule resize_by_nothing) simp

lemma vm_region_resize_wraps_witness:
  "contract_vm_region_end two_regions VM_PROCESS_HEAP (2 ^ 52) = (0, two_regions)"
  using vm_region_resize_wraps [OF two_regions_ok] by blast

end
