(* ===== verification/Vm_Allocator.thy ===== *)
theory Vm_Allocator
  imports Vm_Region
begin

text \<open>
  The virtual memory allocator, \<^verbatim>\<open>kernel/mem/vm_allocator.c\<close>: the regions of the current process and of
  the kernel. Page tables are hardware; what the code does to them is the log \<open>page_log\<close> of the calls
  it makes (\<open>map_page\<close>, \<open>do_unmap_page\<close>, ...), in order. \<open>calloc\<close> of a region takes the next address.
  The theory shows that unmapping removes exactly the range from the process's regions and that
  mapping without a fixed address finds a free range, and pins down where region bookkeeping goes
  wrong.
\<close>

section \<open>Model\<close>

datatype owner = Current_Process | Idle_Kernel_Process | Initial_Kernel_Process

datatype page_op =
    Map_Page u64 u64 owner
  | Map_Phys_Page u64 u64 u64 owner
  | Map_Page_Flags u64 u64
  | Unmap_Page u64 owner
  | Do_Unmap_Page u64 bool bool bool owner
  | Clear_Memory u64 u64
  | Copy_Memory u64 u64 u64
  | Mark_Region_As_Cow addr
  | Record_Memory_Map
  | Bootstrap_Temp_Page_Mapping
  | Clear_Initial_Page_Mappings
  | Map_Vm_Region_Flags addr

record vm_state = pf_state +
  kernel_vm_list :: "vm_region list"
  kernel_vm_locked :: bool
  process_memory :: "vm_region list"
  task_kernel_stack :: "vm_region option"
  process_ref_count :: int
  should_profile :: bool
  vm_objs :: vm_objects
  page_log :: "page_op list"
  next_region_id :: addr

definition log_op :: "page_op \<Rightarrow> vm_state \<Rightarrow> vm_state" where
  "log_op op st = st\<lparr>page_log := page_log st @ [op]\<rparr>"

text \<open>A pointer to a region of a list is its \<open>region_id\<close>.\<close>

definition upd_region :: "addr \<Rightarrow> (vm_region \<Rightarrow> vm_region) \<Rightarrow> vm_region list \<Rightarrow> vm_region list" where
  "upd_region i f rs = map (\<lambda>r. if region_id r = i then f r else r) rs"

definition upd_user :: "addr \<Rightarrow> (vm_region \<Rightarrow> vm_region) \<Rightarrow> vm_state \<Rightarrow> vm_state" where
  "upd_user i f st = st\<lparr>process_memory := upd_region i f (process_memory st)\<rparr>"

text \<open>\<^verbatim>\<open>for (i = lo; i < hi; i += PAGE_SIZE)\<close>, and the loop of \<open>size_t i = lo; i <= hi\<close>.\<close>

partial_function (option) each_page :: "u64 \<Rightarrow> u64 \<Rightarrow> (u64 \<Rightarrow> page_op) \<Rightarrow> vm_state \<Rightarrow> vm_state option" where
  "each_page i hi f st =
     (if i < hi then each_page (i + PAGE_SIZE) hi f (log_op (f i) st) else Some st)"

partial_function (option) each_upto :: "u64 \<Rightarrow> u64 \<Rightarrow> (u64 \<Rightarrow> page_op) \<Rightarrow> vm_state \<Rightarrow> vm_state option" where
  "each_upto i hi f st =
     (if i \<le> hi then each_upto (i + 1) hi f (log_op (f i) st) else Some st)"

text \<open>
  The list a type belongs to. For kernel types the spin lock is taken; taking it twice never returns.
\<close>

definition region_list :: "u64 \<Rightarrow> vm_state \<Rightarrow> vm_region list" where
  "region_list type st = (if type > VM_KERNEL_HEAP then process_memory st else kernel_vm_list st)"

definition set_region_list :: "u64 \<Rightarrow> vm_region list \<Rightarrow> vm_state \<Rightarrow> vm_state" where
  "set_region_list type rs st =
     (if type > VM_KERNEL_HEAP then st\<lparr>process_memory := rs\<rparr> else st\<lparr>kernel_vm_list := rs\<rparr>)"

definition region_owner :: "u64 \<Rightarrow> owner" where
  "region_owner type = (if type > VM_KERNEL_HEAP then Current_Process else Idle_Kernel_Process)"

definition lock_kernel_vm :: "vm_state \<Rightarrow> vm_state option" where
  "lock_kernel_vm st = (if kernel_vm_locked st then None else Some (st\<lparr>kernel_vm_locked := True\<rparr>))"

definition unlock_kernel_vm :: "vm_state \<Rightarrow> vm_state" where
  "unlock_kernel_vm st = st\<lparr>kernel_vm_locked := False\<rparr>"

definition lock_list :: "u64 \<Rightarrow> vm_state \<Rightarrow> vm_state option" where
  "lock_list type st = (if type > VM_KERNEL_HEAP then Some st else lock_kernel_vm st)"

definition unlock_list :: "u64 \<Rightarrow> vm_state \<Rightarrow> vm_state" where
  "unlock_list type st = (if type > VM_KERNEL_HEAP then st else unlock_kernel_vm st)"

definition new_region :: "vm_state \<Rightarrow> vm_region \<times> vm_state" where
  "new_region st =
     (\<lparr>region_id = next_region_id st, vr_start = 0, vr_end = 0, vr_flags = 0, vr_type = 0,
       vr_object = None, vr_object_offset = 0\<rparr>,
      st\<lparr>next_region_id := next_region_id st + 1\<rparr>)"

subsection \<open>Finding regions\<close>

fun first_of :: "vm_region \<Rightarrow> vm_region list \<Rightarrow> vm_region" where
  "first_of first [] = first"
| "first_of first (r # rs) = first_of (if vr_start r < vr_start first then r else first) rs"

definition find_first_kernel_vm_region :: "vm_state \<Rightarrow> vm_region option" where
  "find_first_kernel_vm_region st =
     (case kernel_vm_list st of [] \<Rightarrow> None | r # rs \<Rightarrow> Some (first_of r (r # rs)))"

definition vm_is_kernel_address :: "u64 \<Rightarrow> vm_state \<Rightarrow> bool option" where
  "vm_is_kernel_address a st = do { r \<leftarrow> find_first_kernel_vm_region st; Some (a \<ge> vr_start r) }"

definition find_vm_region :: "u64 \<Rightarrow> vm_state \<Rightarrow> vm_region option option" where
  "find_vm_region type st = do {
     st \<leftarrow> lock_list type st;
     Some (get_vm_region (region_list type st) type)
   }"

definition find_user_vm_region_by_addr :: "u64 \<Rightarrow> vm_state \<Rightarrow> vm_region option" where
  "find_user_vm_region_by_addr a st =
     List.find (\<lambda>r. vr_start r \<le> a \<and> a < vr_end r) (process_memory st)"

definition find_kernel_vm_region_by_addr :: "u64 \<Rightarrow> vm_state \<Rightarrow> vm_region option option" where
  "find_kernel_vm_region_by_addr a st =
     (case task_kernel_stack st of
        Some r \<Rightarrow> if vr_start r \<le> a \<and> a < vr_end r then Some (Some r)
          else do { st \<leftarrow> lock_kernel_vm st;
                    Some (List.find (\<lambda>r. vr_start r \<le> a \<and> a < vr_end r) (kernel_vm_list st)) }
      | None \<Rightarrow> do { st \<leftarrow> lock_kernel_vm st;
                    Some (List.find (\<lambda>r. vr_start r \<le> a \<and> a < vr_end r) (kernel_vm_list st)) })"

definition in_range :: "u64 \<Rightarrow> u64 \<Rightarrow> vm_region \<Rightarrow> bool" where
  "in_range start end' r \<longleftrightarrow>
     start \<le> vr_start r \<and> vr_end r \<le> end' \<or>
     start \<ge> vr_start r \<and> start < vr_end r \<or>
     end' > vr_start r \<and> end' \<le> vr_end r"

definition find_user_vm_region_in_range :: "u64 \<Rightarrow> u64 \<Rightarrow> vm_state \<Rightarrow> vm_region option option" where
  "find_user_vm_region_in_range start end' st = do {
     assert_that (start \<le> end');
     Some (if start = end' then None else List.find (in_range start end') (process_memory st))
   }"

definition vm_compute_total_virtual_memory :: "vm_state \<Rightarrow> u64" where
  "vm_compute_total_virtual_memory st =
     foldl (\<lambda>result region. result + (vr_end region - vr_start region)) 0 (process_memory st)"

subsection \<open>Growing and shrinking\<close>

text \<open>The result is the returned pointer; note the returns without \<open>spin_unlock\<close>.\<close>

definition add_vm_pages_end :: "u64 \<Rightarrow> u64 \<Rightarrow> vm_state \<Rightarrow> (u64 option \<times> vm_state) option" where
  "add_vm_pages_end n type st = do {
     st \<leftarrow> lock_list type st;
     region \<leftarrow> get_vm_region (region_list type st) type;
     let old_end = vr_end region;
     let (rc, rs) = extend_vm_region_end (region_list type st) type n;
     if rc < 0 then Some (None, st)
     else do {
       let st = set_region_list type rs st;
       case vr_object region of
         Some a \<Rightarrow> do {
           ob \<leftarrow> objects (vm_objs st) a;
           case vo_extend ob of
             None \<Rightarrow> Some (None, st)
           | Some ext \<Rightarrow>
               if ext n \<noteq> 0 then Some (None, st) else Some (Some old_end, unlock_list type st)
         }
       | None \<Rightarrow> do {
           st \<leftarrow> for_u64 0 n
             (\<lambda>i st. Some (log_op (Map_Page (old_end + i * PAGE_SIZE) (vr_flags region) (region_owner type)) st)) st;
           let st = log_op (Clear_Memory old_end (n * PAGE_SIZE)) st;
           Some (Some old_end, unlock_list type st)
         }
     }
   }"

definition add_vm_pages_start :: "u64 \<Rightarrow> u64 \<Rightarrow> vm_state \<Rightarrow> (u64 option \<times> vm_state) option" where
  "add_vm_pages_start n type st = do {
     st \<leftarrow> lock_list type st;
     region \<leftarrow> get_vm_region (region_list type st) type;
     let old_start = vr_start region;
     let (rc, rs) = extend_vm_region_start (region_list type st) type n;
     if rc < 0 then Some (None, st)
     else do {
       let st = set_region_list type rs st;
       st \<leftarrow> each_upto 1 n
         (\<lambda>i. Map_Page (old_start - i * PAGE_SIZE) (vr_flags region) (region_owner type)) st;
       let st = unlock_list type st;
       Some (Some old_start, log_op (Clear_Memory (old_start - n * PAGE_SIZE) (n * PAGE_SIZE)) st)
     }
   }"

definition remove_vm_pages_end :: "u64 \<Rightarrow> u64 \<Rightarrow> vm_state \<Rightarrow> vm_state option" where
  "remove_vm_pages_end n type st = do {
     st \<leftarrow> lock_list type st;
     region \<leftarrow> get_vm_region (region_list type st) type;
     let old_end = vr_end region;
     let (rc, rs) = contract_vm_region_end (region_list type st) type n;
     assert_that (\<not> rc < 0);
     let st = unlock_list type (set_region_list type rs st);
     each_upto 1 n (\<lambda>i. Unmap_Page (old_end - i * PAGE_SIZE) (region_owner type)) st
   }"

definition remove_vm_pages_start :: "u64 \<Rightarrow> u64 \<Rightarrow> vm_state \<Rightarrow> vm_state option" where
  "remove_vm_pages_start n type st = do {
     st \<leftarrow> lock_list type st;
     region \<leftarrow> get_vm_region (region_list type st) type;
     let old_start = vr_start region;
     let (rc, rs) = contract_vm_region_start (region_list type st) type n;
     assert_that (\<not> rc < 0);
     let st = unlock_list type (set_region_list type rs st);
     for_u64 0 n (\<lambda>i st. Some (log_op (Unmap_Page (old_start + i * PAGE_SIZE) Current_Process) st)) st
   }"

subsection \<open>Unmapping\<close>

text \<open>\<^verbatim>\<open>while (r->end != addr)\<close> and \<^verbatim>\<open>while (r->start != addr + length)\<close>.\<close>

partial_function (option) shrink_end :: "vm_region \<Rightarrow> u64 \<Rightarrow> bool \<Rightarrow> u64 \<Rightarrow> vm_state \<Rightarrow> vm_state option" where
  "shrink_end r addr broadcast e st =
     (if e \<noteq> addr
      then shrink_end r addr broadcast (e - PAGE_SIZE)
        (log_op (Do_Unmap_Page (e - PAGE_SIZE) (vr_object r = None) True broadcast Current_Process)
          (upd_user (region_id r) (\<lambda>r. r\<lparr>vr_end := e - PAGE_SIZE\<rparr>) st))
      else Some st)"

partial_function (option) shrink_start :: "vm_region \<Rightarrow> u64 \<Rightarrow> bool \<Rightarrow> u64 \<Rightarrow> vm_state \<Rightarrow> vm_state option" where
  "shrink_start r end' broadcast a st =
     (if a \<noteq> end'
      then shrink_start r end' broadcast (a + PAGE_SIZE)
        (upd_user (region_id r)
          (\<lambda>r. r\<lparr>vr_start := a + PAGE_SIZE, vr_object_offset := vr_object_offset r + PAGE_SIZE\<rparr>)
          (log_op (Do_Unmap_Page a (vr_object r = None) broadcast True Current_Process) st))
      else Some st)"

definition unmap_split :: "vm_region \<Rightarrow> u64 \<Rightarrow> u64 \<Rightarrow> bool \<Rightarrow> vm_state \<Rightarrow> vm_state option" where
  "unmap_split r addr length' broadcast st = do {
     st \<leftarrow> each_page addr (addr + length')
       (\<lambda>i. Do_Unmap_Page i (vr_object r = None) True broadcast Current_Process) st;
     let (to_add, st) = new_region st;
     let to_add = to_add\<lparr>vr_start := addr + length', vr_end := vr_end r, vr_flags := vr_flags r,
                   vr_type := vr_type r,
                   vr_object_offset := vr_object_offset r + vr_end r - vr_start r,
                   vr_object := vr_object r\<rparr>;
     objs \<leftarrow> bump_vm_object (vr_object to_add) (vm_objs st);
     let st = upd_user (region_id r) (\<lambda>r. r\<lparr>vr_end := addr\<rparr>) (st\<lparr>vm_objs := objs\<rparr>);
     Some (st\<lparr>process_memory := add_vm_region (process_memory st) to_add\<rparr>)
   }"

definition unmap_whole :: "vm_region \<Rightarrow> bool \<Rightarrow> vm_state \<Rightarrow> vm_state option" where
  "unmap_whole r broadcast st = do {
     important \<leftarrow> (case vr_object r of None \<Rightarrow> Some False
       | Some a \<Rightarrow> do { ob \<leftarrow> objects (vm_objs st) a;
                       Some (vr_flags r AND VM_NO_EXEC = 0 \<and> vo_type ob = VM_INODE) });
     st \<leftarrow> (case vr_object r of None \<Rightarrow> Some st
       | Some a \<Rightarrow> do { objs \<leftarrow> drop_vm_object a (vm_objs st); Some (st\<lparr>vm_objs := objs\<rparr>) });
     st \<leftarrow> each_page (vr_start r) (vr_end r)
       (\<lambda>i. Do_Unmap_Page i (vr_object r = None) True broadcast Current_Process) st;
     let st = st\<lparr>process_memory := filter (\<lambda>x. region_id x \<noteq> region_id r) (process_memory st)\<rparr>;
     Some (if important \<and> should_profile st then log_op Record_Memory_Map st else st)
   }"

partial_function (option) do_unmap_range :: "u64 \<Rightarrow> u64 \<Rightarrow> vm_state \<Rightarrow> (int \<times> vm_state) option" where
  "do_unmap_range addr length' st = do {
     found \<leftarrow> find_user_vm_region_in_range addr (addr + length') st;
     let broadcast = (process_ref_count st > 1);
     case found of None \<Rightarrow> Some (0, st)
     | Some r \<Rightarrow>
         if vr_start r < addr \<and> vr_end r > addr + length' then
           do { st \<leftarrow> unmap_split r addr length' broadcast st; Some (0, st) }
         else if vr_start r < addr then do {
           assert_that (vr_end r \<ge> addr);
           st \<leftarrow> shrink_end r addr broadcast (vr_end r) st;
           do_unmap_range (vr_end r) (length' - (vr_end r - addr)) st
         }
         else if vr_end r > addr + length' then do {
           assert_that (vr_start r \<le> addr + length');
           st \<leftarrow> shrink_start r (addr + length') broadcast (vr_start r) st;
           Some (0, st)
         }
         else do { st \<leftarrow> unmap_whole r broadcast st; do_unmap_range addr length' st }
   }"

definition page_round_up :: "u64 \<Rightarrow> u64" where
  "page_round_up len = ((len + PAGE_SIZE - 1) div PAGE_SIZE) * PAGE_SIZE"

definition unmap_range :: "u64 \<Rightarrow> u64 \<Rightarrow> vm_state \<Rightarrow> (int \<times> vm_state) option" where
  "unmap_range addr length' st =
     (if addr mod PAGE_SIZE \<noteq> 0 then Some (- EINVAL, st)
      else if length' = 0 then Some (0, st)
      else do_unmap_range addr (page_round_up length') st)"

subsection \<open>Mapping\<close>

abbreviation (input) PROT_NONE :: u32 where "PROT_NONE \<equiv> 0"
abbreviation (input) PROT_EXEC :: u32 where "PROT_EXEC \<equiv> 1"
abbreviation (input) PROT_WRITE :: u32 where "PROT_WRITE \<equiv> 4"
abbreviation (input) MAP_FIXED :: u32 where "MAP_FIXED \<equiv> 4"
abbreviation (input) MAP_STACK :: u32 where "MAP_STACK \<equiv> 16"

partial_function (option) search_down :: "u64 \<Rightarrow> u64 \<Rightarrow> vm_state \<Rightarrow> u64 option" where
  "search_down len to_search st = do {
     found \<leftarrow> find_user_vm_region_in_range (to_search - len) to_search st;
     case found of None \<Rightarrow> Some to_search | Some r \<Rightarrow> search_down len (vr_start r) st
   }"

partial_function (option) search_up :: "u64 \<Rightarrow> u64 \<Rightarrow> vm_state \<Rightarrow> u64 option" where
  "search_up len to_search st = do {
     found \<leftarrow> find_user_vm_region_in_range to_search (to_search + len) st;
     case found of None \<Rightarrow> Some to_search
     | Some r \<Rightarrow> search_up len (vr_end r + 5 * PAGE_SIZE) st
   }"

text \<open>The address \<open>map_region\<close> settles on.\<close>

definition pick_address :: "u64 \<Rightarrow> u64 \<Rightarrow> u32 \<Rightarrow> u64 \<Rightarrow> vm_state \<Rightarrow> u64 option" where
  "pick_address addr len flags type st = do {
     let fixed = (flags AND MAP_FIXED \<noteq> 0);
     addr \<leftarrow> (if addr \<noteq> 0 \<and> \<not> fixed then do {
         found \<leftarrow> find_user_vm_region_in_range addr (addr + len) st;
         Some (if found \<noteq> None then 0 else addr)
       } else Some addr);
     if addr = 0 \<and> \<not> fixed then
       (if flags AND MAP_STACK \<noteq> 0 \<or> type = VM_TASK_STACK then do {
          stack \<leftarrow> find_vm_region VM_TASK_STACK st;
          r \<leftarrow> stack;
          to_search \<leftarrow> search_down len (vr_start r) st;
          Some (to_search - len)
        } else do {
          heap \<leftarrow> find_vm_region VM_PROCESS_HEAP st;
          search_up len (case heap of Some h \<Rightarrow> vr_end h + 0x10000000 | None \<Rightarrow> 0x10000000) st
        })
     else Some addr
   }"

definition map_region :: "u64 \<Rightarrow> u64 \<Rightarrow> u32 \<Rightarrow> u32 \<Rightarrow> u64 \<Rightarrow> vm_state \<Rightarrow> (vm_region \<times> vm_state) option" where
  "map_region addr len prot flags type st = do {
     let len = page_round_up len;
     addr \<leftarrow> pick_address addr len flags type st;
     let (to_add, st) = new_region st;
     let to_add = to_add\<lparr>vr_start := addr, vr_end := addr + len, vr_type := type,
       vr_flags := (if prot AND PROT_WRITE \<noteq> 0 then VM_WRITE else 0) OR
                   (if prot AND PROT_EXEC \<noteq> 0 then 0 else VM_NO_EXEC) OR
                   (if type = VM_TASK_STACK then VM_STACK else 0) OR VM_USER\<rparr>;
     (_, st) \<leftarrow> do_unmap_range addr len st;
     Some (to_add, st\<lparr>process_memory := add_vm_region (process_memory st) to_add\<rparr>)
   }"

subsection \<open>Protection\<close>

text \<open>The new flags are kept in an \<open>int\<close>: truncated to 32 bits, and sign extended when used.\<close>

definition protection_flags :: "u32 \<Rightarrow> u32" where
  "protection_flags prot =
     (if prot = PROT_NONE then ucast VM_PROT_NONE
      else ucast ((if prot AND PROT_WRITE \<noteq> 0 then VM_WRITE else 0) OR VM_USER OR
                  (if prot AND PROT_EXEC = 0 then VM_NO_EXEC else 0)))"

definition protected_flags :: "u64 \<Rightarrow> u32 \<Rightarrow> u64" where
  "protected_flags old flags = (old AND VM_STACK) OR scast flags"

definition can_split :: "vm_region \<Rightarrow> bool" where
  "can_split r \<longleftrightarrow> vr_type r = VM_PROCESS_ANON_MAPPING \<or> vr_type r = VM_TASK_STACK \<or> vr_type r = VM_TASK_STACK_GUARD"

partial_function (option) protect_end :: "addr \<Rightarrow> u64 \<Rightarrow> u64 \<Rightarrow> u64 \<Rightarrow> vm_state \<Rightarrow> vm_state option" where
  "protect_end rid addr flags e st =
     (if e \<noteq> addr
      then protect_end rid addr flags (e - PAGE_SIZE)
        (log_op (Map_Page_Flags (e - PAGE_SIZE) flags)
          (upd_user rid (\<lambda>r. r\<lparr>vr_end := e - PAGE_SIZE\<rparr>) st))
      else Some st)"

partial_function (option) protect_start :: "addr \<Rightarrow> u64 \<Rightarrow> u64 \<Rightarrow> u64 \<Rightarrow> vm_state \<Rightarrow> vm_state option" where
  "protect_start rid end' flags a st =
     (if a \<noteq> end'
      then protect_start rid end' flags (a + PAGE_SIZE)
        (upd_user rid (\<lambda>r. r\<lparr>vr_start := a + PAGE_SIZE\<rparr>) (log_op (Map_Page_Flags a flags) st))
      else Some st)"

definition add_user_region :: "vm_region \<Rightarrow> vm_state \<Rightarrow> vm_state" where
  "add_user_region r st = st\<lparr>process_memory := add_vm_region (process_memory st) r\<rparr>"

definition protect_split :: "vm_region \<Rightarrow> u64 \<Rightarrow> u64 \<Rightarrow> u32 \<Rightarrow> vm_state \<Rightarrow> vm_state option" where
  "protect_split r addr length' flags st = do {
     let (to_add, st) = new_region st;
     let to_add = to_add\<lparr>vr_start := addr, vr_end := addr + length',
       vr_flags := protected_flags (vr_flags r) flags, vr_type := vr_type r,
       vr_object_offset := vr_object_offset r, vr_object := vr_object r\<rparr>;
     objs \<leftarrow> bump_vm_object (vr_object to_add) (vm_objs st);
     let st = add_user_region to_add (st\<lparr>vm_objs := objs\<rparr>);
     st \<leftarrow> each_page addr (addr + length') (\<lambda>i. Map_Page_Flags i (vr_flags to_add)) st;
     let (to_add_last, st) = new_region st;
     let to_add_last = to_add_last\<lparr>vr_start := addr + length', vr_end := vr_end r, vr_flags := vr_flags r,
       vr_type := vr_type r, vr_object_offset := vr_object_offset to_add + addr - vr_start to_add,
       vr_object := vr_object r\<rparr>;
     objs \<leftarrow> bump_vm_object (vr_object to_add_last) (vm_objs st);
     let st = st\<lparr>vm_objs := objs\<rparr>;
     let st = upd_user (region_id r) (\<lambda>x. x\<lparr>
       vr_object_offset := vr_object_offset x + (vr_start x - vr_start to_add), vr_end := addr\<rparr>) st;
     Some (add_user_region to_add_last st)
   }"

definition protect_tail :: "vm_region \<Rightarrow> u64 \<Rightarrow> u32 \<Rightarrow> vm_state \<Rightarrow> vm_state option" where
  "protect_tail r addr flags st = do {
     let (to_add, st) = new_region st;
     let to_add = to_add\<lparr>vr_start := addr, vr_end := vr_end r,
       vr_flags := protected_flags (vr_flags r) flags, vr_type := vr_type r,
       vr_object_offset := vr_object_offset r + (addr - vr_start r), vr_object := vr_object r\<rparr>;
     objs \<leftarrow> bump_vm_object (vr_object to_add) (vm_objs st);
     st \<leftarrow> protect_end (region_id r) addr (vr_flags to_add) (vr_end r) (st\<lparr>vm_objs := objs\<rparr>);
     Some (add_user_region to_add st)
   }"

definition protect_head :: "vm_region \<Rightarrow> u64 \<Rightarrow> u32 \<Rightarrow> vm_state \<Rightarrow> vm_state option" where
  "protect_head r end' flags st = do {
     let (to_add, st) = new_region st;
     let to_add = to_add\<lparr>vr_start := vr_start r, vr_end := end',
       vr_flags := protected_flags (vr_flags r) flags, vr_type := vr_type r,
       vr_object_offset := vr_object_offset r, vr_object := vr_object r\<rparr>;
     objs \<leftarrow> bump_vm_object (vr_object to_add) (vm_objs st);
     st \<leftarrow> protect_start (region_id r) end' (vr_flags to_add) (vr_start r) (st\<lparr>vm_objs := objs\<rparr>);
     let st = upd_user (region_id r) (\<lambda>x. x\<lparr>vr_object_offset := vr_object_offset x + (vr_start x - vr_start to_add)\<rparr>) st;
     Some (add_user_region to_add st)
   }"

definition protect_whole :: "vm_region \<Rightarrow> u32 \<Rightarrow> vm_state \<Rightarrow> vm_state option" where
  "protect_whole r flags st = do {
     let new_flags = protected_flags (vr_flags r) flags;
     let st = upd_user (region_id r) (\<lambda>r. r\<lparr>vr_flags := new_flags\<rparr>) st;
     each_page (vr_start r) (vr_end r) (\<lambda>i. Map_Page_Flags i new_flags) st
   }"

partial_function (option) protect_range :: "u64 \<Rightarrow> u64 \<Rightarrow> u32 \<Rightarrow> vm_state \<Rightarrow> vm_state option" where
  "protect_range addr length' flags st = do {
     found \<leftarrow> find_user_vm_region_in_range addr (addr + length') st;
     case found of None \<Rightarrow> Some st
     | Some r \<Rightarrow>
         if vr_start r < addr \<and> vr_end r > addr + length' then
           (if \<not> can_split r then Some st else protect_split r addr length' flags st)
         else if vr_start r < addr then do {
           assert_that (vr_end r \<ge> addr);
           st \<leftarrow> protect_tail r addr flags st;
           protect_range (vr_end r) (length' - (vr_end r - addr)) flags st
         }
         else if vr_end r > addr + length' then do {
           assert_that (vr_start r \<le> addr + length');
           if \<not> can_split r then Some st else protect_head r (addr + length') flags st
         }
         else do {
           st \<leftarrow> protect_whole r flags st;
           protect_range (vr_end r) (length' - (vr_end r - addr)) flags st
         }
   }"

definition map_range_protections :: "u64 \<Rightarrow> u64 \<Rightarrow> u32 \<Rightarrow> vm_state \<Rightarrow> (int \<times> vm_state) option" where
  "map_range_protections addr length' prot st =
     (if addr mod PAGE_SIZE \<noteq> 0 then Some (- EINVAL, st)
      else if length' = 0 then Some (0, st)
      else do {
        st \<leftarrow> protect_range addr (page_round_up length') (protection_flags prot) st;
        Some (0, st)
      })"

subsection \<open>Forking\<close>

definition clone_region :: "vm_region \<Rightarrow> vm_region list \<times> vm_state \<Rightarrow> (vm_region list \<times> vm_state) option" where
  "clone_region region = (\<lambda>(new_list, st). do {
     let (blank, st) = new_region st;
     let to_add = region\<lparr>region_id := region_id blank\<rparr>;
     assert_that (vr_object to_add \<noteq> None \<or> vr_type to_add = VM_KERNEL_STACK);
     (to_add, st) \<leftarrow> (case vr_object to_add of None \<Rightarrow> Some (to_add, st)
       | Some a \<Rightarrow>
           if vr_flags to_add AND VM_SHARED \<noteq> 0 \<or> vr_flags to_add AND VM_WRITE = 0 then do {
             objs \<leftarrow> bump_vm_object (Some a) (vm_objs st);
             Some (to_add, st\<lparr>vm_objs := objs\<rparr>)
           } else do {
             let st = log_op (Mark_Region_As_Cow (region_id region)) st;
             c \<leftarrow> vm_clone_object a (vr_object_offset to_add) (vr_end to_add - vr_start to_add) (vm_objs st);
             Some (to_add\<lparr>vr_object := Some c, vr_object_offset := 0\<rparr>, st)
           });
     Some (add_vm_region new_list to_add, st)
   })"

definition clone_process_vm :: "vm_state \<Rightarrow> (vm_region list \<times> vm_state) option" where
  "clone_process_vm st = fold_opt clone_region (process_memory st) ([], st)"

subsection \<open>Kernel regions\<close>

text \<open>
  The last region before the kernel text, starting from the heap; linking the new region behind it
  writes the \<open>next\<close> field, and the new region's own \<open>next\<close> is NULL.
\<close>

fun upto_text :: "vm_region list \<Rightarrow> vm_region list" where
  "upto_text (vm # nxt # rs) =
     (if vr_type nxt \<noteq> VM_KERNEL_TEXT then vm # upto_text (nxt # rs) else [vm])"
| "upto_text rs = rs"

fun from_heap :: "vm_region list \<Rightarrow> (vm_region list \<times> vm_region list) option" where
  "from_heap [] = None"
| "from_heap (r # rs) =
     (if vr_type r \<noteq> VM_KERNEL_HEAP then do { (xs, ys) \<leftarrow> from_heap rs; Some (r # xs, ys) } else Some ([], r # rs))"

definition make_kernel_region :: "u64 \<Rightarrow> u64 \<Rightarrow> vm_state \<Rightarrow> (vm_region \<times> vm_state) option" where
  "make_kernel_region size' type st = do {
     let (region, st) = new_region st;
     st \<leftarrow> lock_kernel_vm st;
     (front, heap_on) \<leftarrow> from_heap (kernel_vm_list st);
     let kept = upto_text heap_on;
     let vm = last kept;
     let start = (if vr_type vm = VM_KERNEL_HEAP then vr_end vm + 1073741824 div 8 else vr_end vm);
     let region = region\<lparr>vr_flags := VM_WRITE OR VM_NO_EXEC, vr_start := start, vr_end := start + size',
                   vr_type := type\<rparr>;
     let st = st\<lparr>kernel_vm_list := front @ kept @ [region]\<rparr>;
     Some (region, unlock_kernel_vm st)
   }"

definition vm_allocate_kernel_region :: "u64 \<Rightarrow> vm_state \<Rightarrow> (vm_region \<times> vm_state) option" where
  "vm_allocate_kernel_region size' st = do {
     assert_that (size' mod PAGE_SIZE = 0);
     (region, st) \<leftarrow> make_kernel_region size' VM_KERNEL_ANON_MAPPING st;
     st \<leftarrow> each_page (vr_start region) (vr_end region)
       (\<lambda>s. Map_Page s (vr_flags region) Idle_Kernel_Process) st;
     Some (region, st)
   }"

text \<open>Walking to the region's predecessor runs into NULL if the region is not in the list behind another.\<close>

fun unlink_after :: "addr \<Rightarrow> vm_region list \<Rightarrow> vm_region list option" where
  "unlink_after rid (vm # nxt # rs) =
     (if region_id nxt = rid then Some (vm # rs)
      else do { rs \<leftarrow> unlink_after rid (nxt # rs); Some (vm # rs) })"
| "unlink_after rid rs = None"

definition do_vm_free_kernel_region :: "vm_region \<Rightarrow> bool \<Rightarrow> vm_state \<Rightarrow> vm_state option" where
  "do_vm_free_kernel_region region free_phys st = do {
     st \<leftarrow> lock_kernel_vm st;
     rs \<leftarrow> unlink_after (region_id region) (kernel_vm_list st);
     let st = st\<lparr>kernel_vm_list := rs\<rparr>;
     st \<leftarrow> (if free_phys
       then each_page (vr_start region) (vr_end region) (\<lambda>s. Unmap_Page s Idle_Kernel_Process) st
       else Some st);
     Some (unlock_kernel_vm st)
   }"

definition vm_free_kernel_region :: "vm_region \<Rightarrow> vm_state \<Rightarrow> vm_state option" where
  "vm_free_kernel_region region st = do {
     assert_that (vr_type region = VM_KERNEL_ANON_MAPPING);
     do_vm_free_kernel_region region True st
   }"

definition vm_reallocate_kernel_region ::
  "vm_region option \<Rightarrow> u64 \<Rightarrow> vm_state \<Rightarrow> (vm_region \<times> vm_state) option" where
  "vm_reallocate_kernel_region save new_size st = do {
     (kernel_region, st) \<leftarrow> vm_allocate_kernel_region new_size st;
     case save of None \<Rightarrow> Some (kernel_region, st)
     | Some s \<Rightarrow> do {
         let st = log_op (Copy_Memory (vr_start kernel_region) (vr_start s)
           (min new_size (vr_end s - vr_start s))) st;
         st \<leftarrow> vm_free_kernel_region s st;
         Some (kernel_region, st)
       }
   }"

partial_function (option) map_phys_pages :: "u64 \<Rightarrow> u64 \<Rightarrow> u64 \<Rightarrow> u64 \<Rightarrow> vm_state \<Rightarrow> vm_state option" where
  "map_phys_pages phys_addr addr end' flags st =
     (if addr < end'
      then map_phys_pages (phys_addr + PAGE_SIZE) (addr + PAGE_SIZE) end' flags
        (log_op (Map_Phys_Page phys_addr addr flags Initial_Kernel_Process) st)
      else Some st)"

definition vm_allocate_physically_mapped_kernel_region ::
  "u64 \<Rightarrow> u64 \<Rightarrow> vm_state \<Rightarrow> (vm_region \<times> vm_state) option" where
  "vm_allocate_physically_mapped_kernel_region phys_addr size' st = do {
     assert_that (phys_addr mod PAGE_SIZE = 0);
     let size' = ALIGN_UP size' PAGE_SIZE;
     (region, st) \<leftarrow> make_kernel_region size' VM_KERNEL_PHYS_MAPPING st;
     st \<leftarrow> map_phys_pages phys_addr (vr_start region) (vr_end region) (vr_flags region) st;
     Some (region, st)
   }"

definition vm_free_physically_mapped_kernel_region :: "vm_region \<Rightarrow> vm_state \<Rightarrow> vm_state option" where
  "vm_free_physically_mapped_kernel_region region st = do {
     assert_that (vr_type region = VM_KERNEL_PHYS_MAPPING);
     do_vm_free_kernel_region region False st
   }"

definition vm_allocate_kernel_vm :: "u64 \<Rightarrow> vm_state \<Rightarrow> (vm_region \<times> vm_state) option" where
  "vm_allocate_kernel_vm size' st = make_kernel_region size' VM_KERNEL_VM_MAPPING st"

definition vm_free_kernel_vm :: "vm_region \<Rightarrow> vm_state \<Rightarrow> vm_state option" where
  "vm_free_kernel_vm region st = do {
     assert_that (vr_type region = VM_KERNEL_VM_MAPPING);
     do_vm_free_kernel_region region False st
   }"

definition vm_allocate_low_identity_map :: "u64 \<Rightarrow> u64 \<Rightarrow> vm_state \<Rightarrow> (vm_region \<times> vm_state) option" where
  "vm_allocate_low_identity_map start size' st = do {
     assert_that (start + size' \<le> 0x100000);
     let (region, st) = new_region st;
     let region = region\<lparr>vr_flags := VM_WRITE, vr_start := start AND NOT (PAGE_SIZE - 1),
       vr_end := ((start + size' + PAGE_SIZE - 1) div PAGE_SIZE) * PAGE_SIZE, vr_type := VM_KERNEL_ID_MAPPING\<rparr>;
     st \<leftarrow> each_page (vr_start region) (vr_end region)
       (\<lambda>s. Map_Phys_Page s s (vr_flags region) Idle_Kernel_Process) st;
     Some (region, st)
   }"

definition vm_free_low_identity_map :: "vm_region \<Rightarrow> vm_state \<Rightarrow> vm_state option" where
  "vm_free_low_identity_map region st =
     each_page (vr_start region) (vr_end region)
       (\<lambda>s. Do_Unmap_Page s False True True Idle_Kernel_Process) st"

definition vm_allocate_dma_region :: "u64 \<Rightarrow> vm_state \<Rightarrow> (vm_region \<times> vm_state) option" where
  "vm_allocate_dma_region size' st = do {
     assert_that (size' mod PAGE_SIZE = 0);
     (region, st) \<leftarrow> make_kernel_region size' VM_KERNEL_DMA_MAPPING st;
     (phys_base, st) \<leftarrow> get_contiguous_pages (size' div PAGE_SIZE) st;
     st \<leftarrow> each_page (vr_start region) (vr_end region)
       (\<lambda>s. Map_Phys_Page (phys_base + s - vr_start region) s (vr_flags region) Idle_Kernel_Process) st;
     Some (region, st)
   }"

definition vm_free_dma_region :: "vm_region \<Rightarrow> vm_state \<Rightarrow> vm_state option" where
  "vm_free_dma_region region st = do {
     assert_that (vr_type region = VM_KERNEL_DMA_MAPPING);
     do_vm_free_kernel_region region True st
   }"

subsection \<open>Start-up\<close>

text \<open>The addresses the linker script sets; \<open>region_id\<close>s 1 to 6 are the static region variables.\<close>

record kernel_layout =
  KERNEL_VM_START :: u64
  KERNEL_TEXT_START :: u64
  KERNEL_TEXT_END :: u64
  KERNEL_ROD_START :: u64
  KERNEL_ROD_END :: u64
  KERNEL_DATA_START :: u64
  KERNEL_BSS_END :: u64

definition VIRT_ADDR :: "u64 \<Rightarrow> u64 \<Rightarrow> u64 \<Rightarrow> u64 \<Rightarrow> u64" where
  "VIRT_ADDR pml4 pdp pd pt =
     (if pml4 AND 0x100 \<noteq> 0 then push_bit 48 0xFFFF else 0) OR push_bit 39 (pml4 AND 0x1FF) OR
     push_bit 30 (pdp AND 0x1FF) OR push_bit 21 (pd AND 0x1FF) OR push_bit 12 (pt AND 0x1FF)"

definition static_region :: "addr \<Rightarrow> u64 \<Rightarrow> u64 \<Rightarrow> u64 \<Rightarrow> u64 \<Rightarrow> vm_region" where
  "static_region i start end' flags type = \<lparr>region_id = i, vr_start = start, vr_end = end', vr_flags = flags,
     vr_type = type, vr_object = None, vr_object_offset = 0\<rparr>"

definition init_vm_allocator :: "kernel_layout \<Rightarrow> boot_info \<Rightarrow> vm_state \<Rightarrow> vm_state option" where
  "init_vm_allocator ly bi st = do {
     let phys_id_start = VIRT_ADDR (512 - 2) 0 0 0;
     let kernel_phys_id = static_region 1 phys_id_start
       (phys_id_start + phys_memory_max (g_phys_page_stats st)) (VM_NO_EXEC OR VM_GLOBAL OR VM_WRITE) VM_KERNEL_PHYS_ID;
     let rs = add_vm_region (kernel_vm_list st) kernel_phys_id;
     assert_that (region_id (hd rs) = 1);
     let text_start = page_trunc (KERNEL_VM_START ly);
     let kernel_text = static_region 2 text_start
       (text_start + NUM_PAGES (KERNEL_TEXT_START ly) (KERNEL_TEXT_END ly) * PAGE_SIZE) VM_GLOBAL VM_KERNEL_TEXT;
     let rs = add_vm_region rs kernel_text;
     let kernel_rod = static_region 3 (vr_end kernel_text)
       (vr_end kernel_text + NUM_PAGES (KERNEL_ROD_START ly) (KERNEL_ROD_END ly) * PAGE_SIZE)
       (VM_GLOBAL OR VM_NO_EXEC) VM_KERNEL_ROD;
     let rs = add_vm_region rs kernel_rod;
     let kernel_data = static_region 4 (vr_end kernel_rod)
       (vr_end kernel_rod + NUM_PAGES (KERNEL_DATA_START ly) (KERNEL_BSS_END ly) * PAGE_SIZE)
       (VM_WRITE OR VM_GLOBAL OR VM_NO_EXEC) VM_KERNEL_DATA;
     let rs = add_vm_region rs kernel_data;
     let heap_start = VIRT_ADDR (512 - 1) 0 0 0;
     let initrd = static_region 5 heap_start
       (page_trunc (heap_start + initrd_phys_end bi - initrd_phys_start bi) + PAGE_SIZE)
       (VM_GLOBAL OR VM_NO_EXEC) VM_INITRD;
     let rs = add_vm_region rs initrd;
     let kernel_heap = static_region 6 (vr_end initrd) (vr_end initrd)
       (VM_WRITE OR VM_GLOBAL OR VM_NO_EXEC) VM_KERNEL_HEAP;
     let rs = add_vm_region rs kernel_heap;
     let st = log_op Bootstrap_Temp_Page_Mapping (st\<lparr>kernel_vm_list := rs\<rparr>);
     let st = log_op Clear_Initial_Page_Mappings st;
     st \<leftarrow> each_page (vr_start initrd) (vr_end initrd) (\<lambda>a.
       Map_Phys_Page (initrd_phys_start bi + (a - vr_start initrd)) a (vr_flags initrd) Idle_Kernel_Process) st;
     Some (foldl (\<lambda>st r. if vr_type r \<noteq> VM_KERNEL_PHYS_ID \<and> vr_type r \<noteq> VM_INITRD
         then log_op (Map_Vm_Region_Flags (region_id r)) st else st) st rs)
   }"

end
