(* ===== verification/Vm_Process.thy ===== *)
theory Vm_Process
  imports Vm_Allocator
begin

text \<open>
  What the allocator promises about the memory of a process. Every mapped address has a backing: the
  object and offset, the flags and the type of its region. The theory shows that unmapping removes
  exactly the backings of the range and unmaps exactly its pages, that mapping without a fixed address
  adds a range where nothing was mapped, and that every operation keeps the region list well formed;
  and it pins down the cases in which the bookkeeping goes wrong.
\<close>

section \<open>Well-formed process memory\<close>

abbreviation paged :: "u64 \<Rightarrow> bool" where
  "paged a \<equiv> 4096 dvd unat a"

definition refs :: "addr \<Rightarrow> vm_region list \<Rightarrow> nat" where
  "refs a rs = length (filter (\<lambda>r. vr_object r = Some a) rs)"

definition objs_ok :: "vm_region list \<Rightarrow> vm_objects \<Rightarrow> bool" where
  "objs_ok rs m \<longleftrightarrow>
     (\<forall>a. 0 < refs a rs \<longrightarrow> (\<exists>ob. objects m a = Some ob \<and> int (refs a rs) \<le> vo_ref_count ob))"

text \<open>
  The regions are ordered and apart, page aligned, have different addresses, and an object counts at
  least the regions that refer to it.
\<close>

definition user_ok :: "vm_state \<Rightarrow> bool" where
  "user_ok st \<longleftrightarrow> regions_ok (process_memory st) \<and> distinct (map region_id (process_memory st)) \<and>
     (\<forall>r \<in> set (process_memory st). region_id r < next_region_id st \<and> paged (vr_start r) \<and> paged (vr_end r)) \<and>
     objs_ok (process_memory st) (vm_objs st)"

lemma refs_simps [simp]:
  "refs a [] = 0" "refs a (r # rs) = (if vr_object r = Some a then Suc (refs a rs) else refs a rs)"
  "refs a (xs @ ys) = refs a xs + refs a ys"
  by (simp_all add: refs_def)

lemma refs_add [simp]: "refs a (add_vm_region rs t) = refs a (t # rs)"
  by (induction rs) auto

lemma ids_apart:
  assumes "distinct (map region_id (xs @ r # ys))" "x \<in> set xs \<union> set ys"
  shows "region_id x \<noteq> region_id r"
proof -
  have "region_id r \<notin> region_id ` (set xs \<union> set ys)" using assms(1) by (simp add: image_Un)
  then show ?thesis using assms(2) by (metis imageI)
qed

lemma upd_region_split:
  assumes "distinct (map region_id (xs @ r # ys))"
  shows "upd_region (region_id r) f (xs @ r # ys) = xs @ f r # ys"
  using ids_apart [OF assms] unfolding upd_region_def by (simp add: map_idI)

lemma filter_region_split:
  assumes "distinct (map region_id (xs @ r # ys))"
  shows "filter (\<lambda>x. region_id x \<noteq> region_id r) (xs @ r # ys) = xs @ ys"
  using ids_apart [OF assms] by (simp add: filter_id_conv)

lemma find_split:
  "List.find P xs = Some x \<Longrightarrow> \<exists>ys zs. xs = ys @ x # zs \<and> (\<forall>y \<in> set ys. \<not> P y) \<and> P x"
proof (induction xs)
  case (Cons z zs)
  show ?case
  proof (cases "P z")
    case True
    then have "z = x" using Cons.prems by simp
    then show ?thesis using True by (intro exI [of _ "[]"] exI [of _ zs]) simp
  next
    case False
    then have "List.find P zs = Some x" using Cons.prems by simp
    from Cons.IH [OF this] show ?thesis
      apply (elim exE)
      subgoal for ys ws using False by (intro exI [of _ "z # ys"] exI [of _ ws]) simp
      done
  qed
qed simp

subsection \<open>The logged loops over pages\<close>

lemma paged_room: "paged a \<Longrightarrow> unat a + 4096 \<le> 2 ^ 64"
proof -
  assume "paged a"
  then obtain k where k: "unat a = 4096 * k" by blast
  then have "4096 * k < 4096 * 2 ^ 52" using u64_bound [of a] by simp
  then have "k < 2 ^ 52" by (simp only: mult_less_cancel1)
  then show ?thesis using k by simp
qed

lemma paged_diff:
  assumes "paged a" "paged b" "a \<le> b"
  shows "\<exists>n. unat b = unat a + n * 4096"
proof -
  have "4096 dvd unat b - unat a" using assms by simp
  then obtain k where "unat b - unat a = 4096 * k" by blast
  then show ?thesis using assms(3) by (intro exI [of _ k]) (simp add: word_le_nat_alt)
qed

definition pages :: "u64 \<Rightarrow> nat \<Rightarrow> u64 list" where
  "pages a n = map (\<lambda>k. a + of_nat k * PAGE_SIZE) [0..<n]"

lemma pages_Suc: "pages a (Suc n) = a # pages (a + PAGE_SIZE) n"
proof -
  have "[0..<Suc n] = 0 # map Suc [0..<n]" by (simp add: upt_conv_Cons map_Suc_upt del: upt_Suc)
  then show ?thesis by (simp add: pages_def algebra_simps comp_def del: upt_Suc)
qed

lemma pages_snoc: "pages a (Suc n) = pages a n @ [a + of_nat n * PAGE_SIZE]"
  by (simp add: pages_def)

lemma unat_page:
  assumes "unat a + n * 4096 < 2 ^ 64"
  shows "unat (a + of_nat n * PAGE_SIZE) = unat a + n * 4096"
proof -
  have n: "unat (of_nat n :: u64) = n" using assms by (simp add: unat_of_nat take_bit_nat_eq_self_iff)
  have "unat (of_nat n * PAGE_SIZE) = n * 4096"
    using unat_mult_u64 [of "of_nat n" PAGE_SIZE] assms n by simp
  then show ?thesis using unat_add_u64 [of a "of_nat n * PAGE_SIZE"] assms by simp
qed

text \<open>The pages from a page address up to another are the page addresses in between.\<close>

lemma set_pages:
  assumes "paged a" "unat (b :: u64) = unat a + n * 4096"
  shows "set (pages a n) = {p. paged p \<and> unat a \<le> unat p \<and> unat p < unat b}"
proof -
  have lt: "unat a + k * 4096 < 2 ^ 64" if "k \<le> n" for k
  proof -
    have "k * 4096 \<le> n * 4096" using that by simp
    then show ?thesis using assms(2) u64_bound [of b] by simp
  qed
  have "\<exists>k<n. p = a + of_nat k * PAGE_SIZE"
    if p: "paged p" "unat a \<le> unat p" "unat p < unat b" for p
  proof -
    have "\<exists>k. unat p = unat a + k * 4096"
      using paged_diff [OF assms(1) p(1)] p(2) by (simp add: word_le_nat_alt)
    then obtain k where k: "unat p = unat a + k * 4096" by blast
    then have "k < n" using p(3) assms(2) by simp
    then have "unat p = unat (a + of_nat k * PAGE_SIZE)" using k unat_page lt by simp
    then show ?thesis using \<open>k < n\<close> by (metis unsigned_word_eqI)
  qed
  then have "{p. paged p \<and> unat a \<le> unat p \<and> unat p < unat b} \<subseteq> set (pages a n)"
    unfolding pages_def by (simp add: subset_iff image_iff Bex_def conj_commute)
  moreover
  have "paged (a + of_nat k * PAGE_SIZE) \<and> unat a \<le> unat (a + of_nat k * PAGE_SIZE) \<and>
      unat (a + of_nat k * PAGE_SIZE) < unat b" if "k < n" for k
    using unat_page [OF lt [of k]] that assms by simp
  then have "set (pages a n) \<subseteq> {p. paged p \<and> unat a \<le> unat p \<and> unat p < unat b}"
    unfolding pages_def by (simp add: image_subset_iff)
  ultimately show ?thesis by blast
qed

lemma each_page_log:
  assumes "unat hi = unat lo + n * 4096" "paged hi"
  shows "each_page lo hi f st = Some (st\<lparr>page_log := page_log st @ map f (pages lo n)\<rparr>)"
  using assms
proof (induction n arbitrary: lo st)
  case 0
  then have "\<not> lo < hi" by (simp add: word_less_nat_alt)
  then show ?case by (simp add: each_page.simps [of lo] pages_def)
next
  case (Suc n)
  have lo1: "unat (lo + PAGE_SIZE) = unat lo + 4096"
    using Suc.prems paged_room [of hi] unat_add_u64 [of lo PAGE_SIZE] by simp
  have lt: "lo < hi" using Suc.prems by (simp add: word_less_nat_alt)
  have "unat hi = unat (lo + PAGE_SIZE) + n * 4096" using Suc.prems(1) lo1 by simp
  from Suc.IH [OF this Suc.prems(2), of "log_op (f lo) st"]
  have "each_page (lo + PAGE_SIZE) hi f (log_op (f lo) st) =
      Some (st\<lparr>page_log := page_log st @ map f (pages lo (Suc n))\<rparr>)"
    by (simp add: pages_Suc log_op_def)
  then show ?case using lt by (subst each_page.simps) simp
qed

section \<open>Backings\<close>

text \<open>What backs each address: the object and the offset in it, the flags and the type.\<close>

definition region_backing :: "vm_region \<Rightarrow> (nat \<times> addr option \<times> u64 \<times> u64 \<times> u64) set" where
  "region_backing r =
     (\<lambda>x. (x, vr_object r, vr_object_offset r + of_nat x - vr_start r, vr_flags r, vr_type r)) ` region_addrs r"

definition backing :: "vm_region list \<Rightarrow> (nat \<times> addr option \<times> u64 \<times> u64 \<times> u64) set" where
  "backing rs = \<Union> (region_backing ` set rs)"

definition outside :: "nat set \<Rightarrow> (nat \<times> 'b) set \<Rightarrow> (nat \<times> 'b) set" where
  "outside A B = {b \<in> B. fst b \<notin> A}"

lemma backing_simps [simp]:
  "backing [] = {}" "backing (r # rs) = region_backing r \<union> backing rs"
  "backing (xs @ ys) = backing xs \<union> backing ys"
  "backing (add_vm_region rs t) = region_backing t \<union> backing rs"
  by (auto simp: backing_def)

lemma fst_region_backing: "fst ` region_backing r = region_addrs r"
  by (simp add: region_backing_def image_image)

lemma covered_backing: "covered rs = fst ` backing rs"
  by (simp add: covered_def backing_def image_UN fst_region_backing)

lemma outside_simps [simp]:
  "outside A (B \<union> C) = outside A B \<union> outside A C" "outside A {} = {}" "outside {} B = B"
  "outside A (outside A' B) = outside (A \<union> A') B"
  by (auto simp: outside_def)

lemma outside_apart:
  assumes "fst ` B \<inter> A = {}"
  shows "outside A B = B"
  using assms by (auto simp: outside_def)

lemma fst_outside: "fst ` outside A B = fst ` B - A"
  by (force simp: outside_def)

lemma backing_whole: "outside (region_addrs r) (region_backing r) = {}"
  by (auto simp: outside_def region_backing_def)

lemma backing_cut_end:
  assumes "addr \<le> vr_end r"
  shows "region_backing (r\<lparr>vr_end := addr\<rparr>) = outside {unat addr..<unat (vr_end r)} (region_backing r)"
  using assms unfolding outside_def region_backing_def region_addrs_def word_le_nat_alt by auto

lemma backing_cut_start:
  assumes "vr_start r \<le> a"
  shows "region_backing (r\<lparr>vr_start := a, vr_object_offset := vr_object_offset r + (a - vr_start r)\<rparr>) =
    outside {unat (vr_start r)..<unat a} (region_backing r)"
proof -
  have "region_addrs (r\<lparr>vr_start := a\<rparr>) = region_addrs r - {unat (vr_start r)..<unat a}"
    using assms unfolding region_addrs_def word_le_nat_alt by auto
  then show ?thesis by (auto simp: outside_def region_backing_def region_addrs_def)
qed

definition unmapped :: "page_op list \<Rightarrow> u64 set" where
  "unmapped ops = {a. \<exists>b c d p. Do_Unmap_Page a b c d p \<in> set ops}"

lemma unmapped_simps [simp]:
  "unmapped [] = {}" "unmapped (xs @ ys) = unmapped xs \<union> unmapped ys"
  "unmapped (map (\<lambda>i. Do_Unmap_Page i b c d p) ps) = set ps" "unmapped [Record_Memory_Map] = {}"
  "unmapped (rev xs) = unmapped xs"
  by (auto simp: unmapped_def image_iff)

text \<open>
  The state \<open>st'\<close> is the well-formed state \<open>st\<close> with the addresses \<open>A\<close> unmapped: nothing else changed
  its backing, and the pages unmapped are those of \<open>A\<close> that were mapped.
\<close>

definition unmaps :: "nat set \<Rightarrow> vm_state \<Rightarrow> vm_state \<Rightarrow> bool" where
  "unmaps A st st' \<longleftrightarrow> user_ok st' \<and>
     backing (process_memory st') = outside A (backing (process_memory st)) \<and>
     (\<exists>ops. page_log st' = page_log st @ ops \<and>
       unmapped ops = {p. paged p \<and> unat p \<in> covered (process_memory st) \<inter> A})"

lemma unmaps_trans:
  assumes "unmaps A st st1" "unmaps B st1 st2"
  shows "unmaps (A \<union> B) st st2"
proof -
  obtain ops where ops: "page_log st1 = page_log st @ ops"
    "unmapped ops = {p. paged p \<and> unat p \<in> covered (process_memory st) \<inter> A}"
    using assms(1) unfolding unmaps_def by blast
  obtain ops' where ops': "page_log st2 = page_log st1 @ ops'"
    "unmapped ops' = {p. paged p \<and> unat p \<in> covered (process_memory st1) \<inter> B}"
    using assms(2) unfolding unmaps_def by blast
  have "covered (process_memory st1) = covered (process_memory st) - A"
    using assms(1) unfolding covered_backing unmaps_def by (simp add: fst_outside)
  then have "unmapped (ops @ ops') = {p. paged p \<and> unat p \<in> covered (process_memory st) \<inter> (A \<union> B)}"
    using ops(2) ops'(2) by auto
  then show ?thesis using assms ops(1) ops'(1) by (auto simp: unmaps_def Un_commute)
qed

lemma unmaps_none:
  assumes "user_ok st" "covered (process_memory st) \<inter> A = {}"
  shows "unmaps A st st"
  using assms outside_apart [of "backing (process_memory st)" A] by (simp add: unmaps_def covered_backing)

lemma region_alone:
  assumes "regions_ok (xs @ r # ys)"
  shows "covered (xs @ ys) \<inter> region_addrs r = {}"
  using region_apart [OF assms] by auto

text \<open>Replacing one region by what is left of it.\<close>

lemma unmaps_replace:
  assumes "regions_ok (process_memory st)" "process_memory st = xs @ r # ys" "user_ok st'"
    and "process_memory st' = xs @ rest @ ys" "backing rest = outside A (region_backing r)"
    and "A \<subseteq> region_addrs r" "page_log st' = page_log st @ ops" "unmapped ops = {p. paged p \<and> unat p \<in> A}"
  shows "unmaps A st st'"
proof -
  have "covered (xs @ ys) \<inter> A = {}" using region_alone assms(1,2,6) by fastforce
  then have "outside A (backing (xs @ ys)) = backing (xs @ ys)" 
    unfolding covered_backing by (rule outside_apart)
  then have "backing (process_memory st') = outside A (backing (process_memory st))"
    using assms(2,4,5) by auto
  moreover have "covered (process_memory st) \<inter> A = A" using assms(2,6) by auto
  ultimately show ?thesis using assms(3,7,8) by (auto simp: unmaps_def)
qed

section \<open>Unmapping\<close>

text \<open>Keeping the invariant when a region is shortened.\<close>

lemma user_ok_replace:
  assumes ok: "user_ok st" and pm: "process_memory st = xs @ r # ys" "process_memory st' = xs @ r' # ys"
    and "vm_objs st' = vm_objs st" "next_region_id st' = next_region_id st"
    and "region_id r' = region_id r" "vr_object r' = vr_object r"
    and "vr_start r \<le> vr_start r'" "vr_start r' \<le> vr_end r'" "vr_end r' \<le> vr_end r"
    and "paged (vr_start r')" "paged (vr_end r')"
  shows "user_ok st'"
proof -
  have rs: "regions_ok (xs @ r # ys)" using ok pm(1) by (simp add: user_ok_def)
  note nb = neighbours [OF rs]
  have "regions_ok (xs @ r' # ys)"
    by (rule regions_ok_replace [OF rs]) (use nb assms in \<open>auto dest: order_trans\<close>)
  moreover have "refs a (xs @ r' # ys) = refs a (xs @ r # ys)" for a using assms(7) by simp
  ultimately show ?thesis using assms by (simp add: user_ok_def objs_ok_def)
qed

lemma shrink_end_steps:
  assumes "unat e = unat addr + n * 4096" "distinct (map region_id (xs @ x # ys))"
    and "process_memory st = xs @ x # ys" "region_id x = region_id r" "vr_end x = e"
  shows "shrink_end r addr b e st = Some (st\<lparr>process_memory := xs @ x\<lparr>vr_end := addr\<rparr> # ys,
    page_log := page_log st @ map (\<lambda>p. Do_Unmap_Page p (vr_object r = None) True b Current_Process) (rev (pages addr n))\<rparr>)"
  using assms
proof (induction n arbitrary: e x st)
  case 0
  then have "e = addr" by (simp add: unsigned_word_eqI)
  moreover have "x\<lparr>vr_end := vr_end x\<rparr> = x" "st\<lparr>process_memory := process_memory st\<rparr> = st" by simp_all
  ultimately show ?case using "0.prems" by (subst shrink_end.simps) (simp add: pages_def)
next
  case (Suc n)
  let ?e = "e - PAGE_SIZE"
  let ?st = "log_op (Do_Unmap_Page ?e (vr_object r = None) True b Current_Process)
    (upd_user (region_id r) (\<lambda>r. r\<lparr>vr_end := ?e\<rparr>) st)"
  have e: "unat ?e = unat addr + n * 4096"
    using Suc.prems(1) unat_sub_u64 [of PAGE_SIZE e] by (simp add: word_le_nat_alt)
  have pm: "process_memory ?st = xs @ x\<lparr>vr_end := ?e\<rparr> # ys"
    using upd_region_split [OF Suc.prems(2)] Suc.prems(3,4) by (simp add: log_op_def upd_user_def)
  have last: "addr + of_nat n * PAGE_SIZE = ?e"
    using unat_page [of addr n] e u64_bound [of ?e] by (intro iffD2 [OF word_unat_eq_iff]) simp
  have "shrink_end r addr b ?e ?st = Some (?st\<lparr>process_memory := xs @ x\<lparr>vr_end := addr\<rparr> # ys,
    page_log := page_log ?st @ map (\<lambda>p. Do_Unmap_Page p (vr_object r = None) True b Current_Process) (rev (pages addr n))\<rparr>)"
    using Suc.IH [OF e _ pm] Suc.prems by simp
  moreover have "e \<noteq> addr" using Suc.prems(1) by auto
  ultimately show ?case
    by (subst shrink_end.simps) (simp add: pages_snoc last log_op_def upd_user_def)
qed

lemma shrink_start_steps:
  assumes "unat e = unat a + n * 4096" "distinct (map region_id (xs @ x # ys))"
    and "process_memory st = xs @ x # ys" "region_id x = region_id r" "vr_start x = a"
  shows "shrink_start r e b a st = Some (st\<lparr>
    process_memory := xs @ x\<lparr>vr_start := e, vr_object_offset := vr_object_offset x + (e - a)\<rparr> # ys,
    page_log := page_log st @ map (\<lambda>p. Do_Unmap_Page p (vr_object r = None) b True Current_Process) (pages a n)\<rparr>)"
  using assms
proof (induction n arbitrary: a x st)
  case 0
  then have "e = a" by (simp add: unsigned_word_eqI)
  moreover have "x\<lparr>vr_start := vr_start x\<rparr> = x" "st\<lparr>process_memory := process_memory st\<rparr> = st" by simp_all
  ultimately show ?case using "0.prems" by (subst shrink_start.simps) (simp add: pages_def)
next
  case (Suc n)
  let ?a = "a + PAGE_SIZE"
  let ?x = "x\<lparr>vr_start := ?a, vr_object_offset := vr_object_offset x + PAGE_SIZE\<rparr>"
  let ?st = "upd_user (region_id r)
          (\<lambda>r. r\<lparr>vr_start := a + PAGE_SIZE, vr_object_offset := vr_object_offset r + PAGE_SIZE\<rparr>)
          (log_op (Do_Unmap_Page a (vr_object r = None) b True Current_Process) st)"
  have "unat ?a = unat a + 4096"
    using Suc.prems(1) unat_add_u64 [of a PAGE_SIZE] u64_bound [of e] by simp
  then have e: "unat e = unat ?a + n * 4096" using Suc.prems(1) by simp
  have pm: "process_memory ?st = xs @ ?x # ys"
    using upd_region_split [OF Suc.prems(2)] Suc.prems(3,4) by (simp add: log_op_def upd_user_def)
  have "shrink_start r e b ?a ?st = Some (?st\<lparr>
      process_memory := xs @ ?x\<lparr>vr_start := e, vr_object_offset := vr_object_offset ?x + (e - ?a)\<rparr> # ys,
      page_log := page_log ?st @ map (\<lambda>p. Do_Unmap_Page p (vr_object r = None) b True Current_Process) (pages ?a n)\<rparr>)"
    using Suc.IH [OF e _ pm] Suc.prems by simp
  moreover have "a \<noteq> e" using Suc.prems(1) by auto
  ultimately show ?case
    by (subst shrink_start.simps) (simp add: pages_Suc log_op_def upd_user_def)
qed

lemma shrink_end_unmaps:
  assumes ok: "user_ok st" and pm: "process_memory st = xs @ r # ys"
    and "paged addr" "vr_start r \<le> addr" "addr \<le> vr_end r"
  shows "\<exists>st'. shrink_end r addr b (vr_end r) st = Some st' \<and> unmaps {unat addr..<unat (vr_end r)} st st' \<and>
    process_memory st' = xs @ r\<lparr>vr_end := addr\<rparr> # ys"
proof -
  have r: "paged (vr_start r)" "paged (vr_end r)" and ids: "distinct (map region_id (xs @ r # ys))"
    and rs: "regions_ok (process_memory st)"
    using ok pm by (simp_all add: user_ok_def)
  obtain n where n: "unat (vr_end r) = unat addr + n * 4096" using paged_diff [of addr "vr_end r"] assms r by blast
  let ?ops = "map (\<lambda>p. Do_Unmap_Page p (vr_object r = None) True b Current_Process) (rev (pages addr n))"
  let ?st = "st\<lparr>process_memory := xs @ r\<lparr>vr_end := addr\<rparr> # ys, page_log := page_log st @ ?ops\<rparr>"
  have "unmapped ?ops = {p. paged p \<and> unat p \<in> {unat addr..<unat (vr_end r)}}"
    using set_pages [OF assms(3) n] by (simp add: rev_map [symmetric])
  moreover have "user_ok ?st" by (rule user_ok_replace [OF ok pm, of _ "r\<lparr>vr_end := addr\<rparr>"]) (use assms r in auto)
  moreover have "{unat addr..<unat (vr_end r)} \<subseteq> region_addrs r"
    using assms(4) by (auto simp: region_addrs_def word_le_nat_alt)
  ultimately have "unmaps {unat addr..<unat (vr_end r)} st ?st"
    by (intro unmaps_replace [OF rs pm, of _ "[r\<lparr>vr_end := addr\<rparr>]" _ ?ops])
      (simp_all add: backing_cut_end [OF assms(5)])
  then show ?thesis using shrink_end_steps [OF n ids pm refl refl, of b] by simp
qed

lemma shrink_start_unmaps:
  assumes ok: "user_ok st" and pm: "process_memory st = xs @ r # ys"
    and "paged e" "vr_start r \<le> e" "e \<le> vr_end r"
  shows "\<exists>st'. shrink_start r e b (vr_start r) st = Some st' \<and> unmaps {unat (vr_start r)..<unat e} st st'"
proof -
  have r: "paged (vr_start r)" "paged (vr_end r)" and ids: "distinct (map region_id (xs @ r # ys))"
    and rs: "regions_ok (process_memory st)"
    using ok pm by (simp_all add: user_ok_def)
  obtain n where n: "unat e = unat (vr_start r) + n * 4096" using paged_diff [of "vr_start r" e] assms r by blast
  let ?ops = "map (\<lambda>p. Do_Unmap_Page p (vr_object r = None) b True Current_Process) (pages (vr_start r) n)"
  let ?r = "r\<lparr>vr_start := e, vr_object_offset := vr_object_offset r + (e - vr_start r)\<rparr>"
  let ?st = "st\<lparr>process_memory := xs @ ?r # ys, page_log := page_log st @ ?ops\<rparr>"
  have "unmapped ?ops = {p. paged p \<and> unat p \<in> {unat (vr_start r)..<unat e}}"
    using set_pages [OF r(1) n] by simp
  moreover have "user_ok ?st" by (rule user_ok_replace [OF ok pm, of _ ?r]) (use assms r in auto)
  moreover have "{unat (vr_start r)..<unat e} \<subseteq> region_addrs r"
    using assms(5) by (auto simp: region_addrs_def word_le_nat_alt)
  ultimately have "unmaps {unat (vr_start r)..<unat e} st ?st"
    by (intro unmaps_replace [OF rs pm, of _ "[?r]" _ ?ops])
      (simp_all add: backing_cut_start [OF assms(4)])
  then show ?thesis using shrink_start_steps [OF n ids pm refl refl, of b] by simp
qed

lemma drop_objs_ok:
  assumes "objs_ok (xs @ r # ys) m" "vr_object r = Some a"
  shows "\<exists>m'. drop_vm_object a m = Some m' \<and> objs_ok (xs @ ys) m'"
proof -
  have "0 < refs a (xs @ r # ys)" using assms(2) by simp
  then obtain ob where ob: "objects m a = Some ob" "int (refs a (xs @ r # ys)) \<le> vo_ref_count ob"
    using assms(1) unfolding objs_ok_def by blast
  then have count: "1 + int (refs a (xs @ ys)) \<le> vo_ref_count ob" using assms(2) by simp
  have others: "\<exists>ob. objects m x = Some ob \<and> int (refs x (xs @ ys)) \<le> vo_ref_count ob"
    if "0 < refs x (xs @ ys)" "x \<noteq> a" for x
    using assms that unfolding objs_ok_def by (auto dest!: spec [of _ x])
  show ?thesis
  proof (cases "vo_ref_count ob = 1")
    case True
    then have "refs a (xs @ ys) = 0" using count by simp
    then show ?thesis using others True ob(1) by (auto simp: drop_vm_object_def objs_ok_def)
  next
    case False
    then show ?thesis using others count ob(1) by (auto simp: drop_vm_object_def objs_ok_def)
  qed
qed

lemma unmap_whole_unmaps:
  assumes ok: "user_ok st" and pm: "process_memory st = xs @ r # ys"
  shows "\<exists>st'. unmap_whole r b st = Some st' \<and> unmaps (region_addrs r) st st' \<and> process_memory st' = xs @ ys"
proof -
  have r: "paged (vr_start r)" "paged (vr_end r)" "vr_start r \<le> vr_end r"
    and ids: "distinct (map region_id (xs @ r # ys))" and rs: "regions_ok (process_memory st)"
    and objs: "objs_ok (xs @ r # ys) (vm_objs st)"
    using ok pm by (simp_all add: user_ok_def regions_ok_append)
  obtain n where n: "unat (vr_end r) = unat (vr_start r) + n * 4096" using paged_diff r by blast
  let ?unmap = "\<lambda>p. Do_Unmap_Page p (vr_object r = None) True b Current_Process"
  let ?ops = "map ?unmap (pages (vr_start r) n)"
  have ops: "unmapped ?ops = {p. paged p \<and> unat p \<in> region_addrs r}"
    using set_pages [OF r(1) n] by (simp add: region_addrs_def)
  have *: "unmaps (region_addrs r) st st'"
    if "process_memory st' = xs @ ys" "page_log st' = page_log st @ ?ops @ ops'" "unmapped ops' = {}"
      "objs_ok (xs @ ys) (vm_objs st')" "next_region_id st' = next_region_id st" for st' ops'
  proof (rule unmaps_replace [OF rs pm, of _ "[]" _ "?ops @ ops'"])
    show "user_ok st'" using ok pm that by (auto simp: user_ok_def regions_ok_append)
  qed (use that ops in \<open>simp_all add: backing_whole\<close>)
  obtain m where m: "(case vr_object r of None \<Rightarrow> Some st
       | Some a \<Rightarrow> do { objs \<leftarrow> drop_vm_object a (vm_objs st); Some (st\<lparr>vm_objs := objs\<rparr>) }) = Some (st\<lparr>vm_objs := m\<rparr>)"
    "objs_ok (xs @ ys) m"
  proof (cases "vr_object r")
    case None
    then have "refs a (xs @ r # ys) = refs a (xs @ ys)" for a by simp
    then show ?thesis using None objs that [of "vm_objs st"] by (simp add: objs_ok_def)
  next
    case (Some a)
    then show ?thesis using drop_objs_ok [OF objs Some] that by auto
  qed
  obtain imp where imp: "(case vr_object r of None \<Rightarrow> Some False
       | Some a \<Rightarrow> do { ob \<leftarrow> objects (vm_objs st) a;
                       Some (vr_flags r AND VM_NO_EXEC = 0 \<and> vo_type ob = VM_INODE) }) = Some imp"
    using m(1) by (cases "vr_object r") (auto simp: drop_vm_object_def split: bind_splits)
  let ?st = "st\<lparr>vm_objs := m, page_log := page_log st @ ?ops, process_memory := xs @ ys\<rparr>"
  have "unmap_whole r b st = Some (if imp \<and> should_profile st then log_op Record_Memory_Map ?st else ?st)"
    using filter_region_split [OF ids] pm
    by (simp add: unmap_whole_def imp m(1) each_page_log [OF n r(2)] Let_def)
  then show ?thesis
    using * [of ?st "[]"] * [of "log_op Record_Memory_Map ?st" "[Record_Memory_Map]"] m(2)
    by (auto simp: log_op_def)
qed

subsection \<open>A whole range\<close>

lemma not_in_range_apart:
  assumes "\<not> in_range a e r"
  shows "region_addrs r \<inter> {unat a..<unat e} = {}"
  using assms unfolding in_range_def region_addrs_def word_le_nat_alt word_less_nat_alt
  by (auto simp: disjoint_iff)

lemma not_in_range_covered:
  "(\<forall>r \<in> set rs. \<not> in_range a e r) \<Longrightarrow> covered rs \<inter> {unat a..<unat e} = {}"
  unfolding covered_def using not_in_range_apart by fastforce

lemma find_in_range:
  "a < e \<Longrightarrow> find_user_vm_region_in_range a e st = Some (List.find (in_range a e) (process_memory st))"
  by (auto simp: find_user_vm_region_in_range_def)

text \<open>Only the mapped part of the range matters.\<close>

lemma unmaps_cong:
  assumes "unmaps A st st'" "covered (process_memory st) \<inter> A = covered (process_memory st) \<inter> B"
  shows "unmaps B st st'"
proof -
  have "outside A (backing (process_memory st)) = outside B (backing (process_memory st))"
    using assms(2) unfolding covered_backing outside_def by fastforce
  then show ?thesis using assms by (simp add: unmaps_def)
qed

text \<open>The first region found decides what a round does.\<close>

lemma do_unmap_empty: "do_unmap_range a 0 st = Some (0, st)"
  by (subst do_unmap_range.simps) (simp add: find_user_vm_region_in_range_def Let_def)

lemma do_unmap_none:
  assumes "a < e" "List.find (in_range a e) (process_memory st) = None"
  shows "do_unmap_range a (e - a) st = Some (0, st)"
  using assms by (subst do_unmap_range.simps) (simp add: find_in_range)

lemma do_unmap_from_start:
  assumes "a < e" "List.find (in_range a e) (process_memory st) = Some r" "\<not> vr_start r < a" "vr_start r \<le> e" "vr_end r > e"
  shows "do_unmap_range a (e - a) st =
    map_option (Pair 0) (shrink_start r e (process_ref_count st > 1) (vr_start r) st)"
  using assms by (subst do_unmap_range.simps) (simp add: find_in_range Let_def map_conv_bind_option comp_def)

lemma do_unmap_all:
  assumes "a < e" "List.find (in_range a e) (process_memory st) = Some r" "\<not> vr_start r < a" "\<not> vr_end r > e"
  shows "do_unmap_range a (e - a) st =
    Option.bind (unmap_whole r (process_ref_count st > 1) st) (do_unmap_range a (e - a))"
  using assms by (subst do_unmap_range.simps) (simp add: find_in_range Let_def)

lemma do_unmap_to_end:
  assumes "a < e" "List.find (in_range a e) (process_memory st) = Some r" "vr_start r < a" "\<not> vr_end r > e" "vr_end r \<ge> a"
  shows "do_unmap_range a (e - a) st =
    Option.bind (shrink_end r a (process_ref_count st > 1) (vr_end r) st) (do_unmap_range (vr_end r) (e - vr_end r))"
  using assms by (subst do_unmap_range.simps) (simp add: find_in_range Let_def)

lemma found_from:
  assumes "List.find (in_range a e) rs = Some r" "regions_ok rs" "a < e"
    and "\<forall>r \<in> set rs. \<not> (vr_start r < a \<and> a < vr_end r)"
  shows "\<not> vr_start r < a" "vr_start r \<le> e" "\<exists>xs ys. rs = xs @ r # ys \<and> (\<forall>x \<in> set xs. \<not> in_range a e x)"
proof -
  obtain xs ys where rs: "rs = xs @ r # ys" "\<forall>x \<in> set xs. \<not> in_range a e x" "in_range a e r"
    using find_split [OF assms(1)] by blast
  then have "\<not> (vr_start r < a \<and> a < vr_end r)" using assms(4) by simp
  then show "\<not> vr_start r < a" using rs(3) assms(3) unfolding in_range_def by auto
  have "vr_start r \<le> vr_end r" using assms(2) rs(1) by (simp add: regions_ok_append)
  then show "vr_start r \<le> e" using rs(3) assms(3) unfolding in_range_def by auto
  show "\<exists>xs ys. rs = xs @ r # ys \<and> (\<forall>x \<in> set xs. \<not> in_range a e x)" using rs by blast
qed

text \<open>The last region of the range: everything of the range that is mapped belongs to it.\<close>

lemma unmap_last_region:
  assumes ok: "user_ok st" and pm: "process_memory st = xs @ r # ys" and e: "paged e"
    and xs: "\<forall>x \<in> set xs. \<not> in_range a e x" and r: "a \<le> vr_start r" "vr_start r \<le> e" "e < vr_end r"
  shows "\<exists>st'. shrink_start r e b (vr_start r) st = Some st' \<and> unmaps {unat a..<unat e} st st'"
proof -
  obtain st' where st': "shrink_start r e b (vr_start r) st = Some st'" "unmaps {unat (vr_start r)..<unat e} st st'"
    using shrink_start_unmaps [OF ok pm e r(2) less_imp_le [OF r(3)], of b] by blast
  have rs: "regions_ok (xs @ r # ys)" using ok pm by (simp add: user_ok_def)
  have "covered xs \<inter> {unat a..<unat e} = {}" using xs by (rule not_in_range_covered)
  moreover have "covered ys \<inter> {unat a..<unat e} = {}"
  proof -
    have "unat e < unat (vr_start y)" if "y \<in> set ys" for y
      using rs r(3) that by (auto simp: regions_ok_append word_le_nat_alt word_less_nat_alt)
    then show ?thesis by (fastforce simp: covered_def region_addrs_def)
  qed
  ultimately have "covered (process_memory st) \<inter> {unat (vr_start r)..<unat e} =
      covered (process_memory st) \<inter> {unat a..<unat e}"
    using r(1) by (auto simp: pm region_addrs_def word_le_nat_alt)
  then show ?thesis using st' unmaps_cong by blast
qed

text \<open>No region reaches into the range from below: regions are removed one by one, and the last shortened.\<close>

lemma do_unmap_clean:
  assumes "user_ok st" "paged a" "paged e" "a < e"
    and "\<forall>r \<in> set (process_memory st). \<not> (vr_start r < a \<and> a < vr_end r)"
  shows "\<exists>st'. do_unmap_range a (e - a) st = Some (0, st') \<and> unmaps {unat a..<unat e} st st'"
  using assms
proof (induction "length (process_memory st)" arbitrary: st rule: less_induct)
  case less
  note ok = less.prems(1) and lt = less.prems(4)
  have rs: "regions_ok (process_memory st)" using ok by (simp add: user_ok_def)
  show ?case
  proof (cases "List.find (in_range a e) (process_memory st)")
    case None
    then have "unmaps {unat a..<unat e} st st"
      by (intro unmaps_none [OF ok] not_in_range_covered) (simp add: find_None_iff)
    then show ?thesis using do_unmap_none [OF lt None] by blast
  next
    case (Some r)
    note start = found_from(1,2) [OF Some rs lt less.prems(5)]
    obtain xs ys where pm: "process_memory st = xs @ r # ys" and xs: "\<forall>x \<in> set xs. \<not> in_range a e x"
      using found_from(3) [OF Some rs lt less.prems(5)] by blast
    show ?thesis
    proof (cases "vr_end r > e")
      case True
      show ?thesis
        using unmap_last_region [OF ok pm less.prems(3) xs _ start(2) True] start(1)
        by (auto simp: do_unmap_from_start [OF lt Some start True])
    next
      case False
      let ?b = "process_ref_count st > 1"
      obtain st1 where st1: "unmap_whole r ?b st = Some st1" "unmaps (region_addrs r) st st1"
        "process_memory st1 = xs @ ys" using unmap_whole_unmaps [OF ok pm, of ?b] by blast
      have "user_ok st1" using st1(2) by (simp add: unmaps_def)
      then obtain st' where st': "do_unmap_range a (e - a) st1 = Some (0, st')" "unmaps {unat a..<unat e} st1 st'"
        using less.hyps [of st1] less.prems(2-5) st1(3) pm by auto
      have "region_addrs r \<union> {unat a..<unat e} = {unat a..<unat e}"
        using start(1) False by (auto simp: region_addrs_def word_less_nat_alt)
      then have "unmaps {unat a..<unat e} st st'" using unmaps_trans [OF st1(2) st'(2)] by simp
      then show ?thesis using st1(1) st'(1) by (simp add: do_unmap_all [OF lt Some start(1) False])
    qed
  qed
qed

lemma find_at:
  "(\<forall>x \<in> set xs. \<not> P x) \<Longrightarrow> P r \<Longrightarrow> List.find P (xs @ r # ys) = Some r"
  by (induction xs) auto

text \<open>A region that reaches into the range from below is found first.\<close>

lemma find_reaching:
  assumes rs: "regions_ok (xs @ r # ys)" and "vr_start r < a" "a < vr_end r" "a < e"
  shows "List.find (in_range a e) (xs @ r # ys) = Some r"
proof (rule find_at)
  show "in_range a e r" using assms by (auto simp: in_range_def)
  show "\<forall>x \<in> set xs. \<not> in_range a e x"
  proof
    fix x assume "x \<in> set xs"
    then have "vr_start x \<le> vr_end x" "vr_end x \<le> vr_start r"
      using rs by (auto simp: regions_ok_def sorted_wrt_append)
    then have "vr_start x < a" "vr_end x < a" using assms(2) by auto
    then show "\<not> in_range a e x" using assms(4) unfolding in_range_def by auto
  qed
qed

lemma do_unmap_exact:
  assumes ok: "user_ok st" and a: "paged a" and e: "paged e" and lt: "a < e"
    and out: "\<forall>r \<in> set (process_memory st). \<not> (vr_start r < a \<and> e < vr_end r)"
  shows "\<exists>st'. do_unmap_range a (e - a) st = Some (0, st') \<and> unmaps {unat a..<unat e} st st'"
proof (cases "\<exists>r \<in> set (process_memory st). vr_start r < a \<and> a < vr_end r")
  case False
  then show ?thesis using do_unmap_clean [OF ok a e lt] by blast
next
  case True
  then obtain r xs ys where r: "vr_start r < a" "a < vr_end r" and pm: "process_memory st = xs @ r # ys"
    by (meson split_list)
  have rs: "regions_ok (xs @ r # ys)" using ok pm by (simp add: user_ok_def)
  have found: "List.find (in_range a e) (process_memory st) = Some r"
    unfolding pm by (rule find_reaching [OF rs r lt])
  have end_le: "\<not> vr_end r > e" using out pm r by auto
  let ?b = "process_ref_count st > 1"
  obtain st1 where st1: "shrink_end r a ?b (vr_end r) st = Some st1" "unmaps {unat a..<unat (vr_end r)} st st1"
    "process_memory st1 = xs @ r\<lparr>vr_end := a\<rparr> # ys"
    using shrink_end_unmaps [OF ok pm a less_imp_le [OF r(1)] less_imp_le [OF r(2)], of ?b] by blast
  have clean: "\<forall>x \<in> set (process_memory st1). \<not> (vr_start x < vr_end r \<and> vr_end r < vr_end x)"
    using rs r unfolding st1(3) by (auto simp: regions_ok_append)
  have "paged (vr_end r)" "user_ok st1" using ok pm st1(2) by (simp_all add: user_ok_def unmaps_def)
  then have "\<exists>st'. do_unmap_range (vr_end r) (e - vr_end r) st1 = Some (0, st') \<and>
      unmaps {unat (vr_end r)..<unat e} st1 st'"
    using do_unmap_clean [of st1 "vr_end r" e] clean e end_le
    by (cases "vr_end r = e") (auto simp: do_unmap_empty unmaps_none)
  then obtain st' where st': "do_unmap_range (vr_end r) (e - vr_end r) st1 = Some (0, st')"
    "unmaps {unat (vr_end r)..<unat e} st1 st'" by blast
  have "{unat a..<unat (vr_end r)} \<union> {unat (vr_end r)..<unat e} = {unat a..<unat e}"
    using r(2) end_le by (auto simp: word_less_nat_alt)
  then have "unmaps {unat a..<unat e} st st'" using unmaps_trans [OF st1(2) st'(2)] by simp
  then show ?thesis
    using st1(1) st'(1) by (simp add: do_unmap_to_end [OF lt found r(1) end_le less_imp_le [OF r(2)]])
qed

lemma page_round_up:
  assumes "unat len + 4095 < 2 ^ 64"
  shows "unat (page_round_up len) = (unat len + 4095) div 4096 * 4096"
proof -
  have 1: "unat (len + PAGE_SIZE - 1) = unat len + 4095"
  proof -
    have "len + PAGE_SIZE - 1 = len + 4095" by simp
    moreover have "unat (len + 4095) = unat len + 4095" using assms unat_add_u64 [of len 4095] by simp
    ultimately show ?thesis by (simp only:)
  qed
  have 2: "unat ((len + PAGE_SIZE - 1) div PAGE_SIZE) = (unat len + 4095) div 4096"
    using 1 by (simp add: unat_div)
  have "(unat len + 4095) div 4096 * 4096 < 2 ^ 64"
    using div_times_less_eq_dividend [of "unat len + 4095" 4096] assms by linarith
  then show ?thesis
    unfolding page_round_up_def using unat_mult_u64 [of "(len + PAGE_SIZE - 1) div PAGE_SIZE" PAGE_SIZE] 2 by simp
qed

text \<open>The end of a rounded range that does not leave the address space.\<close>

lemma range_end:
  assumes "addr mod PAGE_SIZE = 0" "length' \<noteq> 0" "unat addr + unat length' + 4095 < 2 ^ 64"
  defines "e \<equiv> addr + page_round_up length'"
  shows "paged addr" "paged e" "addr < e" "unat e = unat addr + (unat length' + 4095) div 4096 * 4096"
    "e - addr = page_round_up length'"
proof -
  have len: "unat (page_round_up length') = (unat length' + 4095) div 4096 * 4096"
    using page_round_up [of length'] assms(3) by simp
  have "(unat length' + 4095) div 4096 * 4096 \<le> unat length' + 4095" by (rule div_times_less_eq_dividend)
  then show e: "unat e = unat addr + (unat length' + 4095) div 4096 * 4096"
    unfolding e_def using len assms(3) unat_add_u64 [of addr "page_round_up length'"] by simp
  show addr: "paged addr" using arg_cong [OF assms(1), of unat] by (simp add: unat_mod dvd_eq_mod_eq_0)
  show "paged e" unfolding e using addr by simp
  have "0 < unat length'" using assms(2) by (simp add: unat_gt_0)
  then have "4096 div 4096 \<le> (unat length' + 4095) div 4096" by (intro div_le_mono) simp
  then show "addr < e" using e by (simp add: word_less_nat_alt)
  show "e - addr = page_round_up length'" by (simp add: e_def)
qed

text \<open>
  C2 (unmap_range_exact). \<open>unmap_range\<close> on a page address, unless one region contains the range with
  room on both sides, removes exactly the range: all other addresses keep their object, offset, flags
  and type, the pages unmapped are exactly the mapped pages of the range, and the region list stays
  well formed.
\<close>

theorem unmap_range_exact:
  assumes "user_ok st" "addr mod PAGE_SIZE = 0" "length' \<noteq> 0" "unat addr + unat length' + 4095 < 2 ^ 64"
    and "\<forall>r \<in> set (process_memory st). \<not> (vr_start r < addr \<and> addr + page_round_up length' < vr_end r)"
  shows "\<exists>st'. unmap_range addr length' st = Some (0, st') \<and>
    unmaps {unat addr..<unat addr + (unat length' + 4095) div 4096 * 4096} st st'"
proof -
  note e = range_end [OF assms(2-4)]
  show ?thesis
    using do_unmap_exact [OF assms(1) e(1,2,3) assms(5)] assms(2,3) by (simp add: unmap_range_def e(4,5))
qed

text \<open>A process with a file mapping of four pages and a heap.\<close>

definition demo_object :: vm_object where
  "demo_object = \<lparr>vo_type = VM_INODE, vo_ref_count = 1, vo_has_kill = True, vo_map = None, vo_extend = None,
     vo_handle_fault = None, vo_handle_cow_fault = None, vo_clone = None\<rparr>"

definition demo_state :: vm_state where
  "demo_state = \<lparr>page_bitset = page_bitset blank_state, g_phys_page_stats = g_phys_page_stats blank_state,
     resident_memory = resident_memory blank_state, kernel_vm_list = [], kernel_vm_locked = False,
     process_memory =
       [\<lparr>region_id = 1, vr_start = 0x400000, vr_end = 0x404000, vr_flags = VM_USER, vr_type = VM_PROCESS_FILE,
         vr_object = Some 9, vr_object_offset = 0x10000\<rparr>,
        \<lparr>region_id = 2, vr_start = 0x500000, vr_end = 0x501000, vr_flags = VM_USER OR VM_WRITE OR VM_NO_EXEC,
         vr_type = VM_PROCESS_HEAP, vr_object = None, vr_object_offset = 0\<rparr>],
     task_kernel_stack = None, process_ref_count = 1, should_profile = False,
     vm_objs = \<lparr>objects = (\<lambda>a. if a = 9 then Some demo_object else None), killed = []\<rparr>,
     page_log = [], next_region_id = 3\<rparr>"

lemma demo_state_ok: "user_ok demo_state"
  by (simp add: user_ok_def demo_state_def objs_ok_def demo_object_def)

lemma page_round_up_demo: "page_round_up 0x2001 = 0x3000" "page_round_up 0x1000 = 0x1000" "page_round_up 0x1001 = 0x2000"
  by (simp_all add: page_round_up_def)

lemma unmap_range_exact_witness:
  "\<exists>st'. unmap_range 0x402000 0x2001 demo_state = Some (0, st') \<and>
     covered (process_memory st') = covered (process_memory demo_state) - {0x402000..<0x405000}"
proof -
  have "\<exists>st'. unmap_range 0x402000 0x2001 demo_state = Some (0, st') \<and>
    unmaps {unat (0x402000 :: u64)..<unat (0x402000 :: u64) + (unat (0x2001 :: u64) + 4095) div 4096 * 4096} demo_state st'"
    by (rule unmap_range_exact [OF demo_state_ok]) (simp_all add: demo_state_def page_round_up_demo)
  then show ?thesis unfolding unmaps_def covered_backing by (auto simp: fst_outside)
qed

subsection \<open>A range inside a region\<close>

lemma distinct_add:
  "distinct (map f (add_vm_region rs t)) \<longleftrightarrow> f t \<notin> f ` set rs \<and> distinct (map f rs)"
  by (induction rs) auto

lemma user_ok_add:
  assumes "user_ok st" "process_memory st' = add_vm_region (process_memory st) t"
    and "region_id t = next_region_id st" "next_region_id st' = next_region_id st + 1"
    and "objs_ok (t # process_memory st) (vm_objs st')"
    and "vr_start t \<le> vr_end t" "paged (vr_start t)" "paged (vr_end t)"
    and "\<forall>r \<in> set (process_memory st). before r t \<or> before t r"
  shows "user_ok st'"
proof -
  have "regions_ok (process_memory st')"
    using add_vm_region_ok [of "process_memory st" t] assms by (simp add: user_ok_def)
  moreover have "objs_ok (process_memory st') (vm_objs st')"
    using assms(2,5) by (simp add: objs_ok_def)
  moreover have "region_id t \<notin> region_id ` set (process_memory st)"
    using assms(1,3) by (auto simp: user_ok_def)
  ultimately show ?thesis using assms by (auto simp: user_ok_def distinct_add less_SucI)
qed

lemma bump_objs_ok:
  assumes "objs_ok rs m" "r \<in> set rs" "vr_object r = Some a" "vr_object t = Some a"
  shows "\<exists>m'. bump_vm_object (Some a) m = Some m' \<and> objs_ok (t # rs) m'"
proof -
  have "0 < refs a rs" using assms(2,3) by (auto simp: refs_def filter_empty_conv)
  then obtain ob where ob: "objects m a = Some ob" "int (refs a rs) \<le> vo_ref_count ob"
    using assms(1) unfolding objs_ok_def by blast
  then show ?thesis using assms(1,4) by (auto simp: bump_vm_object_def objs_ok_def)
qed

lemma unmap_split_ok:
  assumes ok: "user_ok st" and pm: "process_memory st = xs @ r # ys" and ob: "vr_object r = Some ob"
    and a: "paged a" and e: "paged e" and lt: "vr_start r < a" "a < e" "e < vr_end r"
  shows "\<exists>st' t. unmap_split r a (e - a) b st = Some st' \<and> user_ok st' \<and>
    process_memory st' = add_vm_region (xs @ r\<lparr>vr_end := a\<rparr> # ys) t \<and>
    t = \<lparr>region_id = next_region_id st, vr_start = e, vr_end = vr_end r, vr_flags = vr_flags r, vr_type = vr_type r,
      vr_object = Some ob, vr_object_offset = vr_object_offset r + vr_end r - vr_start r\<rparr>"
proof -
  have ids: "distinct (map region_id (xs @ r # ys))" and rs: "regions_ok (xs @ r # ys)"
    and objs: "objs_ok (xs @ r # ys) (vm_objs st)" and rp: "paged (vr_start r)" "paged (vr_end r)"
    using ok pm by (simp_all add: user_ok_def)
  obtain n where n: "unat e = unat a + n * 4096" using paged_diff [OF a e less_imp_le [OF lt(2)]] by blast
  let ?t = "\<lparr>region_id = next_region_id st, vr_start = e, vr_end = vr_end r, vr_flags = vr_flags r, vr_type = vr_type r,
      vr_object = Some ob, vr_object_offset = vr_object_offset r + vr_end r - vr_start r\<rparr>"
  let ?ops = "map (\<lambda>i. Do_Unmap_Page i (vr_object r = None) True b Current_Process) (pages a n)"
  obtain m where m: "bump_vm_object (Some ob) (vm_objs st) = Some m" "objs_ok (?t # xs @ r # ys) m"
    using bump_objs_ok [OF objs, of r ob ?t] ob by auto
  let ?mid = "st\<lparr>process_memory := xs @ r\<lparr>vr_end := a\<rparr> # ys\<rparr>"
  let ?st = "st\<lparr>page_log := page_log st @ ?ops, next_region_id := next_region_id st + 1, vm_objs := m,
     process_memory := add_vm_region (xs @ r\<lparr>vr_end := a\<rparr> # ys) ?t\<rparr>"
  have mid: "user_ok ?mid"
    by (rule user_ok_replace [OF ok pm, of _ "r\<lparr>vr_end := a\<rparr>"]) (use a rp lt in auto)
  have "user_ok ?st"
  proof (rule user_ok_add [OF mid])
    have "refs x (?t # process_memory ?mid) = refs x (?t # xs @ r # ys)" for x by simp
    moreover have "vm_objs ?st = m" by simp
    ultimately show "objs_ok (?t # process_memory ?mid) (vm_objs ?st)" using m(2) by (simp only: objs_ok_def)
    show "\<forall>x \<in> set (process_memory ?mid). before x ?t \<or> before ?t x"
      using rs lt by (auto simp: regions_ok_append dest: order_trans)
  qed (use e rp lt in auto)
  moreover have "unmap_split r a (e - a) b st = Some ?st"
    using upd_region_split [OF ids] pm ob m(1)
    by (simp add: unmap_split_def each_page_log [OF n e] new_region_def upd_user_def Let_def)
  ultimately show ?thesis by (intro exI [of _ ?st] exI [of _ ?t]) simp
qed

text \<open>
  C31 (unmap_range_shifts_tail). Unmapping a range strictly inside a region leaves the addresses behind
  the range mapped, but at the wrong place of the object: the new region's offset is computed from the
  end of the old region instead of the end of the range, so every address behind the range is backed by
  the page \<^verbatim>\<open>r->end - (addr + length)\<close> further on. All other addresses are as they should be.
\<close>

theorem unmap_range_shifts_tail:
  assumes ok: "user_ok st" and "addr mod PAGE_SIZE = 0" "length' \<noteq> 0" "unat addr + unat length' + 4095 < 2 ^ 64"
    and r: "r \<in> set (process_memory st)" "vr_object r = Some ob"
    and "vr_start r < addr" "addr + page_round_up length' < vr_end r"
  defines "e \<equiv> addr + page_round_up length'"
  shows "\<exists>st'. unmap_range addr length' st = Some (0, st') \<and> user_ok st' \<and>
    covered (process_memory st') = covered (process_memory st) - {unat addr..<unat e} \<and>
    outside {unat addr..<unat (vr_end r)} (backing (process_memory st)) \<subseteq> backing (process_memory st') \<and>
    (\<forall>x. unat e \<le> x \<and> x < unat (vr_end r) \<longrightarrow>
      (x, Some ob, vr_object_offset r + of_nat x - vr_start r + (vr_end r - e), vr_flags r, vr_type r)
        \<in> backing (process_memory st'))"
proof -
  note e = range_end [OF assms(2-4), folded e_def]
  obtain xs ys where pm: "process_memory st = xs @ r # ys" using split_list [OF r(1)] by blast
  have lt: "vr_start r < addr" "e < vr_end r" using assms(7,8) by (simp_all add: e_def)
  have rs: "regions_ok (xs @ r # ys)" using ok pm by (simp add: user_ok_def)
  have found: "List.find (in_range addr e) (process_memory st) = Some r"
    unfolding pm by (rule find_reaching [OF rs lt(1) _ e(3)]) (use lt e(3) in auto)
  obtain st' t where st': "unmap_split r addr (e - addr) (process_ref_count st > 1) st = Some st'" "user_ok st'"
    "process_memory st' = add_vm_region (xs @ r\<lparr>vr_end := addr\<rparr> # ys) t"
    and t: "t = \<lparr>region_id = next_region_id st, vr_start = e, vr_end = vr_end r, vr_flags = vr_flags r,
      vr_type = vr_type r, vr_object = Some ob, vr_object_offset = vr_object_offset r + vr_end r - vr_start r\<rparr>"
    using unmap_split_ok [OF ok pm r(2) e(1,2) lt(1) e(3) lt(2)] by blast
  have "unmap_range addr length' st = do_unmap_range addr (e - addr) st"
    using assms(2,3) by (simp add: unmap_range_def e(5))
  also have "\<dots> = Some (0, st')"
    using found lt st'(1) by (subst do_unmap_range.simps) (simp add: find_in_range [OF e(3)] Let_def)
  finally have 1: "unmap_range addr length' st = Some (0, st')" .
  have "region_addrs t \<union> region_addrs (r\<lparr>vr_end := addr\<rparr>) = region_addrs r - {unat addr..<unat e}"
    using lt e(3) by (auto simp: t region_addrs_def word_less_nat_alt)
  moreover have "covered (xs @ ys) \<inter> {unat addr..<unat e} = {}"
    using region_alone [OF rs] lt by (auto simp: region_addrs_def word_less_nat_alt disjoint_iff)
  ultimately have 2: "covered (process_memory st') = covered (process_memory st) - {unat addr..<unat e}"
    unfolding st'(3) pm by auto
  have "outside {unat addr..<unat (vr_end r)} (region_backing r) \<subseteq> backing (process_memory st')"
    using backing_cut_end [of addr r] lt e(3) by (auto simp: st'(3))
  then have 3: "outside {unat addr..<unat (vr_end r)} (backing (process_memory st)) \<subseteq> backing (process_memory st')"
    by (auto simp: st'(3) pm outside_def)
  have "(x, Some ob, vr_object_offset r + of_nat x - vr_start r + (vr_end r - e), vr_flags r, vr_type r) \<in> region_backing t"
    if "unat e \<le> x" "x < unat (vr_end r)" for x
    using that by (auto simp: t region_backing_def region_addrs_def algebra_simps)
  then show ?thesis using 1 2 3 st'(2,3) by (intro exI [of _ st']) simp
qed

lemma unmap_range_shifts_tail_witness:
  "\<exists>st'. unmap_range 0x401000 0x1000 demo_state = Some (0, st') \<and>
     (0x402000, Some 9, 0x14000, VM_USER, VM_PROCESS_FILE) \<in> backing (process_memory st')"
proof -
  let ?r = "process_memory demo_state ! 0"
  have "\<exists>st'. unmap_range 0x401000 0x1000 demo_state = Some (0, st') \<and> user_ok st' \<and>
    covered (process_memory st') = covered (process_memory demo_state) -
      {unat (0x401000 :: u64)..<unat (0x401000 + page_round_up 0x1000)} \<and>
    outside {unat (0x401000 :: u64)..<unat (vr_end ?r)} (backing (process_memory demo_state)) \<subseteq> backing (process_memory st') \<and>
    (\<forall>x. unat (0x401000 + page_round_up 0x1000) \<le> x \<and> x < unat (vr_end ?r) \<longrightarrow>
      (x, Some 9, vr_object_offset ?r + of_nat x - vr_start ?r + (vr_end ?r - (0x401000 + page_round_up 0x1000)),
        vr_flags ?r, vr_type ?r) \<in> backing (process_memory st'))"
    by (rule unmap_range_shifts_tail [OF demo_state_ok]) (simp_all add: demo_state_def page_round_up_demo)
  then obtain st' where "unmap_range 0x401000 0x1000 demo_state = Some (0, st')"
    "(0x402000, Some 9, vr_object_offset ?r + of_nat 0x402000 - vr_start ?r + (vr_end ?r - (0x401000 + page_round_up 0x1000)),
        vr_flags ?r, vr_type ?r) \<in> backing (process_memory st')"
    by (auto simp: demo_state_def page_round_up_demo)
  then show ?thesis by (auto simp: demo_state_def page_round_up_demo)
qed

section \<open>Mapping\<close>

lemma search_up_finds:
  assumes "user_ok st" "paged t" "unat t \<le> 2 ^ 47 + 2 ^ 29" "unat len \<le> 2 ^ 47" "len \<noteq> 0"
    and "\<forall>r \<in> set (process_memory st). unat (vr_end r) \<le> 2 ^ 47"
  shows "\<exists>t'. search_up len t st = Some t' \<and> paged t' \<and> unat t' \<le> 2 ^ 47 + 2 ^ 29 \<and>
    (\<forall>r \<in> set (process_memory st). \<not> in_range t' (t' + len) r)"
  using assms(2,3)
proof (induction "length (filter (\<lambda>r. t \<le> vr_end r) (process_memory st))" arbitrary: t rule: less_induct)
  case less
  have "unat (t + len) = unat t + unat len" using unat_add_u64 [of t len] less.prems(2) assms(4) by simp
  then have lt: "t < t + len" using assms(5) by (simp add: word_less_nat_alt unat_gt_0)
  show ?case
  proof (cases "List.find (in_range t (t + len)) (process_memory st)")
    case None
    then have "\<forall>r \<in> set (process_memory st). \<not> in_range t (t + len) r" by (simp add: find_None_iff)
    moreover have "search_up len t st = Some t"
      by (subst search_up.simps) (simp add: find_in_range [OF lt] None)
    ultimately show ?thesis using less.prems by blast
  next
    case (Some r)
    obtain xs ys where pm: "process_memory st = xs @ r # ys" and r: "in_range t (t + len) r"
      using find_split [OF Some] by blast
    let ?t = "vr_end r + 5 * PAGE_SIZE"
    have rp: "paged (vr_end r)" "vr_start r \<le> vr_end r" "unat (vr_end r) \<le> 2 ^ 47"
      using assms(1,6) pm by (simp_all add: user_ok_def regions_ok_append)
    have t': "unat ?t = unat (vr_end r) + 20480" using unat_add_u64 [of "vr_end r" "5 * PAGE_SIZE"] rp(3) by simp
    have "t \<le> vr_end r" using r lt rp(2) unfolding in_range_def by auto
    then have mono: "t \<le> ?t" "\<not> ?t \<le> vr_end r" using t' by (simp_all add: word_le_nat_alt)
    have le: "length (filter (\<lambda>r. ?t \<le> vr_end r) zs) \<le> length (filter (\<lambda>r. t \<le> vr_end r) zs)" for zs
      using mono(1) by (induction zs) auto
    have "length (filter (\<lambda>r. ?t \<le> vr_end r) (process_memory st)) <
        length (filter (\<lambda>r. t \<le> vr_end r) (process_memory st))"
      using \<open>t \<le> vr_end r\<close> mono(2) le [of xs] le [of ys] unfolding pm by simp
    moreover have "paged ?t" unfolding t' using rp(1) by (intro dvd_add) simp_all
    moreover have "unat ?t \<le> 2 ^ 47 + 2 ^ 29" unfolding t' using rp(3) by simp
    ultimately have "\<exists>t'. search_up len ?t st = Some t' \<and> paged t' \<and> unat t' \<le> 2 ^ 47 + 2 ^ 29 \<and>
      (\<forall>r \<in> set (process_memory st). \<not> in_range t' (t' + len) r)"
      by (rule less.hyps)
    moreover have "search_up len t st = search_up len ?t st"
      by (subst search_up.simps) (simp add: find_in_range [OF lt] Some)
    ultimately show ?thesis by (simp only:)
  qed
qed

lemma pick_address_free:
  assumes ok: "user_ok st" and "flags AND MAP_FIXED = 0" "flags AND MAP_STACK = 0" "type \<noteq> VM_TASK_STACK"
    and a: "paged a" "unat a \<le> 2 ^ 47" and len: "unat len \<le> 2 ^ 47" "len \<noteq> 0"
    and below: "\<forall>r \<in> set (process_memory st). unat (vr_end r) \<le> 2 ^ 47"
  shows "\<exists>t. pick_address a len flags type st = Some t \<and> paged t \<and> unat t \<le> 2 ^ 47 + 2 ^ 29 \<and>
    (\<forall>r \<in> set (process_memory st). \<not> in_range t (t + len) r)"
proof -
  have "unat (a + len) = unat a + unat len" using unat_add_u64 [of a len] a len by simp
  then have lt: "a < a + len" using len(2) by (simp add: word_less_nat_alt unat_gt_0)
  define t where "t = (case get_vm_region (process_memory st) VM_PROCESS_HEAP of
    Some h \<Rightarrow> vr_end h + 0x10000000 | None \<Rightarrow> 0x10000000)"
  have "paged t \<and> unat t \<le> 2 ^ 47 + 2 ^ 29"
  proof (cases "get_vm_region (process_memory st) VM_PROCESS_HEAP")
    case (Some h)
    then have "paged (vr_end h)" "unat (vr_end h) \<le> 2 ^ 47"
      using get_vm_region_Some [OF Some] ok below by (auto simp: user_ok_def)
    then show ?thesis using unat_add_u64 [of "vr_end h" "0x10000000"] Some by (simp add: t_def)
  qed (simp add: t_def)
  then have "\<exists>t'. search_up len t st = Some t' \<and> paged t' \<and> unat t' \<le> 2 ^ 47 + 2 ^ 29 \<and>
    (\<forall>r \<in> set (process_memory st). \<not> in_range t' (t' + len) r)"
    using search_up_finds [OF ok _ _ len below] by blast
  then have search: ?thesis if "pick_address a len flags type st = search_up len t st" using that by simp
  show ?thesis
  proof (cases "a \<noteq> 0 \<and> List.find (in_range a (a + len)) (process_memory st) = None")
    case True
    then have "pick_address a len flags type st = Some a"
      using assms(2) by (simp add: pick_address_def find_in_range [OF lt] Let_def)
    then show ?thesis using True a by (simp add: find_None_iff)
  next
    case False
    then show ?thesis using assms(2-4)
      by (intro search)
        (auto simp: pick_address_def find_in_range [OF lt] Let_def t_def find_vm_region_def lock_list_def region_list_def)
  qed
qed

lemma not_in_range_beside:
  assumes "\<not> in_range a e r" "a < e" "vr_start r \<le> vr_end r"
  shows "vr_end r \<le> a \<or> e \<le> vr_start r"
  using assms unfolding in_range_def by auto



section \<open>Protection\<close>

lemma protection_flags_values: "protection_flags prot \<in> {0x400, 4, 6}"
  by (simp add: protection_flags_def)

lemma protected_flags_exec: "protected_flags old (protection_flags prot) AND VM_NO_EXEC = 0"
proof -
  have "\<not> bit (protected_flags old (protection_flags prot)) 63"
    using protection_flags_values [of prot] by (auto simp: protected_flags_def bit_simps)
  then show ?thesis by (simp only: bit_iff_and_push_bit_not_eq_0 not_not)
qed

lemma find_whole:
  assumes rs: "regions_ok (xs @ r # ys)" and ne: "\<forall>x \<in> set (xs @ r # ys). vr_start x < vr_end x"
  shows "List.find (in_range (vr_start r) (vr_end r)) (xs @ r # ys) = Some r"
proof (rule find_at)
  show "in_range (vr_start r) (vr_end r) r" by (simp add: in_range_def)
  show "\<forall>x \<in> set xs. \<not> in_range (vr_start r) (vr_end r) x"
  proof
    fix x assume x: "x \<in> set xs"
    then have "vr_start x < vr_end x" "vr_end x \<le> vr_start r" "vr_start r < vr_end r"
      using rs ne by (auto simp: regions_ok_append)
    then show "\<not> in_range (vr_start r) (vr_end r) x" unfolding in_range_def by auto
  qed
qed

text \<open>
  C32 (mprotect_makes_executable). Changing the protection of a region (here: one that is exactly the
  range, among nonempty regions) sets its flags and the flags of each of its pages and changes nothing
  else; but the new flags never contain \<open>VM_NO_EXEC\<close>, whatever the requested protection: the bit is lost
  in the \<open>int\<close> that holds the flags. \<^verbatim>\<open>mprotect(PROT_READ | PROT_WRITE)\<close> makes data executable.
\<close>

theorem mprotect_makes_executable:
  fixes prot :: u32
  assumes ok: "user_ok st" and pm: "process_memory st = xs @ r # ys"
    and ne: "\<forall>x \<in> set (process_memory st). vr_start x < vr_end x"
    and r: "vr_end r = vr_start r + page_round_up length'" and len: "length' \<noteq> 0"
    and n: "unat (vr_end r) = unat (vr_start r) + n * 4096"
  defines "f \<equiv> protected_flags (vr_flags r) (protection_flags prot)"
  shows "map_range_protections (vr_start r) length' prot st =
      Some (0, st\<lparr>process_memory := xs @ r\<lparr>vr_flags := f\<rparr> # ys,
        page_log := page_log st @ map (\<lambda>p. Map_Page_Flags p f) (pages (vr_start r) n)\<rparr>) \<and>
    f AND VM_NO_EXEC = 0"
proof -
  let ?L = "page_round_up length'" and ?a = "vr_start r"
  let ?st = "st\<lparr>process_memory := xs @ r\<lparr>vr_flags := f\<rparr> # ys,
        page_log := page_log st @ map (\<lambda>p. Map_Page_Flags p f) (pages (vr_start r) n)\<rparr>"
  have ids: "distinct (map region_id (xs @ r # ys))" and rs: "regions_ok (xs @ r # ys)"
    and rp: "paged ?a" "paged (vr_end r)" using ok pm by (simp_all add: user_ok_def)
  have al: "?a mod PAGE_SIZE = 0" using rp(1) by (simp add: word_unat_eq_iff unat_mod dvd_eq_mod_eq_0)
  have lt: "?a < ?a + ?L" using ne pm r by auto
  have found: "List.find (in_range ?a (?a + ?L)) (process_memory st) = Some r"
    using find_whole [OF rs] ne pm r by simp
  have "protect_whole r (protection_flags prot) st = Some ?st"
    using upd_region_split [OF ids] pm
    by (simp add: protect_whole_def upd_user_def Let_def f_def [symmetric] each_page_log [OF n rp(2)])
  moreover have "protect_range (vr_end r) 0 (protection_flags prot) ?st = Some ?st"
    by (subst protect_range.simps) (simp add: find_user_vm_region_in_range_def)
  ultimately have "protect_range ?a ?L (protection_flags prot) st = Some ?st"
    using lt found r by (subst protect_range.simps) (simp add: find_in_range [OF lt])
  then have "map_range_protections ?a length' prot st = Some (0, ?st)"
    using al len by (simp add: map_range_protections_def)
  moreover have "f AND VM_NO_EXEC = 0" unfolding f_def by (rule protected_flags_exec)
  ultimately show ?thesis by blast
qed

lemma mprotect_makes_executable_witness:
  "vr_flags (process_memory demo_state ! 1) AND VM_NO_EXEC \<noteq> 0 \<and>
   (\<exists>st'. map_range_protections 0x500000 0x1000 PROT_WRITE demo_state = Some (0, st') \<and>
     vr_flags (process_memory st' ! 1) AND VM_NO_EXEC = 0)"
proof -
  let ?rs = "process_memory demo_state"
  have pm: "process_memory demo_state = [?rs ! 0] @ ?rs ! 1 # []" by (simp add: demo_state_def)
  have "map_range_protections (vr_start (?rs ! 1)) 0x1000 PROT_WRITE demo_state =
      Some (0, demo_state\<lparr>process_memory := [?rs ! 0] @
        (?rs ! 1)\<lparr>vr_flags := protected_flags (vr_flags (?rs ! 1)) (protection_flags PROT_WRITE)\<rparr> # [],
        page_log := page_log demo_state @ map (\<lambda>p. Map_Page_Flags p
          (protected_flags (vr_flags (?rs ! 1)) (protection_flags PROT_WRITE))) (pages (vr_start (?rs ! 1)) 1)\<rparr>) \<and>
      protected_flags (vr_flags (?rs ! 1)) (protection_flags PROT_WRITE) AND VM_NO_EXEC = 0"
    by (rule mprotect_makes_executable [OF demo_state_ok pm]) (simp_all add: demo_state_def page_round_up_demo)
  then show ?thesis by (auto simp: demo_state_def)
qed

section \<open>Kernel regions\<close>

lemma upto_text_whole:
  "rs \<noteq> [] \<Longrightarrow> \<forall>r \<in> set (tl rs). vr_type r \<noteq> VM_KERNEL_TEXT \<Longrightarrow> upto_text rs = rs"
  by (induction rs rule: upto_text.induct) auto

lemma upto_text_cut:
  "\<forall>r \<in> set mid. vr_type r \<noteq> VM_KERNEL_TEXT \<Longrightarrow> vr_type t = VM_KERNEL_TEXT \<Longrightarrow>
   upto_text (h # mid @ t # rest) = h # mid"
  by (induction mid arbitrary: h) auto

lemma from_heap_split:
  "\<forall>r \<in> set front. vr_type r \<noteq> VM_KERNEL_HEAP \<Longrightarrow> vr_type h = VM_KERNEL_HEAP \<Longrightarrow>
   from_heap (front @ h # rest) = Some (front, h # rest)"
  by (induction front) auto

lemma unlink_after_last:
  assumes "region_id r \<notin> region_id ` set (x # xs)"
  shows "unlink_after (region_id r) (x # xs @ [r]) = Some (x # xs)"
  using assms by (induction xs arbitrary: x) auto

text \<open>
  C33 (kernel_region_drops_text). At start-up the kernel's text, read-only and data regions come behind the
  heap in the kernel list. The first kernel region that is allocated is linked behind the last region
  before the text with its \<open>next\<close> pointer NULL: the text region and everything behind it are no longer
  in the list, and an address in them is in no known region.
\<close>

theorem kernel_region_drops_text:
  assumes "kernel_vm_list st = front @ heap # mid @ ktext # rest" "\<not> kernel_vm_locked st" "task_kernel_stack st = None"
    and "vr_type heap = VM_KERNEL_HEAP" "vr_type ktext = VM_KERNEL_TEXT"
    and "\<forall>r \<in> set front. vr_type r \<noteq> VM_KERNEL_HEAP" "\<forall>r \<in> set mid. vr_type r \<noteq> VM_KERNEL_TEXT"
    and "\<forall>r \<in> set (front @ heap # mid). \<not> (vr_start r \<le> a \<and> a < vr_end r)"
  shows "\<exists>r st'. make_kernel_region size' type st = Some (r, st') \<and>
    kernel_vm_list st' = front @ heap # mid @ [r] \<and>
    (\<not> (vr_start r \<le> a \<and> a < vr_end r) \<longrightarrow> find_kernel_vm_region_by_addr a st' = Some None)"
proof -
  have "find_kernel_vm_region_by_addr a st' = Some None"
    if "kernel_vm_list st' = front @ heap # mid @ [r]" "\<not> kernel_vm_locked st'" "task_kernel_stack st' = None"
      "\<not> (vr_start r \<le> a \<and> a < vr_end r)" for st' r
    using that assms(8) by (auto simp: find_kernel_vm_region_by_addr_def lock_kernel_vm_def find_None_iff)
  then show ?thesis using assms(1-7)
    by (simp add: make_kernel_region_def new_region_def lock_kernel_vm_def unlock_kernel_vm_def from_heap_split
        upto_text_cut Let_def)
qed

text \<open>A kernel list as \<open>init_vm_allocator\<close> leaves it, without the physical map and the initial ram disk.\<close>

definition demo_kernel :: vm_state where
  "demo_kernel = demo_state\<lparr>kernel_vm_list :=
     [static_region 6 0xFFFFFF8000000000 0xFFFFFF8000000000 0 VM_KERNEL_HEAP,
      static_region 2 0xFFFFFFFF80000000 0xFFFFFFFF80040000 0 VM_KERNEL_TEXT,
      static_region 4 0xFFFFFFFF80040000 0xFFFFFFFF80060000 0 VM_KERNEL_DATA]\<rparr>"

lemma kernel_region_drops_text_witness:
  "find_kernel_vm_region_by_addr 0xFFFFFFFF80041000 demo_kernel \<noteq> Some None \<and>
   (\<exists>r st'. make_kernel_region 0x1000 VM_KERNEL_ANON_MAPPING demo_kernel = Some (r, st') \<and>
     length (kernel_vm_list st') = 2)"
proof -
  let ?ks = "kernel_vm_list demo_kernel"
  have "\<exists>r st'. make_kernel_region 0x1000 VM_KERNEL_ANON_MAPPING demo_kernel = Some (r, st') \<and>
    kernel_vm_list st' = [] @ ?ks ! 0 # [] @ [r] \<and>
    (\<not> (vr_start r \<le> 0xFFFFFFFF80041000 \<and> 0xFFFFFFFF80041000 < vr_end r) \<longrightarrow>
      find_kernel_vm_region_by_addr 0xFFFFFFFF80041000 st' = Some None)"
    by (rule kernel_region_drops_text [where ktext = "?ks ! 1" and rest = "[?ks ! 2]"])
      (simp_all add: demo_kernel_def demo_state_def static_region_def)
  then show ?thesis
    by (auto simp: demo_kernel_def demo_state_def static_region_def find_kernel_vm_region_by_addr_def lock_kernel_vm_def)
qed

text \<open>Without a text region behind the heap a kernel region goes behind everything.\<close>

definition kernel_ok :: "vm_state \<Rightarrow> bool" where
  "kernel_ok st \<longleftrightarrow> regions_ok (kernel_vm_list st) \<and> \<not> kernel_vm_locked st \<and> kernel_vm_list st \<noteq> [] \<and>
     (\<exists>r \<in> set (kernel_vm_list st). vr_type r = VM_KERNEL_HEAP) \<and>
     (\<forall>r \<in> set (kernel_vm_list st). vr_type r \<noteq> VM_KERNEL_TEXT \<and> region_id r < next_region_id st \<and> paged (vr_end r))"

lemma make_kernel_region_last:
  fixes size' ty :: u64
  assumes "kernel_ok st"
  defines "v \<equiv> last (kernel_vm_list st)"
  defines "start \<equiv> (if vr_type v = VM_KERNEL_HEAP then vr_end v + 1073741824 div 8 else vr_end v)"
  defines "r \<equiv> \<lparr>region_id = next_region_id st, vr_start = start, vr_end = start + size',
    vr_flags = VM_WRITE OR VM_NO_EXEC, vr_type = ty, vr_object = None, vr_object_offset = 0\<rparr>"
  shows "make_kernel_region size' ty st = Some (r, st\<lparr>next_region_id := next_region_id st + 1,
    kernel_vm_list := kernel_vm_list st @ [r], kernel_vm_locked := False\<rparr>)"
proof -
  obtain h where "h \<in> set (kernel_vm_list st)" "vr_type h = VM_KERNEL_HEAP" using assms(1) unfolding kernel_ok_def by blast
  then have "\<exists>front h rest. kernel_vm_list st = front @ h # rest \<and> vr_type h = VM_KERNEL_HEAP \<and>
      (\<forall>r \<in> set front. vr_type r \<noteq> VM_KERNEL_HEAP)"
    using split_list_first_prop [of "kernel_vm_list st" "\<lambda>r. vr_type r = VM_KERNEL_HEAP"] by blast
  then obtain front h rest where ks: "kernel_vm_list st = front @ h # rest" "vr_type h = VM_KERNEL_HEAP"
    "\<forall>r \<in> set front. vr_type r \<noteq> VM_KERNEL_HEAP" by blast
  have "upto_text (h # rest) = h # rest"
    using assms(1) ks(1) by (intro upto_text_whole) (auto simp: kernel_ok_def)
  then show ?thesis
    using assms(1) ks
    by (simp add: make_kernel_region_def new_region_def lock_kernel_vm_def unlock_kernel_vm_def from_heap_split
        Let_def kernel_ok_def r_def start_def v_def)
qed


definition demo_kernel2 :: vm_state where
  "demo_kernel2 = demo_state\<lparr>kernel_vm_list := [static_region 2 0xFFFFFF8000000000 0xFFFFFF8000010000 0 VM_KERNEL_HEAP]\<rparr>"


text \<open>
  C34 (heap_exhaustion_keeps_lock). When the kernel heap cannot grow, \<open>add_vm_pages_end\<close> returns NULL with
  the lock of the kernel list still held: no later growth of the heap and no later allocation of a kernel
  region ever returns.
\<close>

theorem heap_exhaustion_keeps_lock:
  assumes "\<not> kernel_vm_locked st" "get_vm_region (kernel_vm_list st) VM_KERNEL_HEAP = Some heap"
    and "fst (extend_vm_region_end (kernel_vm_list st) VM_KERNEL_HEAP n) < 0"
  shows "\<exists>st'. add_vm_pages_end n VM_KERNEL_HEAP st = Some (None, st') \<and> kernel_vm_list st' = kernel_vm_list st \<and>
    (\<forall>m. add_vm_pages_end m VM_KERNEL_HEAP st' = None) \<and> (\<forall>m ty. make_kernel_region m ty st' = None)"
proof -
  let ?st = "st\<lparr>kernel_vm_locked := True\<rparr>"
  obtain rc rs where "extend_vm_region_end (kernel_vm_list st) VM_KERNEL_HEAP n = (rc, rs)" "rc < 0"
    using assms(3) by (cases "extend_vm_region_end (kernel_vm_list st) VM_KERNEL_HEAP n") auto
  then have "add_vm_pages_end n VM_KERNEL_HEAP st = Some (None, ?st)"
    using assms by (simp add: add_vm_pages_end_def lock_list_def lock_kernel_vm_def region_list_def Let_def)
  moreover have "add_vm_pages_end m VM_KERNEL_HEAP ?st = None" "make_kernel_region m ty ?st = None" for m ty
    by (simp_all add: add_vm_pages_end_def make_kernel_region_def new_region_def lock_list_def lock_kernel_vm_def)
  ultimately show ?thesis by (intro exI [of _ ?st]) simp
qed

lemma heap_exhaustion_keeps_lock_witness:
  "\<exists>st'. add_vm_pages_end 0x7FF0000 VM_KERNEL_HEAP demo_kernel = Some (None, st') \<and>
     make_kernel_region 0x1000 VM_KERNEL_ANON_MAPPING st' = None"
  using heap_exhaustion_keeps_lock [of demo_kernel "kernel_vm_list demo_kernel ! 0" "0x7FF0000"]
  by (auto simp: demo_kernel_def demo_state_def static_region_def)

end
