(* ===== verification/Libc_String.thy ===== *)
theory Libc_String
  imports Iros_Prelude
begin

text \<open>
  The C string and memory functions, \<^verbatim>\<open>libs/libc/string/*.c\<close>, over a memory of bytes: \<open>m a\<close> is the byte at
  the address \<open>a\<close>, None where nothing is mapped, so that a read or write outside the caller's objects
  has no result. Sizes and indices are natural numbers (an object never wraps around the address space).
  A plain \<open>char\<close> is signed. The theory relates the loops to functions on lists: \<open>cstr m s xs\<close> says that
  the string \<open>xs\<close> is stored at \<open>s\<close>.
\<close>

section \<open>Model\<close>

type_synonym memory = "addr \<Rightarrow> u8 option"

definition mem_put :: "memory \<Rightarrow> addr \<Rightarrow> u8 \<Rightarrow> memory option" where
  "mem_put m a c = (if m a = None then None else Some (m(a \<mapsto> c)))"

subsection \<open>Blocks of memory\<close>

text \<open>\<^verbatim>\<open>for (size_t i = 0; i < n; i++) buffer[i] = source[i]\<close>, and the same loop from the end.\<close>

function copy_up :: "addr \<Rightarrow> addr \<Rightarrow> nat \<Rightarrow> nat \<Rightarrow> memory \<Rightarrow> memory option" where
  "copy_up d s n i m =
     (if i < n then do { c \<leftarrow> m (s + i); m \<leftarrow> mem_put m (d + i) c; copy_up d s n (i + 1) m } else Some m)"
  by auto
termination by (relation "measure (\<lambda>(d, s, n, i, m). n - i)") auto

declare copy_up.simps [simp del]

fun copy_down :: "addr \<Rightarrow> addr \<Rightarrow> nat \<Rightarrow> memory \<Rightarrow> memory option" where
  "copy_down d s 0 m = Some m"
| "copy_down d s (Suc i) m = do { c \<leftarrow> m (s + i); m \<leftarrow> mem_put m (d + i) c; copy_down d s i m }"

definition memcpy :: "addr \<Rightarrow> addr \<Rightarrow> nat \<Rightarrow> memory \<Rightarrow> (addr \<times> memory) option" where
  "memcpy dest src n m = do { m \<leftarrow> copy_up dest src n 0 m; Some (dest, m) }"

definition memmove :: "addr \<Rightarrow> addr \<Rightarrow> nat \<Rightarrow> memory \<Rightarrow> (addr \<times> memory) option" where
  "memmove dest src n m = do {
     m \<leftarrow> (if src < dest then copy_down dest src n m else copy_up dest src n 0 m);
     Some (dest, m)
   }"

function fill_up :: "addr \<Rightarrow> u8 \<Rightarrow> nat \<Rightarrow> nat \<Rightarrow> memory \<Rightarrow> memory option" where
  "fill_up s c n i m = (if i < n then do { m \<leftarrow> mem_put m (s + i) c; fill_up s c n (i + 1) m } else Some m)"
  by auto
termination by (relation "measure (\<lambda>(s, c, n, i, m). n - i)") auto

declare fill_up.simps [simp del]

definition memset :: "addr \<Rightarrow> u32 \<Rightarrow> nat \<Rightarrow> memory \<Rightarrow> (addr \<times> memory) option" where
  "memset s c n m = do { m \<leftarrow> fill_up s (ucast c) n 0 m; Some (s, m) }"

function memchr_from :: "memory \<Rightarrow> addr \<Rightarrow> u8 \<Rightarrow> nat \<Rightarrow> nat \<Rightarrow> addr option option" where
  "memchr_from m s val n i =
     (if i < n then do { c \<leftarrow> m (s + i); if c = val then Some (Some (s + i)) else memchr_from m s val n (i + 1) }
      else Some None)"
  by auto
termination by (relation "measure (\<lambda>(m, s, v, n, i). n - i)") auto

declare memchr_from.simps [simp del]

definition memchr :: "memory \<Rightarrow> addr \<Rightarrow> u32 \<Rightarrow> nat \<Rightarrow> addr option option" where
  "memchr m s c n = memchr_from m s (ucast c) n 0"

function memcmp_from :: "memory \<Rightarrow> addr \<Rightarrow> addr \<Rightarrow> nat \<Rightarrow> nat \<Rightarrow> int option" where
  "memcmp_from m s1 s2 n i =
     (if i < n then do {
        a \<leftarrow> m (s1 + i);
        b \<leftarrow> m (s2 + i);
        if a < b then Some (-1) else if a > b then Some 1 else memcmp_from m s1 s2 n (i + 1)
      } else Some 0)"
  by auto
termination by (relation "measure (\<lambda>(m, s1, s2, n, i). n - i)") auto

declare memcmp_from.simps [simp del]

definition memcmp :: "memory \<Rightarrow> addr \<Rightarrow> addr \<Rightarrow> nat \<Rightarrow> int option" where
  "memcmp m s1 s2 n = memcmp_from m s1 s2 n 0"

subsection \<open>Lengths and copies of strings\<close>

partial_function (option) strlen_from :: "memory \<Rightarrow> addr \<Rightarrow> nat \<Rightarrow> nat option" where
  "strlen_from m s i = do { c \<leftarrow> m (s + i); if c \<noteq> 0 then strlen_from m s (i + 1) else Some i }"

definition strlen :: "memory \<Rightarrow> addr \<Rightarrow> nat option" where
  "strlen m s = strlen_from m s 0"

function strnlen_from :: "memory \<Rightarrow> addr \<Rightarrow> nat \<Rightarrow> nat \<Rightarrow> nat option" where
  "strnlen_from m s n i =
     (if i < n then do { c \<leftarrow> m (s + i); if c \<noteq> 0 then strnlen_from m s n (i + 1) else Some i } else Some i)"
  by auto
termination by (relation "measure (\<lambda>(m, s, n, i). n - i)") auto

declare strnlen_from.simps [simp del]

definition strnlen :: "memory \<Rightarrow> addr \<Rightarrow> nat \<Rightarrow> nat option" where
  "strnlen m s n = strnlen_from m s n 0"

text \<open>\<^verbatim>\<open>for (; src[i] != '\0'; i++) dest[i] = src[i]\<close>: the index reached and the memory.\<close>

partial_function (option) copy_str :: "addr \<Rightarrow> addr \<Rightarrow> nat \<Rightarrow> memory \<Rightarrow> (nat \<times> memory) option" where
  "copy_str d s i m = do {
     c \<leftarrow> m (s + i);
     if c \<noteq> 0 then do { m \<leftarrow> mem_put m (d + i) c; copy_str d s (i + 1) m } else Some (i, m)
   }"

function copy_strn :: "addr \<Rightarrow> addr \<Rightarrow> nat \<Rightarrow> nat \<Rightarrow> memory \<Rightarrow> (nat \<times> memory) option" where
  "copy_strn d s n i m =
     (if i < n then do {
        c \<leftarrow> m (s + i);
        if c \<noteq> 0 then do { m \<leftarrow> mem_put m (d + i) c; copy_strn d s n (i + 1) m } else Some (i, m)
      } else Some (i, m))"
  by auto
termination by (relation "measure (\<lambda>(d, s, n, i, m). n - i)") auto

declare copy_strn.simps [simp del]

definition strcpy :: "addr \<Rightarrow> addr \<Rightarrow> memory \<Rightarrow> (addr \<times> memory) option" where
  "strcpy dest src m = do { (i, m) \<leftarrow> copy_str dest src 0 m; m \<leftarrow> mem_put m (dest + i) 0; Some (dest, m) }"

definition stpcpy :: "addr \<Rightarrow> addr \<Rightarrow> memory \<Rightarrow> (addr \<times> memory) option" where
  "stpcpy dest src m = do { (i, m) \<leftarrow> copy_str dest src 0 m; m \<leftarrow> mem_put m (dest + i) 0; Some (dest + i, m) }"

definition strncpy :: "addr \<Rightarrow> addr \<Rightarrow> nat \<Rightarrow> memory \<Rightarrow> (addr \<times> memory) option" where
  "strncpy dest src n m = do { (i, m) \<leftarrow> copy_strn dest src n 0 m; m \<leftarrow> fill_up dest 0 n i m; Some (dest, m) }"

definition stpncpy :: "addr \<Rightarrow> addr \<Rightarrow> nat \<Rightarrow> memory \<Rightarrow> (addr \<times> memory) option" where
  "stpncpy dest src n m = do { (i, m) \<leftarrow> copy_strn dest src n 0 m; m \<leftarrow> fill_up dest 0 n i m; Some (dest + i, m) }"

definition strcat :: "addr \<Rightarrow> addr \<Rightarrow> memory \<Rightarrow> (addr \<times> memory) option" where
  "strcat dest src m = do {
     end' \<leftarrow> strlen m dest;
     (i, m) \<leftarrow> copy_str (dest + end') src 0 m;
     m \<leftarrow> mem_put m (dest + end' + i) 0;
     Some (dest, m)
   }"

definition strncat :: "addr \<Rightarrow> addr \<Rightarrow> nat \<Rightarrow> memory \<Rightarrow> (addr \<times> memory) option" where
  "strncat dest src n m = do {
     end' \<leftarrow> strlen m dest;
     (i, m) \<leftarrow> copy_strn (dest + end') src n 0 m;
     m \<leftarrow> mem_put m (dest + end' + i) 0;
     Some (dest, m)
   }"

definition strxfrm :: "addr \<Rightarrow> addr \<Rightarrow> nat \<Rightarrow> memory \<Rightarrow> (nat \<times> memory) option" where
  "strxfrm s1 s2 n m = do {
     len \<leftarrow> strlen m s2;
     let to_copy = min (len + 1) n;
     (_, m) \<leftarrow> strncpy s1 s2 to_copy m;
     Some (to_copy, m)
   }"

text \<open>\<open>malloc\<close> is an argument: it gives the block's address, or None for NULL, and the memory with the block.\<close>

definition strdup :: "(nat \<Rightarrow> memory \<Rightarrow> addr option \<times> memory) \<Rightarrow> addr \<Rightarrow> memory \<Rightarrow> (addr option \<times> memory) option" where
  "strdup malloc s m = do {
     n \<leftarrow> strlen m s;
     let len = n + 1;
     let (b, m) = malloc len m;
     dest \<leftarrow> b;
     (_, m) \<leftarrow> memcpy dest s len m;
     Some (b, m)
   }"

definition strndup :: "(nat \<Rightarrow> memory \<Rightarrow> addr option \<times> memory) \<Rightarrow> addr \<Rightarrow> nat \<Rightarrow> memory \<Rightarrow> (addr option \<times> memory) option" where
  "strndup malloc s n m = do {
     len \<leftarrow> strnlen m s n;
     let (ret, m) = malloc (len + 1) m;
     case ret of None \<Rightarrow> Some (None, m)
     | Some r \<Rightarrow> do {
         (_, m) \<leftarrow> memcpy r s len m;
         m \<leftarrow> mem_put m (r + len) 0;
         Some (ret, m)
       }
   }"

subsection \<open>Comparing\<close>

partial_function (option) strcmp_from :: "memory \<Rightarrow> addr \<Rightarrow> addr \<Rightarrow> nat \<Rightarrow> int option" where
  "strcmp_from m s1 s2 i = do {
     a \<leftarrow> m (s1 + i);
     b \<leftarrow> m (s2 + i);
     if a \<noteq> 0 \<and> b \<noteq> 0
     then if sint a < sint b then Some (-1) else if sint a > sint b then Some 1 else strcmp_from m s1 s2 (i + 1)
     else Some (sint a - sint b)
   }"

definition strcmp :: "memory \<Rightarrow> addr \<Rightarrow> addr \<Rightarrow> int option" where
  "strcmp m s1 s2 = strcmp_from m s1 s2 0"

definition strcoll :: "memory \<Rightarrow> addr \<Rightarrow> addr \<Rightarrow> int option" where
  "strcoll m s1 s2 = strcmp m s1 s2"

function strncmp_from :: "memory \<Rightarrow> addr \<Rightarrow> addr \<Rightarrow> nat \<Rightarrow> nat \<Rightarrow> int option" where
  "strncmp_from m s1 s2 n i =
     (if i < n then do {
        a \<leftarrow> m (s1 + i);
        b \<leftarrow> m (s2 + i);
        if a \<noteq> 0 \<and> b \<noteq> 0
        then if sint a < sint b then Some (-1) else if sint a > sint b then Some 1 else strncmp_from m s1 s2 n (i + 1)
        else Some (sint a - sint b)
      } else Some 0)"
  by auto
termination by (relation "measure (\<lambda>(m, s1, s2, n, i). n - i)") auto

declare strncmp_from.simps [simp del]

definition strncmp :: "memory \<Rightarrow> addr \<Rightarrow> addr \<Rightarrow> nat \<Rightarrow> int option" where
  "strncmp m s1 s2 n = strncmp_from m s1 s2 n 0"

subsection \<open>Searching\<close>

partial_function (option) strchr_from :: "memory \<Rightarrow> addr \<Rightarrow> u8 \<Rightarrow> nat \<Rightarrow> addr option option" where
  "strchr_from m s val i = do {
     c \<leftarrow> m (s + i);
     if c \<noteq> 0 then if c = val then Some (Some (s + i)) else strchr_from m s val (i + 1) else Some None
   }"

definition strchr :: "memory \<Rightarrow> addr \<Rightarrow> u32 \<Rightarrow> addr option option" where
  "strchr m s c = strchr_from m s (ucast c) 0"

partial_function (option) strrchr_from :: "memory \<Rightarrow> addr \<Rightarrow> u8 \<Rightarrow> addr option \<Rightarrow> nat \<Rightarrow> addr option option" where
  "strrchr_from m s val last_occurence i = do {
     c \<leftarrow> m (s + i);
     if c \<noteq> 0
     then strrchr_from m s val (if c = val then Some (s + i) else last_occurence) (i + 1)
     else Some last_occurence
   }"

definition strrchr :: "memory \<Rightarrow> addr \<Rightarrow> u32 \<Rightarrow> addr option option" where
  "strrchr m s c = strrchr_from m s (ucast c) None 0"

text \<open>The inner loop of the functions that take a set of characters.\<close>

partial_function (option) in_string :: "memory \<Rightarrow> addr \<Rightarrow> u8 \<Rightarrow> nat \<Rightarrow> bool option" where
  "in_string m set' c j = do {
     d \<leftarrow> m (set' + j);
     if d \<noteq> 0 then if c = d then Some True else in_string m set' c (j + 1) else Some False
   }"

partial_function (option) strpbrk_from :: "memory \<Rightarrow> addr \<Rightarrow> addr \<Rightarrow> nat \<Rightarrow> addr option option" where
  "strpbrk_from m s accept i = do {
     c \<leftarrow> m (s + i);
     if c \<noteq> 0
     then do { hit \<leftarrow> in_string m accept c 0; if hit then Some (Some (s + i)) else strpbrk_from m s accept (i + 1) }
     else Some None
   }"

definition strpbrk :: "memory \<Rightarrow> addr \<Rightarrow> addr \<Rightarrow> addr option option" where
  "strpbrk m s accept = strpbrk_from m s accept 0"

partial_function (option) strspn_from :: "memory \<Rightarrow> addr \<Rightarrow> addr \<Rightarrow> nat \<Rightarrow> nat option" where
  "strspn_from m s accept i = do {
     c \<leftarrow> m (s + i);
     if c \<noteq> 0
     then do { found \<leftarrow> in_string m accept c 0; if \<not> found then Some i else strspn_from m s accept (i + 1) }
     else Some i
   }"

definition strspn :: "memory \<Rightarrow> addr \<Rightarrow> addr \<Rightarrow> nat option" where
  "strspn m s accept = strspn_from m s accept 0"

partial_function (option) strcspn_from :: "memory \<Rightarrow> addr \<Rightarrow> addr \<Rightarrow> nat \<Rightarrow> nat option" where
  "strcspn_from m s reject i = do {
     c \<leftarrow> m (s + i);
     if c \<noteq> 0
     then do { hit \<leftarrow> in_string m reject c 0; if hit then Some i else strcspn_from m s reject (i + 1) }
     else Some i
   }"

definition strcspn :: "memory \<Rightarrow> addr \<Rightarrow> addr \<Rightarrow> nat option" where
  "strcspn m s reject = strcspn_from m s reject 0"

datatype match_result = Matches | Differs | Ended

partial_function (option) match_at :: "memory \<Rightarrow> addr \<Rightarrow> addr \<Rightarrow> nat \<Rightarrow> match_result option" where
  "match_at m s sub j = do {
     d \<leftarrow> m (sub + j);
     if d = 0 then Some Matches
     else do {
       c \<leftarrow> m (s + j);
       if c = 0 then Some Ended else if c \<noteq> d then Some Differs else match_at m s sub (j + 1)
     }
   }"

partial_function (option) strstr_from :: "memory \<Rightarrow> addr \<Rightarrow> addr \<Rightarrow> nat \<Rightarrow> addr option option" where
  "strstr_from m s sub i = do {
     c \<leftarrow> m (s + i);
     if c \<noteq> 0
     then do {
       r \<leftarrow> match_at m (s + i) sub 0;
       case r of Ended \<Rightarrow> Some None
       | Matches \<Rightarrow> Some (Some (s + i))
       | Differs \<Rightarrow> strstr_from m s sub (i + 1)
     }
     else Some None
   }"

definition strstr :: "memory \<Rightarrow> addr \<Rightarrow> addr \<Rightarrow> addr option option" where
  "strstr m s sub = strstr_from m s sub 0"

subsection \<open>Tokens\<close>

text \<open>
  The scan of \<open>strtok_r\<close>: where the token starts, its length, and whether a delimiter ended it.
\<close>

partial_function (option) tok_scan :: "memory \<Rightarrow> addr \<Rightarrow> addr \<Rightarrow> nat \<Rightarrow> (addr \<times> nat \<times> bool) option" where
  "tok_scan m delim start i = do {
     c \<leftarrow> m (start + i);
     if c \<noteq> 0
     then do {
       hit \<leftarrow> in_string m delim c 0;
       if hit then if i = 0 then tok_scan m delim (start + 1) 0 else Some (start, i, True)
       else tok_scan m delim start (i + 1)
     }
     else Some (start, i, False)
   }"

text \<open>\<open>save_ptr\<close> is NULL or points to a variable with the given value; the result has its new value.\<close>

definition strtok_r :: "addr option \<Rightarrow> addr \<Rightarrow> addr option option \<Rightarrow> memory \<Rightarrow>
  (addr option \<times> addr option option \<times> memory) option" where
  "strtok_r str delim save_ptr m =
     (if str = None \<and> (save_ptr = None \<or> save_ptr = Some None) then Some (None, save_ptr, m)
      else do {
        start \<leftarrow> (case str of Some s \<Rightarrow> Some s | None \<Rightarrow> do { p \<leftarrow> save_ptr; p });
        (start, i, hit) \<leftarrow> tok_scan m delim start 0;
        m \<leftarrow> (if hit then mem_put m (start + i) 0 else Some m);
        _ \<leftarrow> save_ptr;
        Some (Some start, Some (if hit then if i = 0 then None else Some (start + i + 1) else None), m)
      })"

definition strtok :: "addr option \<Rightarrow> addr \<Rightarrow> addr option \<times> memory \<Rightarrow> (addr option \<times> addr option \<times> memory) option" where
  "strtok str delim = (\<lambda>(save, m). do {
     (r, save_ptr, m) \<leftarrow> strtok_r str delim (Some save) m;
     s \<leftarrow> save_ptr;
     Some (r, s, m)
   })"

subsection \<open>Messages\<close>

definition sys_errlist :: "string list" where
  "sys_errlist =
    [''Success'', ''IO error'', ''Ran out of memory'', ''Invalid arguments'', ''File does not exist'',
     ''File cannot be executed'', ''Path is a directory'', ''Range'', ''No space left on device'',
     ''Invalid command for device'', ''File exists'', ''Bad file descriptor'', ''Directory is not empty'',
     ''Not a directory'', ''Permission denied'', ''Address family not supported'', ''Address in use'',
     ''Address not available'', ''Is connected'', ''To big'', ''Domain error'', ''Would page fault'',
     ''Bad file descriptor'', ''Pipe disconnected'', ''Connection aborted'', ''Already'',
     ''Connection refused'', ''Connection reset'', ''Cannot move file accross two different devices'',
     ''Destination addr request'', ''Busy'', ''EFBIG'', ''Name too long'', ''System call unsupported'',
     ''Host unreachable'', ''Interrupted'', ''ESPIPE'', ''Message size'', ''Network down'',
     ''Network reset'', ''Network unreachable'', ''ENOBUFS'', ''Child'', ''ENOLCK'', ''No message'',
     ''Unsupported protocol option'', ''ENXIO'', ''No such device'', ''Search failed'', ''Not a socket'',
     ''Not connected'', ''In progress'', ''Operation unsupported'', ''Would block'', ''Access denied'',
     ''Protocol unsupported'', ''Read only file system'', ''Dead lock'', ''Timed out'', ''ENFILE'',
     ''EMFILE'', ''EMLINK'', ''Symbolic link loop'', ''Prototype'', ''EILSEQ'', ''Not supported'',
     ''Unrecoverable state'', ''Owner dead'', ''Overflow'', ''Identifier removed'', ''Bad message'',
     ''Not a link'', ''No message in stream'', ''Not enough streams'', ''Not a stream'', ''Cancelled'',
     ''Protocol error'', ''Stream timeout'', ''Text file busy'', ''Errno end'']"

definition sys_nerr :: int where
  "sys_nerr = 79"

text \<open>The message and the value \<open>errno\<close> is set to, if any; a read behind the table has no result.\<close>

definition strerror :: "int \<Rightarrow> (string \<times> int option) option" where
  "strerror errnum =
     (if errnum \<ge> sys_nerr \<or> errnum < 0 then Some (''Invalid Errno'', Some EINVAL)
      else do { s \<leftarrow> cell_get sys_errlist (nat errnum); Some (s, None) })"

definition sys_siglist :: "string list" where
  "sys_siglist =
    [''Invalid signal number'', ''TTY hang up'', ''Interrupted'', ''Quit'', ''Bus'', ''Trap'', ''Aborted'',
     ''Continued'', ''Floating point exeception'', ''Killed'', ''Read from tty'', ''Write to tty'',
     ''Illegal instruction'', ''Pipe error'', ''Alarm'', ''Terminated'', ''Segmentation fault'', ''Stopped'',
     ''Stopped by tty'', ''User 1'', ''User 2'', ''Poll'', ''Profile'', ''Invalid system call'', ''Urge'',
     ''Virtual alarm'', ''CPU exceeded time limit'', ''File size limit exceeded'', ''Child state change'',
     ''Window size change'', ''__PTHREAD_TIMER_SIGNAL'', ''__PTHREAD_CANCEL_SIGNAL'', ''SIGRTMIN'',
     ''SIGRTMIN+1'', ''SIGRTMIN+2'', ''SIGRTMIN+3'', ''SIGRTMIN+4'', ''SIGRTMIN+5'', ''SIGRTMIN+6'',
     ''SIGRTMIN+7'', ''SIGRTMIN+8'', ''SIGRTMIN+9'', ''SIGRTMIN+10'', ''SIGRTMIN+11'', ''SIGRTMIN+12'',
     ''SIGRTMIN+13'', ''SIGRTMIN+14'', ''SIGRTMIN+15'', ''SIGRTMIN+16'', ''SIGRTMIN+17'', ''SIGRTMIN+18'',
     ''SIGRTMIN+19'', ''SIGRTMIN+20'', ''SIGRTMIN+21'', ''SIGRTMIN+22'', ''SIGRTMIN+23'', ''SIGRTMIN+24'',
     ''SIGRTMIN+25'', ''SIGRTMIN+26'', ''SIGRTMIN+27'', ''SIGRTMIN+28'', ''SIGRTMIN+29'', ''SIGRTMIN+30'',
     ''SIGRTMIN+31'', ''SIGRTMAX'']"

definition NSIG :: int where
  "NSIG = 65"

definition strsignal :: "int \<Rightarrow> string option" where
  "strsignal sig = (let sig = (if sig < 0 \<or> sig > NSIG then 0 else sig) in cell_get sys_siglist (nat sig))"

section \<open>Moving memory\<close>

text \<open>The result of copying as if through a second buffer.\<close>

definition copied :: "addr \<Rightarrow> addr \<Rightarrow> nat \<Rightarrow> memory \<Rightarrow> memory" where
  "copied d s n m = (\<lambda>a. if d \<le> a \<and> a < d + n then m (s + (a - d)) else m a)"

definition mapped :: "memory \<Rightarrow> addr \<Rightarrow> nat \<Rightarrow> bool" where
  "mapped m a n \<longleftrightarrow> (\<forall>i < n. m (a + i) \<noteq> None)"

lemma mem_put_some: "m a \<noteq> None \<Longrightarrow> mem_put m a c = Some (m(a \<mapsto> c))"
  by (simp add: mem_put_def)

lemma mapped_put: "mapped m b n \<Longrightarrow> mapped (m(a \<mapsto> c)) b n"
  by (simp add: mapped_def)

lemma copy_up_from:
  assumes "d \<le> s \<or> s + n \<le> d" "mapped m s n" "mapped m d n" "i \<le> n"
  shows "copy_up d s n i m = Some (\<lambda>a. if d + i \<le> a \<and> a < d + n then m (s + (a - d)) else m a)"
  using assms(2-4)
proof (induction "n - i" arbitrary: i m)
  case 0
  then have "i = n" by simp
  then show ?case by (subst copy_up.simps) (auto simp: fun_eq_iff)
next
  case (Suc k)
  then have i: "i < n" by simp
  obtain c where c: "m (s + i) = Some c" using Suc.prems(1) i by (auto simp: mapped_def)
  have d: "m (d + i) \<noteq> None" using Suc.prems(2) i by (simp add: mapped_def)
  let ?m = "m(d + i \<mapsto> c)"
  have "copy_up d s n i m = copy_up d s n (i + 1) ?m"
    using i c d by (subst copy_up.simps) (simp add: mem_put_some)
  also have "\<dots> = Some (\<lambda>a. if d + (i + 1) \<le> a \<and> a < d + n then ?m (s + (a - d)) else ?m a)"
    using Suc.hyps(2) Suc.prems i by (intro Suc.hyps(1)) (simp_all add: mapped_put)
  also have "(\<lambda>a. if d + (i + 1) \<le> a \<and> a < d + n then ?m (s + (a - d)) else ?m a) =
      (\<lambda>a. if d + i \<le> a \<and> a < d + n then m (s + (a - d)) else m a)"
    using assms(1) c i by (auto simp: fun_eq_iff)
  finally show ?case .
qed

lemma copy_down_from:
  assumes "s < d" "mapped m s n" "mapped m d n"
  shows "copy_down d s n m = Some (copied d s n m)"
  using assms(2,3)
proof (induction n arbitrary: m)
  case 0
  then show ?case by (auto simp: copied_def fun_eq_iff)
next
  case (Suc n)
  obtain c where c: "m (s + n) = Some c" using Suc.prems(1) by (auto simp: mapped_def)
  have d: "m (d + n) \<noteq> None" using Suc.prems(2) by (simp add: mapped_def)
  let ?m = "m(d + n \<mapsto> c)"
  have "mapped m s n" "mapped m d n" using Suc.prems by (simp_all add: mapped_def)
  then have IH: "copy_down d s n ?m = Some (copied d s n ?m)" by (intro Suc.IH mapped_put)
  have "copy_down d s (Suc n) m = copy_down d s n ?m" using c d by (simp add: mem_put_some)
  also note IH
  also have "copied d s n ?m = copied d s (Suc n) m"
    using assms(1) c by (auto simp: copied_def fun_eq_iff less_Suc_eq)
  finally show ?case .
qed

text \<open>
  C13 (memmove_parallel). \<open>memmove\<close> copies as if through a second buffer, however source and destination
  overlap; \<open>memcpy\<close> does the same whenever the destination does not start inside the source.
\<close>

theorem memmove_parallel:
  assumes "mapped m src n" "mapped m dest n"
  shows "memmove dest src n m = Some (dest, copied dest src n m) \<and>
    (dest \<le> src \<or> src + n \<le> dest \<longrightarrow> memcpy dest src n m = memmove dest src n m)"
proof -
  have up: "copy_up dest src n 0 m = Some (copied dest src n m)" if "dest \<le> src \<or> src + n \<le> dest"
    using copy_up_from [OF that assms] by (simp add: copied_def)
  have "memmove dest src n m = Some (dest, copied dest src n m)"
    using up copy_down_from [OF _ assms] by (cases "src < dest") (simp_all add: memmove_def)
  then show ?thesis using up by (auto simp: memcpy_def)
qed

lemma memmove_parallel_witness:
  "\<exists>m'. memmove 1 0 3 (\<lambda>a. if a < 4 then Some (of_nat a) else None) = Some (1, m') \<and>
     map m' [0, 1, 2, 3] = [Some 0, Some 0, Some 1, Some 2]"
  using memmove_parallel [of "\<lambda>a. if a < 4 then Some (of_nat a) else None" 0 3 1]
  by (simp add: mapped_def copied_def)

section \<open>Stored strings\<close>

fun cstr :: "memory \<Rightarrow> addr \<Rightarrow> u8 list \<Rightarrow> bool" where
  "cstr m s [] \<longleftrightarrow> m s = Some 0"
| "cstr m s (c # cs) \<longleftrightarrow> c \<noteq> 0 \<and> m s = Some c \<and> cstr m (s + 1) cs"

lemma strlen_from_cstr: "cstr m (s + i) xs \<Longrightarrow> strlen_from m s i = Some (i + length xs)"
  by (induction xs arbitrary: i) (subst strlen_from.simps; simp)+

lemma strlen_cstr: "cstr m s xs \<Longrightarrow> strlen m s = Some (length xs)"
  using strlen_from_cstr [of m s 0 xs] by (simp add: strlen_def)

lemma in_string_cstr: "cstr m (p + j) ds \<Longrightarrow> in_string m p c j = Some (c \<in> set ds)"
  by (induction ds arbitrary: j) (subst in_string.simps; simp)+

lemma strspn_cstr:
  "cstr m (s + i) xs \<Longrightarrow> cstr m p ds \<Longrightarrow>
   strspn_from m s p i = Some (i + length (takeWhile (\<lambda>c. c \<in> set ds) xs))"
  by (induction xs arbitrary: i) (subst strspn_from.simps; simp add: in_string_cstr [of m p 0 ds])+

lemma strcspn_cstr:
  "cstr m (s + i) xs \<Longrightarrow> cstr m p ds \<Longrightarrow>
   strcspn_from m s p i = Some (i + length (takeWhile (\<lambda>c. c \<notin> set ds) xs))"
  by (induction xs arbitrary: i) (subst strcspn_from.simps; simp add: in_string_cstr [of m p 0 ds])+

text \<open>Equal strings, and only they, compare equal.\<close>

lemma strcmp_from_zero:
  "cstr m (s1 + i) xs \<Longrightarrow> cstr m (s2 + i) ys \<Longrightarrow> \<exists>r. strcmp_from m s1 s2 i = Some r \<and> (r = 0 \<longleftrightarrow> xs = ys)"
proof (induction xs arbitrary: i ys)
  case Nil
  then show ?case by (cases ys) (subst strcmp_from.simps; simp add: signed_eq_0_iff)+
next
  case (Cons x xs)
  show ?case
  proof (cases ys)
    case Nil
    then show ?thesis using Cons.prems by (subst strcmp_from.simps) (simp add: signed_eq_0_iff)
  next
    case (Cons y zs)
    have "\<exists>r. strcmp_from m s1 s2 (i + 1) = Some r \<and> (r = 0 \<longleftrightarrow> xs = zs)"
      using Cons.IH [of "i + 1" zs] Cons.prems Cons by simp
    moreover have "sint x = sint y \<longleftrightarrow> x = y" by (metis signed_word_eqI)
    ultimately show ?thesis using Cons.prems Cons
      by (subst strcmp_from.simps) (auto simp: not_less antisym_conv3)
  qed
qed

lemma match_at_cstr:
  "cstr m (s + j) xs \<Longrightarrow> cstr m (p + j) ys \<Longrightarrow> match_at m s p j =
     Some (if take (length ys) xs = ys then Matches
           else if length xs < length ys \<and> take (length xs) ys = xs then Ended else Differs)"
proof (induction ys arbitrary: j xs)
  case Nil
  then show ?case by (subst match_at.simps) simp
next
  case (Cons y ys)
  show ?case
  proof (cases xs)
    case Nil
    then show ?thesis using Cons.prems by (subst match_at.simps) simp
  next
    case (Cons x zs)
    then show ?thesis using Cons.prems Cons.IH [of "j + 1" zs]
      by (subst match_at.simps) auto
  qed
qed

text \<open>An occurrence of \<open>ys\<close> at index \<open>i\<close> of \<open>xs\<close>.\<close>

definition occurs_at :: "u8 list \<Rightarrow> u8 list \<Rightarrow> nat \<Rightarrow> bool" where
  "occurs_at ys xs i \<longleftrightarrow> i \<le> length xs \<and> take (length ys) (drop i xs) = ys"

lemma occurs_at_Cons: "occurs_at ys (x # xs) (Suc i) \<longleftrightarrow> occurs_at ys xs i"
  by (simp add: occurs_at_def)

lemma occurs_short: "length xs < length ys \<Longrightarrow> \<not> occurs_at ys xs i"
  by (auto simp: occurs_at_def dest: arg_cong [of _ _ length])

lemma strstr_from_cstr:
  assumes "cstr m p ys" "ys \<noteq> []"
  shows "cstr m (s + i) xs \<Longrightarrow> \<exists>r. strstr_from m s p i = Some r \<and>
     (case r of None \<Rightarrow> \<forall>k. \<not> occurs_at ys xs k
      | Some a \<Rightarrow> \<exists>k. a = s + i + k \<and> occurs_at ys xs k \<and> (\<forall>l < k. \<not> occurs_at ys xs l))"
proof (induction xs arbitrary: i)
  case Nil
  then show ?case using assms(2) by (subst strstr_from.simps) (simp add: occurs_at_def)
next
  case (Cons x xs)
  let ?xs = "x # xs"
  have at: "match_at m (s + i) p 0 = Some (if take (length ys) ?xs = ys then Matches
           else if length ?xs < length ys \<and> take (length ?xs) ys = ?xs then Ended else Differs)"
    using Cons.prems assms(1) by (intro match_at_cstr) simp_all
  consider "take (length ys) ?xs = ys"
    | "take (length ys) ?xs \<noteq> ys" "length ?xs < length ys \<and> take (length ?xs) ys = ?xs"
    | "take (length ys) ?xs \<noteq> ys" "\<not> (length ?xs < length ys \<and> take (length ?xs) ys = ?xs)" by blast
  then show ?case
  proof cases
    case 1
    then show ?thesis using Cons.prems at by (subst strstr_from.simps) (simp add: occurs_at_def)
  next
    case 2
    then show ?thesis using Cons.prems at occurs_short [of ?xs ys] by (subst strstr_from.simps) simp
  next
    case 3
    have step: "strstr_from m s p i = strstr_from m s p (i + 1)"
      using Cons.prems at 3 by (subst strstr_from.simps) auto
    have zero: "\<not> occurs_at ys ?xs 0" using 3(1) by (simp add: occurs_at_def)
    obtain r where r: "strstr_from m s p (i + 1) = Some r"
      "case r of None \<Rightarrow> \<forall>k. \<not> occurs_at ys xs k
      | Some a \<Rightarrow> \<exists>k. a = s + (i + 1) + k \<and> occurs_at ys xs k \<and> (\<forall>l < k. \<not> occurs_at ys xs l)"
      using Cons.IH [of "i + 1"] Cons.prems by auto
    show ?thesis
    proof (cases r)
      case None
      then have "\<not> occurs_at ys ?xs k" for k using r(2) zero by (cases k) (simp_all add: occurs_at_Cons)
      then show ?thesis using step r(1) None by simp
    next
      case (Some a)
      then obtain k where k: "a = s + i + Suc k" "occurs_at ys xs k" "\<forall>l < k. \<not> occurs_at ys xs l" using r(2) by auto
      have "\<not> occurs_at ys ?xs l" if "l < Suc k" for l
        using that k(3) zero by (cases l) (simp_all add: occurs_at_Cons)
      then show ?thesis using step r(1) Some k by (auto simp: occurs_at_Cons intro!: exI [of _ "Suc k"])
    qed
  qed
qed



section \<open>Splitting into tokens\<close>

lemma cstr_append:
  "cstr m s (xs @ ys) \<longleftrightarrow> (\<forall>k < length xs. m (s + k) = Some (xs ! k)) \<and> 0 \<notin> set xs \<and> cstr m (s + length xs) ys"
proof (induction xs arbitrary: s)
  case (Cons x xs)
  have "(\<forall>k < length (x # xs). m (s + k) = Some ((x # xs) ! k)) \<longleftrightarrow>
      m s = Some x \<and> (\<forall>k < length xs. m (s + 1 + k) = Some (xs ! k))"
    by (auto simp: less_Suc_eq_0_disj)
  then show ?case using Cons.IH [of "s + 1"] by auto
qed simp

lemma cstr_char: "cstr m s xs \<Longrightarrow> k < length xs \<Longrightarrow> m (s + k) = Some (xs ! k)"
  using cstr_append [of m s xs "[]"] by simp

lemma cstr_frame:
  assumes "cstr m s xs" "\<And>a. s \<le> a \<Longrightarrow> a \<le> s + length xs \<Longrightarrow> m' a = m a"
  shows "cstr m' s xs"
  using assms
proof (induction xs arbitrary: s)
  case (Cons x xs)
  then have "cstr m' (s + 1) xs" by (intro Cons.IH) auto
  then show ?case using Cons.prems by simp
qed simp

lemma tok_scan_inside:
  assumes "cstr m p ds"
  shows "cstr m (s + i) xs \<Longrightarrow> 0 < i \<Longrightarrow> tok_scan m p s i =
     Some (s, i + length (takeWhile (\<lambda>c. c \<notin> set ds) xs), dropWhile (\<lambda>c. c \<notin> set ds) xs \<noteq> [])"
  by (induction xs arbitrary: i) (subst tok_scan.simps; simp add: in_string_cstr [of m p 0 ds] assms)+

lemma tok_scan_cstr:
  assumes "cstr m p ds"
  shows "cstr m s xs \<Longrightarrow> tok_scan m p s 0 =
     (let ys = dropWhile (\<lambda>c. c \<in> set ds) xs in
      Some (s + length (takeWhile (\<lambda>c. c \<in> set ds) xs), length (takeWhile (\<lambda>c. c \<notin> set ds) ys),
        dropWhile (\<lambda>c. c \<notin> set ds) ys \<noteq> []))"
proof (induction xs arbitrary: s)
  case Nil
  then show ?case by (subst tok_scan.simps) simp
next
  case (Cons x xs)
  show ?case
  proof (cases "x \<in> set ds")
    case True
    then show ?thesis using Cons in_string_cstr [of m p 0 ds] assms
      by (subst tok_scan.simps) (simp add: Let_def)
  next
    case False
    then show ?thesis using Cons.prems in_string_cstr [of m p 0 ds] assms tok_scan_inside [OF assms, of s 1 xs]
      by (subst tok_scan.simps) (simp add: Let_def)
  qed
qed

text \<open>The tokens of a string, the last of them ended by the end of the string (and possibly empty).\<close>

function tokens :: "('a \<Rightarrow> bool) \<Rightarrow> 'a list \<Rightarrow> 'a list list" where
  "tokens D xs =
     (let ys = dropWhile D xs; rest = dropWhile (\<lambda>c. \<not> D c) ys in
      takeWhile (\<lambda>c. \<not> D c) ys # (if rest = [] then [] else tokens D (tl rest)))"
  by auto
termination
proof (relation "measure (\<lambda>(D, xs). length xs)")
  fix D :: "'a \<Rightarrow> bool" and xs ys rest
  assume "ys = dropWhile D xs" "rest = dropWhile (\<lambda>c. \<not> D c) ys" "rest \<noteq> []"
  then have "length rest \<le> length xs" "rest \<noteq> []"
    using length_dropWhile_le [of D xs] length_dropWhile_le [of "\<lambda>c. \<not> D c" ys] by simp_all
  then show "((D, tl rest), D, xs) \<in> measure (\<lambda>(D, xs). length xs)" by (cases rest) auto
qed simp

declare tokens.simps [simp del]

text \<open>Calling \<open>strtok\<close> with the string first and then with NULL until it returns NULL.\<close>

partial_function (option) all_tokens :: "addr option \<Rightarrow> addr \<Rightarrow> addr option \<Rightarrow> memory \<Rightarrow> (addr list \<times> memory) option" where
  "all_tokens str delim save m = do {
     (r, save, m) \<leftarrow> strtok str delim (save, m);
     case r of None \<Rightarrow> Some ([], m)
     | Some a \<Rightarrow> do { (as, m) \<leftarrow> all_tokens None delim save m; Some (a # as, m) }
   }"

lemma strtok_done: "strtok None p (None, m) = Some (None, None, m)"
  by (simp add: strtok_def strtok_r_def)

lemma strtok_cstr:
  assumes "cstr m p ds" "cstr m s xs" "str = Some s \<or> str = None \<and> save = Some s"
  defines "ys \<equiv> dropWhile (\<lambda>c. c \<in> set ds) xs"
  defines "t \<equiv> takeWhile (\<lambda>c. c \<notin> set ds) ys" and "rest \<equiv> dropWhile (\<lambda>c. c \<notin> set ds) ys"
  defines "a \<equiv> s + length (takeWhile (\<lambda>c. c \<in> set ds) xs)"
  shows "strtok str p (save, m) =
    (if rest = [] then Some (Some a, None, m)
     else Some (Some a, Some (a + length t + 1), m(a + length t \<mapsto> 0)))"
proof -
  have scan: "tok_scan m p s 0 = Some (a, length t, rest \<noteq> [])"
    using tok_scan_cstr [OF assms(1,2)] by (simp add: Let_def ys_def t_def rest_def a_def)
  have xs: "xs = takeWhile (\<lambda>c. c \<in> set ds) xs @ t @ rest" by (simp add: ys_def t_def rest_def)
  have "m (a + length t) \<noteq> None" if "rest \<noteq> []"
  proof -
    have "cstr m (s + length (takeWhile (\<lambda>c. c \<in> set ds) xs @ t)) rest"
      using assms(2) xs cstr_append [of m s "takeWhile (\<lambda>c. c \<in> set ds) xs @ t" rest] by simp
    then show ?thesis using that by (cases rest) (simp_all add: a_def add.assoc)
  qed
  moreover have "t \<noteq> []" if "rest \<noteq> []"
  proof -
    have "ys \<noteq> []" using that by (auto simp: rest_def)
    then have "hd ys \<notin> set ds" unfolding ys_def by (rule hd_dropWhile)
    then show ?thesis using \<open>ys \<noteq> []\<close> by (cases ys) (auto simp: t_def)
  qed
  ultimately show ?thesis using assms(3) scan
    by (auto simp: strtok_def strtok_r_def mem_put_some)
qed

lemma all_tokens_cstr:
  assumes "cstr m p ds" "cstr m s xs" "p + length ds < s \<or> s + length xs < p" "str = Some s \<or> str = None \<and> save = Some s"
  shows "\<exists>as m'. all_tokens str p save m = Some (as, m') \<and> list_all2 (cstr m') as (tokens (\<lambda>c. c \<in> set ds) xs) \<and>
    (\<forall>a. a < s \<or> s + length xs < a \<longrightarrow> m' a = m a)"
  using assms
proof (induction "length xs" arbitrary: m s xs str save rule: less_induct)
  case less
  define pre where "pre = takeWhile (\<lambda>c. c \<in> set ds) xs"
  define ys where "ys = dropWhile (\<lambda>c. c \<in> set ds) xs"
  define t where "t = takeWhile (\<lambda>c. c \<notin> set ds) ys"
  define rest where "rest = dropWhile (\<lambda>c. c \<notin> set ds) ys"
  define a where "a = s + length pre"
  have xs: "xs = pre @ t @ rest" by (simp add: pre_def ys_def t_def rest_def)
  have tok: "strtok str p (save, m) = (if rest = [] then Some (Some a, None, m)
     else Some (Some a, Some (a + length t + 1), m(a + length t \<mapsto> 0)))"
    unfolding a_def rest_def t_def ys_def pre_def by (rule strtok_cstr [OF less.prems(1,2,4)])
  have toks: "tokens (\<lambda>c. c \<in> set ds) xs = t # (if rest = [] then [] else tokens (\<lambda>c. c \<in> set ds) (tl rest))"
    unfolding t_def rest_def ys_def by (rule trans [OF tokens.simps]) (simp only: Let_def)
  have "cstr m s (pre @ t @ rest)" by (subst xs [symmetric]) (rule less.prems(2))
  then have at: "cstr m a (t @ rest)" unfolding a_def by (simp only: cstr_append [of m s pre])
  show ?case
  proof (cases "rest = []")
    case True
    have "all_tokens None p None m = Some ([], m)" by (subst all_tokens.simps) (simp add: strtok_done)
    then have "all_tokens str p save m = Some ([a], m)"
      using tok True by (subst all_tokens.simps) simp
    then show ?thesis using at True toks by simp
  next
    case False
    then obtain d us where rest: "rest = d # us" by (cases rest) auto
    let ?b = "a + length t"
    let ?m = "m(?b \<mapsto> 0)"
    have len: "s + length xs = ?b + 1 + length us" by (simp add: xs a_def rest)
    have "cstr m (?b + 1) us" using at unfolding cstr_append rest by simp
    then have us: "cstr ?m (?b + 1) us" by (rule cstr_frame) simp
    have p: "cstr ?m p ds" using less.prems(1,3) len by (intro cstr_frame [OF less.prems(1)]) (auto simp: a_def)
    have "\<exists>as m'. all_tokens None p (Some (?b + 1)) ?m = Some (as, m') \<and>
        list_all2 (cstr m') as (tokens (\<lambda>c. c \<in> set ds) us) \<and> (\<forall>x. x < ?b + 1 \<or> ?b + 1 + length us < x \<longrightarrow> m' x = ?m x)"
      using less.prems(3) len by (intro less.hyps [OF _ p us]) (auto simp: xs rest a_def)
    then obtain as m' where as: "all_tokens None p (Some (?b + 1)) ?m = Some (as, m')"
      "list_all2 (cstr m') as (tokens (\<lambda>c. c \<in> set ds) us)" and fr: "\<forall>x. x < ?b + 1 \<or> ?b + 1 + length us < x \<longrightarrow> m' x = ?m x"
      by blast
    have run: "all_tokens str p save m = Some (a # as, m')"
      using tok as(1) rest by (subst all_tokens.simps) simp
    have "cstr ?m a (t @ [])" using at unfolding cstr_append by auto
    then have t: "cstr ?m a t" by (simp only: append_Nil2)
    have "cstr m' a t"
    proof (rule cstr_frame [OF t])
      show "m' x = ?m x" if "a \<le> x" "x \<le> a + length t" for x using fr that by simp
    qed
    moreover have "\<forall>x. x < s \<or> s + length xs < x \<longrightarrow> m' x = m x" using fr len by (auto simp: a_def)
    ultimately show ?thesis using run as(2) toks by (intro exI [of _ "a # as"] exI [of _ m']) (simp add: rest)
  qed
qed

text \<open>
  C36 (strtok_tokens). Calling \<open>strtok\<close> on a string and then with NULL until it returns NULL terminates and
  yields the tokens of the string, in order and each terminated, without touching memory outside it. The
  end of the string always ends one more token: a string that ends with a delimiter, or is empty, yields
  a final empty token where C requires NULL.
\<close>

theorem strtok_tokens:
  assumes "cstr m delim ds" "cstr m s xs" "delim + length ds < s \<or> s + length xs < delim"
  shows "\<exists>as m'. all_tokens (Some s) delim save m = Some (as, m') \<and>
    list_all2 (cstr m') as (tokens (\<lambda>c. c \<in> set ds) xs) \<and>
    (\<forall>a. a < s \<or> s + length xs < a \<longrightarrow> m' a = m a)"
  using assms by (intro all_tokens_cstr) simp_all

lemma strtok_tokens_witness:
  "\<exists>as m'. all_tokens (Some 0) 10 None ((\<lambda>_. None)(0 \<mapsto> 97, 1 \<mapsto> 44, 2 \<mapsto> 98, 3 \<mapsto> 44, 4 \<mapsto> 0, 10 \<mapsto> 44, 11 \<mapsto> 0)) =
     Some (as, m') \<and> list_all2 (cstr m') as [[97], [98], []]"
proof -
  let ?m = "(\<lambda>_. None)(0 \<mapsto> 97, 1 \<mapsto> 44, 2 \<mapsto> 98, 3 \<mapsto> 44, 4 \<mapsto> 0, 10 \<mapsto> 44, 11 \<mapsto> 0) :: memory"
  have "cstr ?m 10 [44]" "cstr ?m 0 [97, 44, 98, 44]" by simp_all
  from strtok_tokens [OF this, of None] show ?thesis by (simp add: tokens.simps) blast
qed

section \<open>Message tables\<close>

text \<open>
  \<open>strerror\<close> gives a message for every number. \<open>strsignal\<close> gives one for every
  number but \<open>_NSIG\<close>: its range check lets 65 through, and the table has 65 entries.
\<close>

theorem message_tables_bounds: "strerror errnum \<noteq> None \<and> (strsignal sig = None \<longleftrightarrow> sig = NSIG)"
proof -
  have len: "length sys_errlist = 80" "length sys_siglist = 65"
    by (simp_all only: sys_errlist_def sys_siglist_def length_Cons list.size(3))
  have "strerror errnum \<noteq> None" using len(1) by (auto simp: strerror_def cell_get_def sys_nerr_def)
  moreover have "strsignal sig = None \<longleftrightarrow> sig = NSIG"
    using len(2) by (auto simp: strsignal_def cell_get_def NSIG_def Let_def split: if_splits)
  ultimately show ?thesis by blast
qed

end
