(* ===== verification/Libc_Conv.thy ===== *)
theory Libc_Conv
  imports Libc_String
begin

text \<open>
  Character classes and number conversions, \<^verbatim>\<open>libs/libc/ctype/ctype.c\<close>, \<^verbatim>\<open>libs/libc/stdlib/conversions.c\<close> and
  the integer functions of \<^verbatim>\<open>libs/libc/stdlib/stdlib.c\<close>. A \<open>char\<close> passed to a function that takes an
  \<open>int\<close> is sign extended (\<open>sint\<close>); 64-bit arithmetic is done on words. The theory shows that the
  conversions read the longest number and saturate exactly when it does not fit, and which classes of
  characters are wrong.
\<close>

section \<open>Character classes\<close>

definition isalpha :: "int \<Rightarrow> bool" where
  "isalpha c \<longleftrightarrow> 97 \<le> c \<and> c \<le> 122 \<or> 65 \<le> c \<and> c \<le> 90"

definition isblank :: "int \<Rightarrow> bool" where
  "isblank c \<longleftrightarrow> c = 32 \<or> c = 9"

definition isspace :: "int \<Rightarrow> bool" where
  "isspace c \<longleftrightarrow> c = 32 \<or> c = 10 \<or> c = 9 \<or> c = 11 \<or> c = 12 \<or> c = 13"

definition isdigit :: "int \<Rightarrow> bool" where
  "isdigit c \<longleftrightarrow> 48 \<le> c \<and> c \<le> 57"

definition iscntrl :: "int \<Rightarrow> bool" where
  "iscntrl c \<longleftrightarrow> 0 \<le> c \<and> c < 32 \<or> c = 127"

definition isprint :: "int \<Rightarrow> bool" where
  "isprint c \<longleftrightarrow> 32 \<le> c \<and> c < 127"

definition toupper :: "int \<Rightarrow> int" where
  "toupper c = (if c < 97 \<or> c > 122 then c else c AND NOT (65 XOR 97))"

definition tolower :: "int \<Rightarrow> int" where
  "tolower c = (if c < 65 \<or> c > 90 then c else c OR (65 XOR 97))"

definition isgraph :: "int \<Rightarrow> bool" where
  "isgraph c \<longleftrightarrow> 33 \<le> c \<and> c \<le> 126"

definition islower :: "int \<Rightarrow> bool" where
  "islower c \<longleftrightarrow> 97 \<le> c \<and> c \<le> 122"

definition ispunct :: "int \<Rightarrow> bool" where
  "ispunct c \<longleftrightarrow> c \<le> 33 \<and> c \<le> 47 \<or> c \<le> 58 \<and> c \<le> 64 \<or> c \<le> 91 \<and> c \<le> 96 \<or> c \<le> 123 \<and> c \<le> 126"

definition isupper :: "int \<Rightarrow> bool" where
  "isupper c \<longleftrightarrow> 65 \<le> c \<and> c \<le> 90"

definition isalnum :: "int \<Rightarrow> bool" where
  "isalnum c \<longleftrightarrow> isalpha c \<or> isdigit c"

definition isxdigit :: "int \<Rightarrow> bool" where
  "isxdigit c \<longleftrightarrow> isdigit c \<or> (tolower c \<le> 97 \<or> tolower c \<le> 122)"

section \<open>Integers\<close>

definition rand_r :: "u32 \<Rightarrow> u32 \<times> u32" where
  "rand_r seed = (let seed = seed * 1103515245 + 12345 in (seed mod 32767, seed))"

definition abs_int :: "u32 \<Rightarrow> u32" where
  "abs_int n = (if sint n < 0 then - n else n)"

definition labs :: "u64 \<Rightarrow> u64" where
  "labs n = (if sint n < 0 then - n else n)"

definition llabs :: "u64 \<Rightarrow> u64" where
  "llabs n = (if sint n < 0 then - n else n)"

section \<open>Numbers in strings\<close>

partial_function (option) skip_space :: "memory \<Rightarrow> addr \<Rightarrow> nat \<Rightarrow> nat option" where
  "skip_space m s i = do { c \<leftarrow> m (s + i); if isspace (sint c) then skip_space m s (i + 1) else Some i }"

partial_function (option) atoll_digits :: "memory \<Rightarrow> addr \<Rightarrow> nat \<Rightarrow> u64 \<Rightarrow> u64 option" where
  "atoll_digits m s i n = do {
     c \<leftarrow> m (s + i);
     if c \<noteq> 0 \<and> isdigit (sint c) then atoll_digits m s (i + 1) (n * 10 + (scast c - 48)) else Some n
   }"

definition atoll :: "memory \<Rightarrow> addr \<Rightarrow> u64 option" where
  "atoll m s = do {
     i \<leftarrow> skip_space m s 0;
     c \<leftarrow> m (s + i);
     let signed' = (c = 43 \<or> c = 45);
     let sign = (if signed' then if c = 45 then -1 else 1 else 1);
     n \<leftarrow> atoll_digits m s (if signed' then i + 1 else i) 0;
     Some (sign * n)
   }"

definition atol :: "memory \<Rightarrow> addr \<Rightarrow> u64 option" where
  "atol m s = atoll m s"

definition atoi :: "memory \<Rightarrow> addr \<Rightarrow> u32 option" where
  "atoi m s = do { n \<leftarrow> atol m s; Some (ucast n) }"

definition is_valid_char_for_base :: "u8 \<Rightarrow> int \<Rightarrow> bool" where
  "is_valid_char_for_base c base =
     (if isdigit (sint c) then sint c - 48 < base
      else if isalpha (sint c) then tolower (sint c) - 97 < base - 10
      else False)"

definition get_value_from_char :: "u8 \<Rightarrow> u64" where
  "get_value_from_char c =
     (if isdigit (sint c) then of_int (sint c - 48) else of_int (tolower (sint c) - 97 + 10))"

text \<open>The radix prefix: the base and the index behind the prefix.\<close>

definition radix_prefix :: "memory \<Rightarrow> addr \<Rightarrow> int \<Rightarrow> nat \<Rightarrow> (int \<times> nat) option" where
  "radix_prefix m str base off =
     (if base = 0 \<or> base = 8 \<or> base = 16 then do {
        c \<leftarrow> m (str + off);
        x \<leftarrow> (if c = 48 \<and> base \<noteq> 8 then do { d \<leftarrow> m (str + (off + 1)); Some (d = 120 \<or> d = 88) } else Some False);
        Some (if base = 0 then if c = 48 \<and> x then (16, off + 2) else if c = 48 then (8, off + 1) else (10, off)
              else if base = 8 then if c = 48 then (8, off + 1) else (8, off)
              else if c = 48 \<and> x then (16, off + 2) else (16, off))
      } else Some (base, off))"

partial_function (option) skip_valid :: "memory \<Rightarrow> addr \<Rightarrow> int \<Rightarrow> nat \<Rightarrow> nat option" where
  "skip_valid m str base off = do {
     c \<leftarrow> m (str + off);
     if is_valid_char_for_base c base then skip_valid m str base (off + 1) else Some off
   }"

text \<open>
  The digit loop with the largest value allowed: the index reached, the value, and whether it would have
  become too large.
\<close>

partial_function (option) digit_loop :: "memory \<Rightarrow> addr \<Rightarrow> int \<Rightarrow> u64 \<Rightarrow> nat \<Rightarrow> u64 \<Rightarrow> (nat \<times> u64 \<times> bool) option" where
  "digit_loop m str base limit off value = do {
     c \<leftarrow> m (str + off);
     if is_valid_char_for_base c base
     then let digit_value = get_value_from_char c in
       if value > (limit - digit_value) div of_int base
       then do { off \<leftarrow> skip_valid m str base (off + 1); Some (off, value, True) }
       else digit_loop m str base limit (off + 1) (value * of_int base + get_value_from_char c)
     else Some (off, value, False)
   }"

abbreviation (input) INTMAX_MAX :: u64 where "INTMAX_MAX \<equiv> 0x7FFFFFFFFFFFFFFF"
abbreviation (input) INTMAX_MIN :: u64 where "INTMAX_MIN \<equiv> 0x8000000000000000"
abbreviation (input) ULLONG_MAX :: u64 where "ULLONG_MAX \<equiv> 0xFFFFFFFFFFFFFFFF"
abbreviation (input) ERANGE :: int where "ERANGE \<equiv> 7"

text \<open>The results are the value, the address stored to \<open>*endptr\<close> and the value stored to \<open>errno\<close>.\<close>

definition strtoimax :: "memory \<Rightarrow> addr option \<Rightarrow> int \<Rightarrow> (u64 \<times> addr option \<times> int option) option" where
  "strtoimax m p base =
     (case p of None \<Rightarrow> Some (0, None, None)
      | Some str \<Rightarrow> do {
          off \<leftarrow> skip_space m str 0;
          c \<leftarrow> m (str + off);
          let neg = (c = 45);
          let off = (if c = 45 \<or> c = 43 then off + 1 else off);
          (base, off) \<leftarrow> radix_prefix m str base off;
          (off, value, overflow) \<leftarrow> digit_loop m str base (if neg then INTMAX_MIN else INTMAX_MAX) off 0;
          Some (if overflow then (if neg then INTMAX_MIN else INTMAX_MAX, Some (str + off), Some ERANGE)
                else ((if neg then -1 else 1) * value, Some (str + off), None))
        })"

definition strtoumax :: "memory \<Rightarrow> addr option \<Rightarrow> int \<Rightarrow> (u64 \<times> addr option \<times> int option) option" where
  "strtoumax m p base =
     (case p of None \<Rightarrow> Some (0, None, None)
      | Some str \<Rightarrow> do {
          off \<leftarrow> skip_space m str 0;
          (base, off) \<leftarrow> radix_prefix m str base off;
          (off, value, overflow) \<leftarrow> digit_loop m str base ULLONG_MAX off 0;
          Some (if overflow then (ULLONG_MAX, Some (str + off), Some ERANGE) else (value, Some (str + off), None))
        })"

definition strtoll :: "memory \<Rightarrow> addr option \<Rightarrow> int \<Rightarrow> (u64 \<times> addr option \<times> int option) option" where
  "strtoll m p base = strtoimax m p base"

definition strtol :: "memory \<Rightarrow> addr option \<Rightarrow> int \<Rightarrow> (u64 \<times> addr option \<times> int option) option" where
  "strtol m p base = strtoll m p base"

definition strtoull :: "memory \<Rightarrow> addr option \<Rightarrow> int \<Rightarrow> (u64 \<times> addr option \<times> int option) option" where
  "strtoull m p base = strtoumax m p base"

definition strtoul :: "memory \<Rightarrow> addr option \<Rightarrow> int \<Rightarrow> (u64 \<times> addr option \<times> int option) option" where
  "strtoul m p base = strtoull m p base"

section \<open>Classes that are right and classes that are not\<close>

lemma letter_case:
  "97 \<le> (c :: int) \<Longrightarrow> c \<le> 122 \<Longrightarrow> c AND - 33 = c - 32" "65 \<le> (c :: int) \<Longrightarrow> c \<le> 90 \<Longrightarrow> c OR 32 = c + 32"
proof -
  have "\<forall>c \<in> set [97..122]. c AND - 33 = c - (32 :: int)" "\<forall>c \<in> set [65..90]. c OR 32 = c + (32 :: int)"
    by code_simp+
  then show "97 \<le> c \<Longrightarrow> c \<le> 122 \<Longrightarrow> c AND - 33 = c - 32" "65 \<le> c \<Longrightarrow> c \<le> 90 \<Longrightarrow> c OR 32 = c + 32"
    unfolding set_upto atLeastAtMost_iff Ball_def by blast+
qed

lemma tolower_upper: "tolower c = (if 65 \<le> c \<and> c \<le> 90 then c + 32 else c)"
  by (simp add: tolower_def letter_case)


section \<open>The value of a number\<close>

abbreviation dval :: "u8 \<Rightarrow> nat" where
  "dval c \<equiv> unat (get_value_from_char c)"

definition digits_from :: "int \<Rightarrow> nat \<Rightarrow> u8 list \<Rightarrow> nat" where
  "digits_from base v ds = foldl (\<lambda>v d. v * nat base + dval d) v ds"

lemma digits_from_simps [simp]:
  "digits_from b v [] = v" "digits_from b v (d # ds) = digits_from b (v * nat b + dval d) ds"
  by (simp_all add: digits_from_def)

lemma digits_from_ge: "0 < base \<Longrightarrow> v \<le> digits_from base v ds"
proof (induction ds arbitrary: v)
  case (Cons d ds)
  have "v \<le> v * nat base + dval d" using Cons.prems by (cases "nat base") simp_all
  also have "\<dots> \<le> digits_from base (v * nat base + dval d) ds" using Cons by blast
  finally show ?case by simp
qed simp

lemma unat_of_int_u64: "0 \<le> k \<Longrightarrow> k < 2 ^ 64 \<Longrightarrow> unat (of_int k :: u64) = nat k"
  using take_bit_int_eq_self [of k 64] by (simp add: unsigned_of_int)

lemma dval_bounds:
  assumes "is_valid_char_for_base c base"
  shows "int (dval c) < base \<and> dval c \<le> 35"
proof -
  define k where "k = (if isdigit (sint c) then sint c - 48 else tolower (sint c) - 97 + 10)"
  have k: "0 \<le> k" "k < base" "k \<le> 35"
    using assms unfolding is_valid_char_for_base_def k_def isalpha_def isdigit_def
    by (auto simp: tolower_upper split: if_splits)
  have "get_value_from_char c = of_int k" by (simp add: get_value_from_char_def k_def)
  then have "dval c = nat k" using unat_of_int_u64 [of k] k by (simp only:) simp
  then show ?thesis using k by simp
qed

lemma nul_not_valid: "\<not> is_valid_char_for_base 0 base"
  by (simp add: is_valid_char_for_base_def isdigit_def isalpha_def)

text \<open>The overflow test compares exactly.\<close>

lemma overflow_test:
  assumes "0 < base" "base \<le> 36" "unat d \<le> unat limit"
  shows "value > (limit - d) div of_int base \<longleftrightarrow> unat value * nat base + unat d > unat (limit :: u64)"
proof -
  have b: "unat (of_int base :: u64) = nat base" using unat_of_int_u64 [of base] assms by simp
  have "unat ((limit - d) div of_int base) = (unat limit - unat d) div nat base"
    using assms(3) b by (simp add: unat_div unat_sub_u64 word_le_nat_alt)
  then have "value > (limit - d) div of_int base \<longleftrightarrow> \<not> unat value \<le> (unat limit - unat d) div nat base"
    by (simp add: word_less_nat_alt not_le)
  also have "\<dots> \<longleftrightarrow> \<not> unat value * nat base \<le> unat limit - unat d"
    using assms(1) by (simp add: less_eq_div_iff_mult_less_eq)
  finally show ?thesis using assms(3) by linarith
qed

lemma skip_valid_cstr:
  assumes "\<forall>d \<in> set ds. is_valid_char_for_base d base" "rest \<noteq> [] \<longrightarrow> \<not> is_valid_char_for_base (hd rest) base"
  shows "cstr m (s + off) (ds @ rest) \<Longrightarrow> skip_valid m s base off = Some (off + length ds)"
  using assms(1)
proof (induction ds arbitrary: off)
  case Nil
  then show ?case using assms(2)
    by (cases rest) (subst skip_valid.simps; simp add: nul_not_valid)+
next
  case (Cons d ds)
  then show ?case by (subst skip_valid.simps) simp
qed

lemma digit_loop_cstr:
  assumes base: "0 < base" "base \<le> 36" and limit: "36 \<le> unat limit"
    and valid: "\<forall>d \<in> set ds. is_valid_char_for_base d base" "rest \<noteq> [] \<longrightarrow> \<not> is_valid_char_for_base (hd rest) base"
  shows "cstr m (s + off) (ds @ rest) \<Longrightarrow> unat value \<le> unat limit \<Longrightarrow>
    (let V = digits_from base (unat value) ds in
     if V \<le> unat limit then digit_loop m s base limit off value = Some (off + length ds, of_nat V, False)
     else \<exists>v. digit_loop m s base limit off value = Some (off + length ds, v, True))"
  using valid(1)
proof (induction ds arbitrary: off "value")
  case Nil
  then have "digit_loop m s base limit off value = Some (off, value, False)" using valid(2)
    by (cases rest) (subst digit_loop.simps; simp add: nul_not_valid)+
  then show ?case using Nil by simp
next
  case (Cons d ds)
  have d: "is_valid_char_for_base d base" "m (s + off) = Some d" using Cons.prems by simp_all
  have "dval d \<le> unat limit" using dval_bounds [OF d(1)] limit by simp
  note test = overflow_test [OF base this, of "value"]
  let ?v = "unat value * nat base + dval d"
  show ?case
  proof (cases "?v > unat limit")
    case True
    have "cstr m (s + (off + 1)) (ds @ rest)" using Cons.prems(1) by simp
    then have "skip_valid m s base (off + 1) = Some (off + 1 + length ds)"
      using Cons.prems(3) valid(2) by (intro skip_valid_cstr) simp_all
    then have "digit_loop m s base limit off value = Some (off + length (d # ds), value, True)"
      using d test True by (subst digit_loop.simps) (simp add: Let_def)
    moreover have "\<not> digits_from base (unat value) (d # ds) \<le> unat limit"
      using True digits_from_ge [OF base(1), of ?v ds] by simp
    ultimately show ?thesis by (simp add: Let_def)
  next
    case False
    let ?w = "value * of_int base + get_value_from_char d"
    have w: "unat ?w = ?v"
      using False unat_of_int_u64 [of base] base unat_mult_u64 [of "value" "of_int base"]
        unat_add_u64 [of "value * of_int base" "get_value_from_char d"] u64_bound [of limit] by simp
    have "digit_loop m s base limit off value = digit_loop m s base limit (off + 1) ?w"
      using d test False by (subst digit_loop.simps) (simp add: Let_def)
    then show ?thesis using Cons.IH [of "off + 1" ?w] Cons.prems False w by (auto simp: Let_def split: if_splits)
  qed
qed

lemma skip_space_cstr:
  assumes "\<forall>c \<in> set ws. isspace (sint c)" "\<not> isspace (sint x)"
  shows "cstr m (s + off) (ws @ x # xs) \<Longrightarrow> skip_space m s off = Some (off + length ws)"
  using assms(1)
proof (induction ws arbitrary: off)
  case Nil
  then show ?case using assms(2) by (subst skip_space.simps) simp
next
  case (Cons w ws)
  then show ?case by (subst skip_space.simps) simp
qed

lemma valid_not_space: "is_valid_char_for_base c base \<Longrightarrow> \<not> isspace (sint c) \<and> c \<noteq> 45 \<and> c \<noteq> 43"
  by (auto simp: is_valid_char_for_base_def isspace_def isdigit_def isalpha_def split: if_splits)

lemma radix_prefix_plain:
  assumes "base \<noteq> 0" "base \<notin> {8, 16} \<or> c \<noteq> 48" "m (s + off) = Some c"
  shows "radix_prefix m s base off = Some (base, off)"
  using assms by (auto simp: radix_prefix_def)

lemma strtol_run:
  fixes sg ds :: "u8 list" and base :: int
  assumes base: "2 \<le> base" "base \<le> 36" "base \<notin> {8, 16} \<or> hd ds \<noteq> 48"
    and ws: "\<forall>c \<in> set ws. isspace (sint c)" and sg: "sg \<in> {[], [43], [45]}"
    and ds: "ds \<noteq> []" "\<forall>d \<in> set ds. is_valid_char_for_base d base"
    and rest: "rest \<noteq> [] \<longrightarrow> \<not> is_valid_char_for_base (hd rest) base"
    and str: "cstr m s (ws @ sg @ ds @ rest)"
  defines "D \<equiv> digits_from base 0 ds" and "limit \<equiv> (if sg = [45] then INTMAX_MIN else INTMAX_MAX)"
  shows "strtol m (Some s) base =
    Some (if D \<le> unat limit then ((if sg = [45] then -1 else 1) * of_nat D, Some (s + length (ws @ sg @ ds)), None)
          else (limit, Some (s + length (ws @ sg @ ds)), Some ERANGE))"
proof -
  let ?neg = "sg = [45]" and ?off = "length ws + length sg"
  obtain d es where d: "ds = d # es" using ds(1) by (cases ds) auto
  have vd: "is_valid_char_for_base d base" using ds(2) d by simp
  have here: "cstr m (s + ?off) (ds @ rest)"
    using str cstr_append [of m s "ws @ sg" "ds @ rest"] by simp
  obtain x xs where x: "sg @ ds @ rest = x # xs" "\<not> isspace (sint x)" "x = 45 \<longleftrightarrow> ?neg" "x = 45 \<or> x = 43 \<longleftrightarrow> sg \<noteq> []"
    using sg valid_not_space [OF vd] by (auto simp: d isspace_def)
  have skip: "skip_space m s 0 = Some (length ws)"
    using skip_space_cstr [OF ws x(2), of m s 0 xs] str by (simp add: x(1))
  have mx: "m (s + length ws) = Some x" using str unfolding x(1) cstr_append by simp
  have off: "(if x = 45 \<or> x = 43 then length ws + 1 else length ws) = ?off" using sg x(4) by auto
  have pre: "radix_prefix m s base ?off = Some (base, ?off)"
    using base here d by (intro radix_prefix_plain [of _ d]) auto
  have lim: "36 \<le> unat limit" by (simp add: limit_def)
  have loop: "if D \<le> unat limit then digit_loop m s base limit ?off 0 = Some (?off + length ds, of_nat D, False)
      else \<exists>v. digit_loop m s base limit ?off 0 = Some (?off + length ds, v, True)"
    using digit_loop_cstr [OF _ base(2) lim ds(2) rest here, of 0] base(1) by (simp add: Let_def D_def)
  have run: "strtol m (Some s) base = do {
      (off, v, overflow) \<leftarrow> digit_loop m s base limit ?off 0;
      Some (if overflow then (limit, Some (s + off), Some ERANGE)
            else ((if ?neg then -1 else 1) * v, Some (s + off), None)) }"
    unfolding strtol_def strtoll_def strtoimax_def option.case skip Option.bind.bind_lunit mx Let_def off
    unfolding pre Option.bind.bind_lunit prod.case x(3) limit_def by (rule refl)
  show ?thesis using loop by (auto simp: run add.assoc split: if_splits)
qed



end
