(* ===== verification/Libc_Printf.thy ===== *)
theory Libc_Printf
  imports Libc_Conv "HOL-Library.Signed_Division"
begin

text \<open>
  Formatted output, \<^verbatim>\<open>libs/libc/stdio/printf.c\<close>, as built for the 64-bit kernel library (no floating point
  and no \<^verbatim>\<open>%m\<close>). The calls of the \<open>print\<close> function a conversion makes do not depend on their results,
  except that the first failure ends everything with -1; so a conversion is the list of the strings it
  prints. None in the result of a conversion is the return of -1 for an output longer than \<open>INT_MAX\<close>.
  The format is the list of its characters before the terminating NUL. The theory shows that numbers are
  printed in positional notation, that the count returned is right except for one flag, and what
  \<open>snprintf\<close> leaves in the buffer.
\<close>

section \<open>Model\<close>

datatype va_val = VInt u32 | VLong u64 | VStr "u8 list option"

definition hd0 :: "u8 list \<Rightarrow> u8" where
  "hd0 f = (case f of [] \<Rightarrow> 0 | c # _ \<Rightarrow> c)"

definition INT_MAX :: int where
  "INT_MAX = 2147483647"

text \<open>Signed arithmetic that leaves the range of \<open>int\<close> is undefined.\<close>

definition in_int :: "int \<Rightarrow> int option" where
  "in_int n = (if - INT_MAX - 1 \<le> n \<and> n \<le> INT_MAX then Some n else None)"

text \<open>\<^verbatim>\<open>(unsigned int) n\<close> for an \<open>int\<close>, as a number, and \<^verbatim>\<open>(int) n\<close> for a \<open>size_t\<close>.\<close>

definition uns :: "int \<Rightarrow> nat" where
  "uns n = nat (n mod 2 ^ 32)"

definition int_of_size :: "nat \<Rightarrow> int" where
  "int_of_size n = sint (of_nat n :: u32)"

subsection \<open>Parsing a conversion\<close>

text \<open>\<open>t\<close> is an \<^verbatim>\<open>unsigned char\<close>: with 256 or more digits left the inner loop does not end.\<close>

fun times_ten :: "nat \<Rightarrow> int \<Rightarrow> int option" where
  "times_ten 0 digit = Some digit"
| "times_ten (Suc k) digit = do { digit \<leftarrow> in_int (digit * 10); times_ten k digit }"

fun parse_digits :: "u8 list \<Rightarrow> int \<Rightarrow> int option" where
  "parse_digits [] n = Some n"
| "parse_digits (c # cs) n =
     (if length (c # cs) \<ge> 256 then None
      else do {
        digit \<leftarrow> times_ten (length cs) (sint c - 48);
        n \<leftarrow> in_int (n + digit);
        parse_digits cs n
      })"

definition parseInt :: "u8 list \<Rightarrow> int option" where
  "parseInt num = parse_digits num 0"

fun parse_flags :: "u8 list \<Rightarrow> u8 \<Rightarrow> u8 \<times> u8 list" where
  "parse_flags [] flags = (flags, [])"
| "parse_flags (c # cs) flags =
     (if c = 45 then parse_flags cs (flags OR 0b00010000)
      else if c = 43 then parse_flags cs (flags OR 0b00001000)
      else if c = 32 then parse_flags cs (flags OR 0b00000100)
      else if c = 35 then parse_flags cs (flags OR 0b00000010)
      else if c = 48 then parse_flags cs (flags OR 0b00000001)
      else (flags, c # cs))"

definition is_dec :: "u8 \<Rightarrow> bool" where
  "is_dec c \<longleftrightarrow> sint c \<ge> 48 \<and> sint c \<le> 57"

definition va_int :: "va_val list \<Rightarrow> (u32 \<times> va_val list) option" where
  "va_int args = (case args of VInt n # rest \<Rightarrow> Some (n, rest) | _ \<Rightarrow> None)"

definition va_long :: "va_val list \<Rightarrow> (u64 \<times> va_val list) option" where
  "va_long args = (case args of VLong n # rest \<Rightarrow> Some (n, rest) | _ \<Rightarrow> None)"

definition va_str :: "va_val list \<Rightarrow> (u8 list option \<times> va_val list) option" where
  "va_str args = (case args of VStr s # rest \<Rightarrow> Some (s, rest) | _ \<Rightarrow> None)"

text \<open>A width or precision: a number or the next argument.\<close>

definition parse_number :: "u8 list \<Rightarrow> va_val list \<Rightarrow> (int \<times> u8 list \<times> va_val list) option" where
  "parse_number f args =
     (if hd0 f = 42 then do { (n, args) \<leftarrow> va_int args; Some (sint n, tl f, args) }
      else do { n \<leftarrow> parseInt (takeWhile is_dec f); Some (n, dropWhile is_dec f, args) })"

definition parse_precision :: "u8 list \<Rightarrow> va_val list \<Rightarrow> (int \<times> u8 list \<times> va_val list) option" where
  "parse_precision f args = (if hd0 f = 46 then parse_number (tl f) args else Some (-1, f, args))"

definition parse_length :: "u8 list \<Rightarrow> u8 \<times> u8 list" where
  "parse_length f =
     (let hs = takeWhile (\<lambda>c. c = 104) f; f = dropWhile (\<lambda>c. c = 104) f;
          ls = takeWhile (\<lambda>c. c = 108) f; f = dropWhile (\<lambda>c. c = 108) f;
          length_modifier = of_nat (length hs) + 3 * of_nat (length ls) in
      if hd0 f = 106 then (4, tl f)
      else if hd0 f = 122 then (5, tl f)
      else if hd0 f = 116 then (7, tl f)
      else if hd0 f = 76 then (8, tl f)
      else (length_modifier, f))"

subsection \<open>Conversions\<close>

type_synonym conversion = "(u8 list list \<times> int) option"

abbreviation (input) F_MINUS :: "u8 \<Rightarrow> bool" where "F_MINUS flags \<equiv> flags AND 0b00010000 \<noteq> 0"
abbreviation (input) F_PLUS :: "u8 \<Rightarrow> bool" where "F_PLUS flags \<equiv> flags AND 0b00001000 \<noteq> 0"
abbreviation (input) F_SPACE :: "u8 \<Rightarrow> bool" where "F_SPACE flags \<equiv> flags AND 0b00000100 \<noteq> 0"
abbreviation (input) F_ALT :: "u8 \<Rightarrow> bool" where "F_ALT flags \<equiv> flags AND 0b00000010 \<noteq> 0"
abbreviation (input) F_ZERO :: "u8 \<Rightarrow> bool" where "F_ZERO flags \<equiv> flags AND 0b00000001 \<noteq> 0"

definition conv_char :: "u8 \<Rightarrow> u8 \<Rightarrow> int \<Rightarrow> nat \<Rightarrow> conversion" where
  "conv_char c flags width maxrem =
     (let width = (if width < 1 then 1 else width) in
      if maxrem < uns width then None
      else Some ((if F_MINUS flags then [] else replicate (nat (width - 1)) [32]) @ [[c]] @
                 (if F_MINUS flags then replicate (nat (width - 1)) [32] else []), width))"

definition conv_str :: "u8 list \<Rightarrow> u8 \<Rightarrow> int \<Rightarrow> int \<Rightarrow> nat \<Rightarrow> conversion" where
  "conv_str str flags width precision maxrem =
     (let len = length str;
          width = (if len > uns width then int_of_size len else width);
          width = (if precision \<ge> 0 \<and> precision < width then precision else width);
          (len, width) = (if precision \<ge> 0 \<and> uns precision < len then (nat precision, precision) else (len, width)) in
      if maxrem < uns width then None
      else if len < uns width then
        Some (if F_MINUS flags then [take len str] @ replicate (uns width - len) [32]
              else replicate (nat width - len) [32] @ [take len str], width)
      else Some ([take len str], width))"

text \<open>
  The part the number conversions have in common: \<open>len\<close> digits, \<open>sign\<close> and \<open>alt\<close> as printed, \<open>extra\<close> the
  room a minus sign takes.
\<close>

definition conv_number ::
  "u8 \<Rightarrow> int \<Rightarrow> int \<Rightarrow> nat \<Rightarrow> nat \<Rightarrow> bool \<Rightarrow> nat \<Rightarrow> u8 list list \<Rightarrow> u8 list list \<Rightarrow> u8 list list \<Rightarrow> conversion" where
  "conv_number flags width precision maxrem len zero extra sign alt digits =
     (let len = (if precision = 0 \<and> zero then 0 else len);
          len_prec = (if precision \<ge> 0 \<and> uns precision > len then nat precision else len);
          len_width = (if precision \<ge> 0 \<and> uns precision > len then nat precision else len);
          len_width = (if F_PLUS flags \<or> F_SPACE flags then len_width + 1 else len_width);
          len_width = (if F_ALT flags then len_width + 2 else len_width);
          len_width = len_width + extra;
          width = (if uns width < len_width then int_of_size len_width else width) in
      if maxrem < uns width then None
      else Some
        ((if F_MINUS flags \<or> F_ZERO flags then [] else replicate (uns width - len_width) [32]) @
         sign @
         (if F_ALT flags then alt else []) @
         (if \<not> F_MINUS flags \<and> F_ZERO flags then replicate (uns width - len_width) [48] else []) @
         replicate (len_prec - len) [48] @
         (if zero then if precision \<noteq> 0 then [[48]] else [] else digits) @
         (if F_MINUS flags then replicate (uns width - len_width) [32] else []), width))"

definition plus_or_space :: "u8 \<Rightarrow> u8 list list" where
  "plus_or_space flags = (if F_PLUS flags then [[43]] else if F_SPACE flags then [[32]] else [])"

text \<open>\<^verbatim>\<open>while (num / div > base - 1) { div *= base; len++; }\<close>\<close>

partial_function (option) scale_div :: "'w::len word \<Rightarrow> 'w word \<Rightarrow> 'w word \<Rightarrow> nat \<Rightarrow> ('w word \<times> nat) option" where
  "scale_div base num div' len =
     (if div' = 0 then None
      else if num div div' > base - 1 then scale_div base num (div' * base) (len + 1) else Some (div', len))"

text \<open>\<^verbatim>\<open>while (div > base - 1) { n = num / div; div /= base; ... n % base ... }\<close>: the digits but the last.\<close>

partial_function (option) digit_seq :: "'w::len word \<Rightarrow> 'w word \<Rightarrow> 'w word \<Rightarrow> 'w word list option" where
  "digit_seq base num div' =
     (if div' > base - 1
      then do { ds \<leftarrow> digit_seq base num (div' div base); Some (num div div' mod base # ds) }
      else Some [])"

definition dec_char :: "'w::len word \<Rightarrow> u8" where
  "dec_char d = ucast d + 48"

definition hex_char :: "u8 \<Rightarrow> 'w::len word \<Rightarrow> u8" where
  "hex_char base_char d = (if d < 10 then ucast d + 48 else ucast d + base_char - (120 - 97) - 10)"

definition conv_octal :: "u32 \<Rightarrow> u8 \<Rightarrow> int \<Rightarrow> int \<Rightarrow> nat \<Rightarrow> u8 \<Rightarrow> conversion option" where
  "conv_octal num flags width precision maxrem next' = do {
     (div', len) \<leftarrow> scale_div 8 num 1 1;
     ds \<leftarrow> digit_seq 8 num div';
     Some (conv_number flags width precision maxrem len (num = 0) 0 (plus_or_space flags) [[48], [next']]
       (map (\<lambda>d. [dec_char d]) ds @ [[dec_char (num mod 8)]]))
   }"

definition conv_hex32 :: "u32 \<Rightarrow> u8 \<Rightarrow> u8 \<Rightarrow> int \<Rightarrow> int \<Rightarrow> nat \<Rightarrow> conversion option" where
  "conv_hex32 num base_char flags width precision maxrem = do {
     (div', len) \<leftarrow> scale_div 16 num 1 1;
     ds \<leftarrow> digit_seq 16 num div';
     Some (conv_number flags width precision maxrem len (num = 0) 0 (plus_or_space flags) [[48], [base_char]]
       (map (\<lambda>d. [hex_char base_char d]) ds @ [[hex_char base_char (num mod 16)]]))
   }"

text \<open>\<open>p\<close> says that the conversion is \<^verbatim>\<open>%p\<close>.\<close>

definition conv_hex64 :: "u64 \<Rightarrow> u8 \<Rightarrow> u8 \<Rightarrow> int \<Rightarrow> int \<Rightarrow> nat \<Rightarrow> conversion option" where
  "conv_hex64 num conv flags width precision maxrem =
     (if num = 0 \<and> conv = 112 then Some (Some ([[40, 110, 117, 108, 108, 41]], 6))
      else do {
        let base_char = (if conv = 112 then 88 else conv);
        let precision = (if conv = 112 then 16 else precision);
        let flags = (if conv = 112 then flags OR 0b10 else flags);
        (div', len) \<leftarrow> scale_div 16 num 1 1;
        ds \<leftarrow> digit_seq 16 num div';
        Some (conv_number flags width precision maxrem len (num = 0) 0 (plus_or_space flags) [[48], [base_char]]
          (map (\<lambda>d. [hex_char base_char d]) ds @ [[hex_char base_char (num mod 16)]]))
      })"

definition conv_unsigned :: "u32 \<Rightarrow> u8 \<Rightarrow> int \<Rightarrow> int \<Rightarrow> nat \<Rightarrow> u8 \<Rightarrow> conversion option" where
  "conv_unsigned num flags width precision maxrem next' = do {
     (div', len) \<leftarrow> scale_div 10 num 1 1;
     ds \<leftarrow> digit_seq 10 num div';
     Some (conv_number flags width precision maxrem len (num = 0) 0 (plus_or_space flags) [[48], [next']]
       (map (\<lambda>d. [dec_char d]) ds @ [[dec_char (num mod 10)]]))
   }"

text \<open>Negating the smallest \<open>int\<close> is undefined; the last digit is computed from the signed value.\<close>

definition conv_decimal :: "u32 \<Rightarrow> u8 \<Rightarrow> int \<Rightarrow> int \<Rightarrow> nat \<Rightarrow> u8 \<Rightarrow> conversion option" where
  "conv_decimal num flags width precision maxrem next' = do {
     abs_num \<leftarrow> in_int (if sint num < 0 then - sint num else sint num);
     (div', len) \<leftarrow> scale_div 10 (of_int abs_num :: u32) 1 1;
     ds \<leftarrow> digit_seq 10 (of_int abs_num) div';
     num' \<leftarrow> in_int (if sint num < 0 then - sint num else sint num);
     let last_digit = of_int (num' smod 10) + 48;
     Some (conv_number flags width precision maxrem len (num = 0) (if sint num < 0 then 1 else 0)
       (if sint num \<ge> 0 then plus_or_space flags else [[45]]) [[48], [next']]
       (map (\<lambda>d. [dec_char d]) ds @ [[last_digit]]))
   }"

subsection \<open>The loop over the format\<close>

text \<open>
  \<open>pr\<close> is the \<open>print\<close> function: it takes the object and a string and gives the object and whether it
  succeeded, or None if it faults. Inl is the early return of -1.
\<close>

type_synonym 'o printer = "'o \<Rightarrow> u8 list \<Rightarrow> ('o \<times> bool) option"

fun print_all :: "'o printer \<Rightarrow> u8 list list \<Rightarrow> 'o \<Rightarrow> ('o + 'o) option" where
  "print_all pr [] ob = Some (Inr ob)"
| "print_all pr (s # ss) ob = do { (ob, ok) \<leftarrow> pr ob s; if ok then print_all pr ss ob else Some (Inl ob) }"

text \<open>The text up to the next conversion.\<close>

definition literal_part :: "u8 list \<Rightarrow> u8 list \<times> u8 list" where
  "literal_part f =
     (let f = (if hd0 f = 37 then tl f else f); amount = 1 + length (takeWhile (\<lambda>c. c \<noteq> 37) (tl f)) in
      (take amount f, drop amount f))"

text \<open>
  One conversion, behind its \<^verbatim>\<open>%\<close>: what it prints and by how much it counts, the rest of the format
  and of the arguments. A conversion that is not known prints the rest of the format as it is.
\<close>

definition convert :: "u8 list \<Rightarrow> va_val list \<Rightarrow> nat \<Rightarrow> (conversion \<times> u8 list \<times> va_val list) option" where
  "convert begun args maxrem = do {
     let (flags, f) = parse_flags (tl begun) 0;
     (width, f, args) \<leftarrow> parse_number f args;
     (precision, f, args) \<leftarrow> parse_precision f args;
     let (length_modifier, f) = parse_length f;
     let c = hd0 f;
     if c = 99 then do {
       (n, args) \<leftarrow> va_int args;
       Some (conv_char (ucast n) flags width maxrem, tl f, args)
     }
     else if c = 115 then do {
       (str, args) \<leftarrow> va_str args;
       Some (conv_str (case str of None \<Rightarrow> [40, 110, 117, 108, 108, 41] | Some s \<Rightarrow> s) flags width precision maxrem, tl f, args)
     }
     else if c = 111 then do {
       (num, args) \<leftarrow> va_int args;
       r \<leftarrow> conv_octal num flags width precision maxrem (hd0 (tl f));
       Some (r, tl f, args)
     }
     else if c = 120 \<or> c = 88 \<or> c = 112 then
       (if length_modifier = 0 \<and> c \<noteq> 112 then do {
          (num, args) \<leftarrow> va_int args;
          r \<leftarrow> conv_hex32 num c flags width precision maxrem;
          Some (r, tl f, args)
        }
        else if length_modifier = 3 \<or> length_modifier = 6 \<or> length_modifier = 5 \<or> c = 112 then do {
          (num, args) \<leftarrow> va_long args;
          r \<leftarrow> conv_hex64 num c flags width precision maxrem;
          Some (r, tl f, args)
        }
        else Some (Some ([], 0), f, args))
     else if c = 117 then do {
       (num, args) \<leftarrow> va_int args;
       r \<leftarrow> conv_unsigned num flags width precision maxrem (hd0 (tl f));
       Some (r, tl f, args)
     }
     else if c = 100 \<or> c = 105 then do {
       (num, args) \<leftarrow> va_int args;
       r \<leftarrow> conv_decimal num flags width precision maxrem (hd0 (tl f));
       Some (r, tl f, args)
     }
     else Some (if maxrem < length begun then None else Some ([begun], int (length begun)), [], args)
   }"

partial_function (option) printf_loop :: "'o printer \<Rightarrow> u8 list \<Rightarrow> va_val list \<Rightarrow> int \<Rightarrow> 'o \<Rightarrow> (int \<times> 'o) option" where
  "printf_loop pr f args written ob =
     (if f = [] then Some (written, ob)
      else let maxrem = nat (INT_MAX - written) in
        if hd0 f \<noteq> 37 \<or> hd0 (tl f) = 37
        then let (text, f) = literal_part f in
          if maxrem < length text then Some (-1, ob)
          else do {
            r \<leftarrow> print_all pr [text] ob;
            case r of Inl ob \<Rightarrow> Some (-1, ob)
            | Inr ob \<Rightarrow> printf_loop pr f args (written + int (length text)) ob
          }
        else do {
          (conv, f, args) \<leftarrow> convert f args maxrem;
          case conv of None \<Rightarrow> Some (-1, ob)
          | Some (out, count) \<Rightarrow> do {
              r \<leftarrow> print_all pr out ob;
              case r of Inl ob \<Rightarrow> Some (-1, ob)
              | Inr ob \<Rightarrow> printf_loop pr f args (written + count) ob
            }
        })"

text \<open>\<open>is_sprint\<close> is the test \<^verbatim>\<open>print == sprint\<close>: only then a NUL is printed at the end.\<close>

definition printf_internal :: "'o printer \<Rightarrow> bool \<Rightarrow> u8 list \<Rightarrow> va_val list \<Rightarrow> 'o \<Rightarrow> (int \<times> 'o) option" where
  "printf_internal pr is_sprint format args ob = do {
     (written, ob) \<leftarrow> printf_loop pr format args 0 ob;
     if written = -1 then Some (-1, ob)
     else if is_sprint then do {
       r \<leftarrow> print_all pr [[0]] ob;
       case r of Inl ob \<Rightarrow> Some (-1, ob) | Inr ob \<Rightarrow> Some (written, ob)
     }
     else Some (written, ob)
   }"

subsection \<open>Printing into a buffer\<close>

record snprintf_info =
  si_mem :: memory
  si_s :: addr
  si_max_len :: nat
  si_pos :: nat

fun sprint :: "snprintf_info printer" where
  "sprint info [] = Some (info, True)"
| "sprint info (c # cs) =
     (if si_pos info < si_max_len info
      then do {
        m \<leftarrow> mem_put (si_mem info) (si_s info + si_pos info) c;
        sprint (info\<lparr>si_mem := m, si_pos := si_pos info + 1\<rparr>) cs
      }
      else Some (info, True))"

definition vsnprintf :: "addr \<Rightarrow> nat \<Rightarrow> u8 list \<Rightarrow> va_val list \<Rightarrow> memory \<Rightarrow> (int \<times> memory) option" where
  "vsnprintf s len format args m = do {
     (ret, info) \<leftarrow> printf_internal sprint True format args \<lparr>si_mem = m, si_s = s, si_max_len = len, si_pos = 0\<rparr>;
     Some (ret, si_mem info)
   }"

definition snprintf :: "addr \<Rightarrow> nat \<Rightarrow> u8 list \<Rightarrow> va_val list \<Rightarrow> memory \<Rightarrow> (int \<times> memory) option" where
  "snprintf s len format args m = vsnprintf s len format args m"

definition vsprintf :: "addr \<Rightarrow> u8 list \<Rightarrow> va_val list \<Rightarrow> memory \<Rightarrow> (int \<times> memory) option" where
  "vsprintf s format args m = do {
     (ret, info) \<leftarrow> printf_internal sprint True format args
       \<lparr>si_mem = m, si_s = s, si_max_len = nat INT_MAX, si_pos = 0\<rparr>;
     Some (ret, si_mem info)
   }"

definition sprintf :: "addr \<Rightarrow> u8 list \<Rightarrow> va_val list \<Rightarrow> memory \<Rightarrow> (int \<times> memory) option" where
  "sprintf s format args m = vsprintf s format args m"

text \<open>The stream functions, over the function \<open>kprint\<close> of the kernel; they do not print a NUL.\<close>

definition fprint :: "'o printer \<Rightarrow> 'o printer" where
  "fprint kprint ob s = kprint ob s"

definition vfprintf :: "'o printer \<Rightarrow> u8 list \<Rightarrow> va_val list \<Rightarrow> 'o \<Rightarrow> (int \<times> 'o) option" where
  "vfprintf kprint format args ob = printf_internal (fprint kprint) False format args ob"

definition fprintf :: "'o printer \<Rightarrow> u8 list \<Rightarrow> va_val list \<Rightarrow> 'o \<Rightarrow> (int \<times> 'o) option" where
  "fprintf kprint format args ob = vfprintf kprint format args ob"

definition vprintf :: "'o printer \<Rightarrow> u8 list \<Rightarrow> va_val list \<Rightarrow> 'o \<Rightarrow> (int \<times> 'o) option" where
  "vprintf kprint format args ob = vfprintf kprint format args ob"

definition printf :: "'o printer \<Rightarrow> u8 list \<Rightarrow> va_val list \<Rightarrow> 'o \<Rightarrow> (int \<times> 'o) option" where
  "printf kprint format args ob = vprintf kprint format args ob"

section \<open>Positional notation\<close>

lemma scale_div_ok:
  fixes base num :: "'w::len word"
  assumes "2 \<le> unat base"
  shows "unat div' = unat base ^ k \<Longrightarrow> k = 0 \<or> unat base ^ k \<le> unat num \<Longrightarrow>
    \<exists>D K. scale_div base num div' len = Some (D, len + (K - k)) \<and> k \<le> K \<and> unat D = unat base ^ K \<and>
      unat num < unat base ^ (K + 1) \<and> (K = 0 \<or> unat base ^ K \<le> unat num)"
proof (induction "unat num - unat base ^ k" arbitrary: k div' len rule: less_induct)
  case less
  let ?b = "unat base" and ?n = "unat num"
  have b1: "unat (base - 1) = ?b - 1" using assms by (simp add: unat_sub word_le_nat_alt)
  have pos: "0 < ?b ^ k" using assms by simp
  then have d0: "div' \<noteq> 0" using less.prems(1) by auto
  have test: "num div div' > base - 1 \<longleftrightarrow> ?b ^ (k + 1) \<le> ?n"
  proof -
    have "num div div' > base - 1 \<longleftrightarrow> ?b \<le> ?n div ?b ^ k"
      using b1 assms less.prems(1) by (auto simp: word_less_nat_alt unat_div)
    also have "\<dots> \<longleftrightarrow> ?b ^ (k + 1) \<le> ?n" using pos by (simp add: less_eq_div_iff_mult_less_eq)
    finally show ?thesis .
  qed
  show ?case
  proof (cases "?b ^ (k + 1) \<le> ?n")
    case True
    have "?b ^ k < ?b ^ (k + 1)" using assms pos by simp
    then have smaller: "?n - ?b ^ (k + 1) < ?n - ?b ^ k" using True by linarith
    have "unat div' * ?b < 2 ^ LENGTH('w)" 
      using True less.prems(1) by (simp add: mult.commute) (meson le_less_trans unsigned_less)
    then have "unat (div' * base) = unat div' * ?b" by (simp only: unat_mult_lem)
    then have "unat (div' * base) = ?b ^ (k + 1)" using less.prems(1) by simp
    from less.hyps [OF smaller this, of "len + 1"] True obtain D K where
      *: "scale_div base num (div' * base) (len + 1) = Some (D, len + 1 + (K - (k + 1)))" "k + 1 \<le> K" "unat D = ?b ^ K"
        "?n < ?b ^ (K + 1)" "K = 0 \<or> ?b ^ K \<le> ?n" by blast
    have "scale_div base num div' len = scale_div base num (div' * base) (len + 1)"
      using test True d0 by (subst scale_div.simps) simp
    then show ?thesis using * by (intro exI [of _ D] exI [of _ K]) simp
  next
    case False
    then have "scale_div base num div' len = Some (div', len)" using test d0 by (subst scale_div.simps) simp
    then show ?thesis using False less.prems by (intro exI [of _ div'] exI [of _ k]) simp
  qed
qed

lemma digit_seq_ok:
  fixes base num :: "'w::len word"
  assumes "2 \<le> unat base"
  shows "unat div' = unat base ^ K \<Longrightarrow> \<exists>ds. digit_seq base num div' = Some ds \<and>
    map unat ds = map (\<lambda>i. unat num div unat base ^ i mod unat base) (rev [1..<Suc K])"
proof (induction K arbitrary: div')
  case 0
  then have "\<not> div' > base - 1" using assms by (simp add: word_less_nat_alt unat_sub word_le_nat_alt)
  then show ?case by (subst digit_seq.simps) simp
next
  case (Suc K)
  let ?b = "unat base"
  have "?b \<le> ?b ^ Suc K" using assms by simp
  then have "?b - 1 < unat div'" using assms unfolding Suc.prems by linarith
  then have gt: "div' > base - 1"
    using assms by (simp add: word_less_nat_alt unat_sub word_le_nat_alt)
  have "unat (div' div base) = ?b ^ K" using Suc.prems assms by (simp add: unat_div)
  from Suc.IH [OF this] obtain ds where "digit_seq base num (div' div base) = Some ds"
    "map unat ds = map (\<lambda>i. unat num div ?b ^ i mod ?b) (rev [1..<Suc K])" by blast
  then show ?case using gt Suc.prems by (subst digit_seq.simps) (simp add: unat_div unat_mod)
qed

lemma horner_digits:
  fixes b n :: nat
  assumes "n < b ^ Suc K" "0 < b"
  shows "j \<le> Suc K \<Longrightarrow> foldl (\<lambda>v d. v * b + d) 0 (map (\<lambda>i. n div b ^ i mod b) (rev [j..<Suc K])) = n div b ^ j"
proof (induction "Suc K - j" arbitrary: j)
  case 0
  then have "j = Suc K" by simp
  then show ?case using assms(1) by simp
next
  case (Suc x)
  then have j: "j < Suc K" by simp
  then have "[j..<Suc K] = j # [Suc j..<Suc K]" by (rule upt_conv_Cons)
  moreover have "foldl (\<lambda>v d. v * b + d) 0 (map (\<lambda>i. n div b ^ i mod b) (rev [Suc j..<Suc K])) = n div b ^ Suc j"
    using Suc.hyps(1) [of "Suc j"] Suc.hyps(2) j by simp
  moreover have "n div b ^ Suc j * b + n div b ^ j mod b = n div b ^ j"
    by (simp add: div_mult2_eq [symmetric] power_Suc2 del: power_Suc) (simp add: div_mult2_eq)
  ultimately show ?case by (simp del: upt_Suc)
qed

text \<open>The digits of a number: as many as the loop counted, without leading zero, of the right value.\<close>

lemma number_digits:
  fixes base num :: "'w::len word"
  assumes "2 \<le> unat base"
  shows "\<exists>D K ds. scale_div base num 1 1 = Some (D, Suc K) \<and> digit_seq base num D = Some ds \<and> length ds = K \<and> K < LENGTH('w) \<and>
    (\<forall>d \<in> set (ds @ [num mod base]). unat d < unat base) \<and>
    foldl (\<lambda>v d. v * unat base + unat d) 0 (ds @ [num mod base]) = unat num \<and>
    (num \<noteq> 0 \<longrightarrow> unat (hd (ds @ [num mod base])) \<noteq> 0)"
proof -
  let ?b = "unat base" and ?n = "unat num"
  obtain D K where K: "scale_div base num 1 1 = Some (D, Suc K)" "unat D = ?b ^ K" "?n < ?b ^ Suc K" "K = 0 \<or> ?b ^ K \<le> ?n"
    using scale_div_ok [OF assms, of 1 0 num 1] by auto
  obtain ds where ds: "digit_seq base num D = Some ds" "map unat ds = map (\<lambda>i. ?n div ?b ^ i mod ?b) (rev [1..<Suc K])"
    using digit_seq_ok [OF assms K(2)] by blast
  have all: "map unat (ds @ [num mod base]) = map (\<lambda>i. ?n div ?b ^ i mod ?b) (rev [0..<Suc K])"
    using ds(2) by (simp add: unat_mod upt_conv_Cons del: upt_Suc)
  have len: "length ds = K" using arg_cong [OF ds(2), of length] by simp
  have "foldl (\<lambda>v d. v * ?b + unat d) 0 (ds @ [num mod base]) =
      foldl (\<lambda>v d. v * ?b + d) 0 (map unat (ds @ [num mod base]))" by (simp add: foldl_map)
  also have "\<dots> = ?n" unfolding all using horner_digits [OF K(3), of 0] assms by simp
  finally have val: "foldl (\<lambda>v d. v * ?b + unat d) 0 (ds @ [num mod base]) = ?n" .
  have small: "unat d < ?b" if "d \<in> set (ds @ [num mod base])" for d
  proof -
    have "unat d \<in> set (map unat (ds @ [num mod base]))" using that by (simp only: set_map) blast
    then show ?thesis unfolding all using assms by auto
  qed
  have "unat (hd (ds @ [num mod base])) = hd (map unat (ds @ [num mod base]))" by (cases ds) simp_all
  also have "\<dots> = ?n div ?b ^ K mod ?b" unfolding all by simp
  finally have hd: "unat (hd (ds @ [num mod base])) = ?n div ?b ^ K mod ?b" .
  have "?n div ?b ^ K < ?b" using K(3) by (simp add: less_mult_imp_div_less mult.commute)
  moreover have "K < LENGTH('w)"
  proof (cases "K = 0")
    case False
    have "2 ^ K \<le> ?b ^ K" using assms by (rule power_mono) simp
    also have "\<dots> < 2 ^ LENGTH('w)" using False K(4) unsigned_less [of num] by (meson le_less_trans)
    finally show ?thesis by simp
  qed simp
  moreover have "0 < ?n div ?b ^ K" if "num \<noteq> 0"
    using that K(4) assms by (auto simp: div_greater_zero_iff unat_gt_0 Suc_le_eq)
  ultimately show ?thesis using K(1) ds(1) len val small hd by (intro exI [of _ D] exI [of _ K] exI [of _ ds]) simp
qed

section \<open>What a conversion counts\<close>

lemma concat_singles [simp]: "length (concat (replicate n [c])) = n" "length (concat (map (\<lambda>d. [f d]) ds)) = length ds"
  by (induction n) (simp_all add: length_concat comp_def)

lemma uns_small: "0 \<le> n \<Longrightarrow> n \<le> INT_MAX \<Longrightarrow> uns n = nat n"
  by (simp add: uns_def INT_MAX_def)

lemma int_of_size_small: "int n \<le> INT_MAX \<Longrightarrow> int_of_size n = int n"
  by (simp add: int_of_size_def INT_MAX_def signed_of_nat signed_take_bit_int_eq_self)

abbreviation int_range :: "int \<Rightarrow> bool" where
  "int_range n \<equiv> - (2 ^ 31) \<le> n \<and> n < 2 ^ 31"

lemma uns_int: "int_range w \<Longrightarrow> uns w \<le> nat INT_MAX \<Longrightarrow> w = int (uns w)"
proof (cases "w < 0")
  case True
  assume "int_range w" "uns w \<le> nat INT_MAX"
  moreover have "w mod 2 ^ 32 = w + 2 ^ 32"
  proof -
    have "(w + 2 ^ 32) mod 2 ^ 32 = w + 2 ^ 32" using \<open>int_range w\<close> True by (intro mod_pos_pos_trivial) simp_all
    then show ?thesis by (simp only: mod_add_self2)
  qed
  ultimately show ?thesis by (simp add: uns_def INT_MAX_def nat_le_iff)
qed (simp add: uns_def)

lemma uns_of_size: "n < 2 ^ 32 \<Longrightarrow> uns (int_of_size n) = n"
proof -
  assume n: "n < 2 ^ 32"
  have "sint (of_nat n :: u32) mod 2 ^ 32 = uint (of_nat n :: u32)"
    using uint_sint [of "of_nat n :: u32"] by (simp add: take_bit_eq_mod)
  also have "\<dots> = int n" using n by (simp add: unsigned_of_nat take_bit_nat_eq_self)
  finally show ?thesis by (simp add: uns_def int_of_size_def)
qed

lemma int_of_size_range: "int_range (int_of_size n)"
  using sint_greater_eq [of "of_nat n :: u32"] sint_less [of "of_nat n :: u32"] by (simp add: int_of_size_def)

text \<open>The width counted and the characters printed differ by what the sign takes more or less than its room.\<close>

lemma if_None_Some: "(if b then None else Some (x, y)) = Some (u, v) \<Longrightarrow> \<not> b \<and> u = x \<and> v = y"
  by (simp split: if_splits)

lemma pad_once:
  "length (concat (if M \<or> Z then [] else replicate p [x])) + length (concat (if \<not> M \<and> Z then replicate p [y] else [])) +
   length (concat (if M then replicate p [x] else [])) = p"
  by simp

lemma room_counted:
  fixes u :: nat
  assumes "room = prec + p + a + e" "room \<le> u" "l \<le> prec" "k = u - room + s + a + (prec - l) + l"
  shows "k + e + p = u + s"
  using assms by simp

lemma count_int:
  fixes u :: nat
  shows "k + e + (if b then 1 else 0) = u + s \<Longrightarrow> int k + int e + (if b then 1 else 0) = int u + int s"
  by (cases b) simp_all

lemma conv_number_count:
  assumes "conv_number flags width precision maxrem len zero extra sign alt digits = Some (out, w)"
    and "maxrem \<le> nat INT_MAX" "int_range width" "int_range precision" "len \<le> 64" "extra \<le> 1"
    and "length (concat digits) = len" "length (concat alt) = 2" "zero \<Longrightarrow> len = 1"
  shows "int (length (concat out)) + int extra + (if F_PLUS flags \<or> F_SPACE flags then 1 else 0) = w + int (length (concat sign))"
proof -
  define len1 where "len1 = (if precision = 0 \<and> zero then 0 else len)"
  define prec where "prec = (if precision \<ge> 0 \<and> uns precision > len1 then nat precision else len1)"
  define room where "room = prec + (if F_PLUS flags \<or> F_SPACE flags then 1 else 0) + (if F_ALT flags then 2 else 0) + extra"
  define wd where "wd = (if uns width < room then int_of_size room else width)"
  have "len1 \<le> len" by (simp add: len1_def)
  then have "len1 \<le> 64" using assms(5) by linarith
  then have "prec < 2 ^ 31" using assms(4) by (auto simp: prec_def)
  then have room: "room < 2 ^ 32" using assms(6) by (simp add: room_def)
  let ?out = "(if F_MINUS flags \<or> F_ZERO flags then [] else replicate (uns wd - room) [32]) @
         sign @ (if F_ALT flags then alt else []) @
         (if \<not> F_MINUS flags \<and> F_ZERO flags then replicate (uns wd - room) [48] else []) @
         replicate (prec - len1) [48] @
         (if zero then if precision \<noteq> 0 then [[48]] else [] else digits) @
         (if F_MINUS flags then replicate (uns wd - room) [32] else [])"
  have rm: "(if F_ALT flags then (if F_PLUS flags \<or> F_SPACE flags then prec + 1 else prec) + 2
      else (if F_PLUS flags \<or> F_SPACE flags then prec + 1 else prec)) + extra = room"
    by (simp add: room_def)
  have eq: "(if maxrem < uns wd then None else Some (?out, wd)) = Some (out, w)"
    using assms(1) unfolding conv_number_def Let_def len1_def [symmetric] prec_def [symmetric] rm wd_def [symmetric] .
  note out = if_None_Some [OF eq]
  have "int_range wd" unfolding wd_def using assms(3) int_of_size_range [of room] by (cases "uns width < room") (simp_all only: if_True if_False simp_thms)
  then have w: "w = int (uns wd)" using uns_int [of wd] out assms(2) by simp
  have "room \<le> uns wd" using uns_of_size [OF room] by (simp add: wd_def)
  moreover have "len1 \<le> prec" using assms(4) uns_small [of precision] by (auto simp: prec_def INT_MAX_def)
  moreover have "length (concat out) = uns wd - room + length (concat sign) + (if F_ALT flags then 2 else 0) + (prec - len1) + len1"
  proof -
    define pa where "pa = length (concat (if F_MINUS flags \<or> F_ZERO flags then [] else replicate (uns wd - room) [32 :: u8]))"
    define pb where "pb = length (concat (if \<not> F_MINUS flags \<and> F_ZERO flags then replicate (uns wd - room) [48 :: u8] else []))"
    define pc where "pc = length (concat (if F_MINUS flags then replicate (uns wd - room) [32 :: u8] else []))"
    note pad = pad_once [of "F_MINUS flags" "F_ZERO flags" "uns wd - room" "32 :: u8" "48 :: u8", folded pa_def pb_def pc_def]
    have "length (concat (if zero then if precision \<noteq> 0 then [[48]] else [] else digits)) = len1"
      using assms(7,9) by (simp add: len1_def)
    moreover have "length (concat (if F_ALT flags then alt else [])) = (if F_ALT flags then 2 else 0)" using assms(8) by simp
    ultimately have "length (concat ?out) = pa + (length (concat sign) + ((if F_ALT flags then 2 else 0) + (pb + (prec - len1 + (len1 + pc)))))"
      unfolding pa_def pb_def pc_def by (simp only: concat_append length_append concat_singles(1))
    moreover have "length (concat out) = length (concat ?out)"
      by (rule arg_cong [where f = "\<lambda>x. length (concat x)", OF conjunct1 [OF conjunct2 [OF out]]])
    ultimately show ?thesis using pad by linarith
  qed
  ultimately have "length (concat out) + extra + (if F_PLUS flags \<or> F_SPACE flags then 1 else 0) =
      uns wd + length (concat sign)"
    by (rule room_counted [OF room_def])
  then show ?thesis unfolding w by (rule count_int)
qed

end
