(* ===== verification/Libc_Output.thy ===== *)
theory Libc_Output
  imports Libc_Printf
begin

text \<open>
  What the formatted output functions promise. A sink is a \<open>print\<close> function that accepts every string and
  keeps it; whatever the sink, a format prints the same characters, and \<open>sprint\<close> is a sink that keeps what
  fits into the buffer. The theory shows what a conversion counts, what \<open>snprintf\<close> leaves in the buffer, and
  that \<open>strtol\<close> reads back what \<^verbatim>\<open>%d\<close> writes.
\<close>

section \<open>Counting\<close>

text \<open>A conversion that returns counts the characters it prints, and \<open>e\<close> more.\<close>

definition counted :: "int \<Rightarrow> conversion \<Rightarrow> bool" where
  "counted e conv = (case conv of None \<Rightarrow> True | Some (out, w) \<Rightarrow> w = int (length (concat out)) + e)"

lemma counted_number:
  assumes "maxrem \<le> nat INT_MAX" "int_range width" "int_range precision" "len \<le> 64"
    "length (concat digits) = len" "length (concat alt) = 2" "zero \<Longrightarrow> len = 1" "extra \<le> 1"
    "int (length (concat sign)) + e = int extra + (if F_PLUS flags \<or> F_SPACE flags then 1 else 0)"
  shows "counted e (conv_number flags width precision maxrem len zero extra sign alt digits)"
proof (cases "conv_number flags width precision maxrem len zero extra sign alt digits")
  case (Some r)
  obtain out w where r: "r = (out, w)" by (cases r)
  show ?thesis using conv_number_count [OF Some [unfolded r] assms(1-4,8,5-7)] assms(9) Some r
    by (simp add: counted_def)
qed (simp add: counted_def)

lemma digits_printed:
  fixes base num :: "'w::len word"
  assumes "2 \<le> unat base" "LENGTH('w) \<le> 64"
  shows "\<exists>D len ds. scale_div base num 1 1 = Some (D, len) \<and> digit_seq base num D = Some ds \<and> len \<le> 64 \<and>
    length (concat (map (\<lambda>d. [f d]) ds @ [[c]])) = len \<and> (num = 0 \<longrightarrow> len = 1) \<and>
    foldl (\<lambda>v d. v * unat base + unat d) 0 (ds @ [num mod base]) = unat num \<and>
    (\<forall>d \<in> set (ds @ [num mod base]). unat d < unat base)"
proof -
  obtain D K ds where K: "scale_div base num 1 1 = Some (D, Suc K)" "digit_seq base num D = Some ds" "length ds = K"
    "K < LENGTH('w)" "foldl (\<lambda>v d. v * unat base + unat d) 0 (ds @ [num mod base]) = unat num"
    "\<forall>d \<in> set (ds @ [num mod base]). unat d < unat base"
    using number_digits [OF assms(1), of num] by blast
  have "K = 0" if "num = 0"
  proof -
    have "base - 1 \<ge> 0 div 1" by simp
    then have "scale_div base num 1 1 = Some (1, 1)" using that by (subst scale_div.simps) (simp add: not_less)
    then show ?thesis using K(1) by simp
  qed
  then show ?thesis using K assms(2) by (intro exI [of _ D] exI [of _ "Suc K"] exI [of _ ds]) simp
qed



section \<open>Sinks\<close>

text \<open>
  The contract of a sink: printing \<open>s\<close> succeeds and extends the object by \<open>s\<close>, piece by piece or at once.
\<close>

locale char_sink =
  fixes pr :: "'o printer" and ok :: "'o \<Rightarrow> bool" and ext :: "'o \<Rightarrow> u8 list \<Rightarrow> 'o"
  assumes pr_ext: "ok ob \<Longrightarrow> pr ob s = Some (ext ob s, True)"
    and ok_ext: "ok ob \<Longrightarrow> ok (ext ob s)"
    and ext_Nil: "ext ob [] = ob"
    and ext_append: "ok ob \<Longrightarrow> ext (ext ob s) t = ext ob (s @ t)"

text \<open>The characters a format prints, whatever the sink.\<close>

definition collect :: "u8 list printer" where
  "collect out s = Some (out @ s, True)"

interpretation collected: char_sink collect "\<lambda>_. True" "(@)"
  by unfold_locales (simp_all add: collect_def)

lemma dropWhile_shorter: "length (dropWhile P f) \<le> length f"
  by (simp add: length_dropWhile_le)

lemma parse_flags_shorter: "length (snd (parse_flags f flags)) \<le> length f"
  by (induction f flags rule: parse_flags.induct) auto

lemma parse_number_shorter: "parse_number f args = Some (n, f', args') \<Longrightarrow> length f' \<le> length f"
  by (auto simp: parse_number_def dropWhile_shorter split: if_splits option.splits bind_splits)

lemma parse_precision_shorter: "parse_precision f args = Some (n, f', args') \<Longrightarrow> length f' \<le> length f"
  by (auto simp: parse_precision_def split: if_splits dest!: parse_number_shorter)

lemma parse_length_shorter: "length (snd (parse_length f)) \<le> length f"
  by (simp add: parse_length_def Let_def diff_le_self le_trans [OF diff_le_self] le_trans [OF dropWhile_shorter])

lemma convert_shorter:
  assumes "convert f args maxrem = Some (c, f', args')" "f \<noteq> []"
  shows "length f' < length f"
proof -
  obtain flags f1 where f1: "parse_flags (tl f) 0 = (flags, f1)" by fastforce
  obtain width f2 args2 where f2: "parse_number f1 args = Some (width, f2, args2)"
    using assms(1) f1 by (auto simp: convert_def split: bind_splits)
  obtain precision f3 args3 where f3: "parse_precision f2 args2 = Some (precision, f3, args3)"
    using assms(1) f1 f2 by (auto simp: convert_def split: bind_splits)
  obtain lm f4 where f4: "parse_length f3 = (lm, f4)" by fastforce
  have "length f4 \<le> length (tl f)"
    using parse_flags_shorter [of "tl f" 0] parse_number_shorter [OF f2] parse_precision_shorter [OF f3]
      parse_length_shorter [of f3] f1 f4 by simp
  then have short: "length f4 < length f" using assms(2) by (cases f) simp_all
  have "f' \<in> {tl f4, f4, []}"
    using assms(1) unfolding convert_def f1 Let_def prod.case f2 f3 f4 Option.bind.bind_lunit
    by (auto split: if_splits bind_splits)
  then show ?thesis using short by auto
qed

lemma literal_shorter: "f \<noteq> [] \<Longrightarrow> length (snd (literal_part f)) < length f"
  by (cases f) (auto simp: literal_part_def Let_def hd0_def)

context char_sink
begin

lemma print_all_ext: "ok ob \<Longrightarrow> print_all pr ss ob = Some (Inr (ext ob (concat ss)))"
  by (induction ss arbitrary: ob) (simp_all add: pr_ext ok_ext ext_Nil ext_append)

lemma loop_ext:
  assumes "ok ob"
  shows "printf_loop pr f args w (ext ob out) =
    map_option (\<lambda>(w, out). (w, ext ob out)) (printf_loop collect f args w out)"
proof (induction "length f" arbitrary: f args w out rule: less_induct)
  case less
  note all = print_all_ext [OF ok_ext [OF assms]] collected.print_all_ext
  show ?case
  proof (cases "f = []")
    case True
    then show ?thesis by (subst (1 2) printf_loop.simps) simp
  next
    case False
    obtain text' f' where lit: "literal_part f = (text', f')" by fastforce
    have "length f' < length f" using literal_shorter [OF False] lit by simp
    note IH = less [OF this]
    note step = printf_loop.simps [of _ f] all print_all.simps(2) ext_append [OF assms] Let_def
    show ?thesis
    proof (cases "hd0 f \<noteq> 37 \<or> hd0 (tl f) = 37")
      case True
      then show ?thesis using False lit IH by (simp add: step del: print_all.simps)
    next
      case conv: False
      show ?thesis
      proof (cases "convert f args (nat (INT_MAX - w))")
        case None
        then show ?thesis using False conv by (simp add: step)
      next
        case (Some r)
        obtain c g args' where r: "r = (c, g, args')" by (cases r)
        have "length g < length f" using convert_shorter Some r False by simp
        then show ?thesis using False conv Some r less
          by (cases c) (auto simp: step simp del: print_all.simps)
      qed
    qed
  qed
qed

text \<open>A format prints the same characters into every sink and returns the same count.\<close>

lemma internal_ext:
  assumes "ok ob"
  shows "printf_internal pr is_sprint f args ob =
    map_option (\<lambda>(ret, out). (ret, ext ob (if is_sprint \<and> ret \<noteq> -1 then out @ [0] else out)))
      (printf_internal collect False f args [])"
proof -
  note loop = loop_ext [OF assms, of f args 0 "[]", unfolded ext_Nil]
  show ?thesis unfolding printf_internal_def loop
    by (cases "printf_loop collect f args 0 []")
      (auto simp: print_all_ext [OF ok_ext [OF assms]] ext_append [OF assms] simp del: print_all.simps)
qed

end

section \<open>Printing into a buffer\<close>

definition stored_at :: "memory \<Rightarrow> addr \<Rightarrow> u8 list \<Rightarrow> memory" where
  "stored_at m s xs = (\<lambda>a. if s \<le> a \<and> a < s + length xs then Some (xs ! (a - s)) else m a)"

definition buffer_ok :: "snprintf_info \<Rightarrow> bool" where
  "buffer_ok info \<longleftrightarrow> mapped (si_mem info) (si_s info) (si_max_len info)"

definition buffer_ext :: "snprintf_info \<Rightarrow> u8 list \<Rightarrow> snprintf_info" where
  "buffer_ext info xs =
     (let ys = take (si_max_len info - si_pos info) xs in
      info\<lparr>si_mem := stored_at (si_mem info) (si_s info + si_pos info) ys, si_pos := si_pos info + length ys\<rparr>)"

lemma stored_at_Nil [simp]: "stored_at m s [] = m"
  by (rule ext) (auto simp: stored_at_def)

lemma stored_at_append: "stored_at (stored_at m s xs) (s + length xs) ys = stored_at m s (xs @ ys)"
proof
  fix a
  consider "a < s + length xs" | "s + length xs \<le> a" "a < s + length xs + length ys" | "s + length xs + length ys \<le> a"
    by linarith
  then show "stored_at (stored_at m s xs) (s + length xs) ys a = stored_at m s (xs @ ys) a"
    by cases (auto simp: stored_at_def nth_append diff_diff_left)
qed

lemma stored_at_single: "m(s \<mapsto> c) = stored_at m s [c]"
  by (auto simp: stored_at_def fun_eq_iff)

lemma mapped_stored: "mapped m b n \<Longrightarrow> mapped (stored_at m s xs) b n"
  by (simp add: mapped_def stored_at_def)

lemma sprint_buffer: "buffer_ok info \<Longrightarrow> sprint info s = Some (buffer_ext info s, True)"
proof (induction s arbitrary: info)
  case Nil
  then show ?case by (simp add: buffer_ext_def)
next
  case (Cons c s)
  show ?case
  proof (cases "si_pos info < si_max_len info")
    case True
    let ?a = "si_s info + si_pos info" and ?j = "info\<lparr>si_mem := (si_mem info)(si_s info + si_pos info \<mapsto> c), si_pos := si_pos info + 1\<rparr>"
    have "mem_put (si_mem info) ?a c = Some ((si_mem info)(?a \<mapsto> c))"
      using Cons.prems True by (intro mem_put_some) (simp add: buffer_ok_def mapped_def)
    moreover have "sprint ?j s = Some (buffer_ext ?j s, True)"
      using Cons.prems mapped_put by (intro Cons.IH) (simp add: buffer_ok_def)
    moreover have "buffer_ext ?j s = buffer_ext info (c # s)"
      using True stored_at_append [of "si_mem info" ?a "[c]"]
      by (simp add: buffer_ext_def Let_def stored_at_single Suc_diff_Suc [symmetric] add.assoc)
    ultimately show ?thesis using True by simp
  next
    case False
    then show ?thesis by (simp add: buffer_ext_def)
  qed
qed

interpretation buffer: char_sink sprint buffer_ok buffer_ext
proof
  fix info s t
  show "buffer_ok info \<Longrightarrow> sprint info s = Some (buffer_ext info s, True)" by (rule sprint_buffer)
  show "buffer_ok info \<Longrightarrow> buffer_ok (buffer_ext info s)"
    by (simp add: buffer_ok_def buffer_ext_def Let_def mapped_stored)
  show "buffer_ext info [] = info" by (simp add: buffer_ext_def)
  show "buffer_ext (buffer_ext info s) t = buffer_ext info (s @ t)"
    using stored_at_append [of "si_mem info" "si_s info + si_pos info" "take (si_max_len info - si_pos info) s"]
    by (simp add: buffer_ext_def Let_def min_def add.assoc)
qed

lemma buffer_snprintf:
  assumes "mapped m s len"
  shows "snprintf s len format args m =
    map_option (\<lambda>(ret, out). (ret, stored_at m s (take len (if ret = -1 then out else out @ [0]))))
      (printf_internal collect False format args [])"
proof -
  let ?i = "\<lparr>si_mem = m, si_s = s, si_max_len = len, si_pos = 0\<rparr>"
  have "buffer_ok ?i" using assms by (simp add: buffer_ok_def)
  from buffer.internal_ext [OF this, of True format args] show ?thesis
    by (cases "printf_internal collect False format args []")
      (auto simp: snprintf_def vsnprintf_def buffer_ext_def Let_def)
qed

text \<open>
  C11 (snprintf_prefix). Into a buffer of \<open>len\<close> mapped bytes, \<open>snprintf\<close> writes the first \<open>len\<close> of the characters
  that the format prints and of the NUL behind them, and nothing else; the result is the one of printing
  everything. So it never writes out of bounds, and a result that does not fit is cut without a NUL.
\<close>

theorem snprintf_prefix:
  assumes "mapped m s len"
  shows "snprintf s len format args m =
      map_option (\<lambda>(ret, out). (ret, stored_at m s (take len (if ret = -1 then out else out @ [0]))))
        (printf_internal collect False format args []) \<and>
    (\<forall>ret m'. snprintf s len format args m = Some (ret, m') \<longrightarrow> (\<forall>a. a < s \<or> s + len \<le> a \<longrightarrow> m' a = m a))"
  unfolding buffer_snprintf [OF assms] by (auto simp: stored_at_def)

lemma printf_literal:
  "printf_internal collect False [65, 66, 67] [] [] = Some (3, [65, 66, 67])"
proof -
  have "printf_loop collect [] [] 3 [65, 66, 67] = Some (3, [65, 66, 67])" by (subst printf_loop.simps) simp
  then have "printf_loop collect [65, 66, 67] [] 0 [] = Some (3, [65, 66, 67])"
    by (subst printf_loop.simps) (simp add: hd0_def literal_part_def INT_MAX_def collect_def)
  then show ?thesis by (simp add: printf_internal_def)
qed

lemma snprintf_prefix_witness:
  "\<exists>m'. snprintf 0 2 [65, 66, 67] [] (\<lambda>a. if a < 2 then Some 7 else None) = Some (3, m') \<and>
     m' 0 = Some 65 \<and> m' 1 = Some 66 \<and> m' 2 = None"
  using snprintf_prefix [of "\<lambda>a. if a < 2 then Some 7 else None" 0 2 "[65, 66, 67]" "[]"]
  by (simp add: printf_literal mapped_def stored_at_def)

section \<open>Writing and reading a number\<close>

lemma dec_char_digit:
  fixes d :: u32
  assumes "unat d < 10"
  shows "is_valid_char_for_base (dec_char d) 10" "dval (dec_char d) = unat d" "dec_char d \<noteq> 0"
proof -
  define k where "k = unat d"
  have "d = of_nat k" "k \<in> {0, 1, 2, 3, 4, 5, 6, 7, 8, 9}" using assms by (auto simp: k_def)
  then have "d \<in> {0, 1, 2, 3, 4, 5, 6, 7, 8, 9}" by auto
  then show "is_valid_char_for_base (dec_char d) 10" "dval (dec_char d) = unat d" "dec_char d \<noteq> 0"
    by (auto simp: dec_char_def is_valid_char_for_base_def get_value_from_char_def isdigit_def isalpha_def)
qed

lemma digits_from_map:
  fixes ds :: "u32 list"
  assumes "\<forall>d \<in> set ds. unat d < 10"
  shows "digits_from 10 v (map dec_char ds) = foldl (\<lambda>v d. v * 10 + unat d) v ds"
  using assms by (induction ds arbitrary: v) (simp_all add: dec_char_digit)

text \<open>What \<^verbatim>\<open>%d\<close> prints without flags, width and precision.\<close>

lemma conv_number_plain:
  assumes "0 < len" "len \<le> 64" "extra \<le> 1"
  shows "conv_number 0 0 (- 1) (nat INT_MAX) len zero extra sign alt digits =
    Some (sign @ (if zero then [[48]] else digits), int (len + extra))"
proof -
  have "int_of_size (len + extra) = int (len + extra)" "uns (int_of_size (len + extra)) = len + extra" "uns 0 = 0"
    using assms uns_of_size [of "len + extra"] int_of_size_small [of "len + extra"] by (simp_all add: INT_MAX_def uns_def [of 0])
  then show ?thesis using assms by (simp add: conv_number_def INT_MAX_def)
qed

lemma unat_numeral_10: "unat (10 :: u32) = 10"
  by simp

lemma conv_decimal_plain:
  assumes "sint num \<noteq> - (2 ^ 31)"
  shows "\<exists>out ds. conv_decimal num 0 0 (- 1) (nat INT_MAX) nx = Some (Some (out, int (length (concat out)))) \<and>
    concat out = (if sint num < 0 then [45] else []) @ ds \<and> ds \<noteq> [] \<and> length ds \<le> 64 \<and>
    (\<forall>d \<in> set ds. is_valid_char_for_base d 10 \<and> d \<noteq> 0) \<and> int (digits_from 10 0 ds) = \<bar>sint num\<bar>"
proof -
  define n where "n = (if sint num < 0 then - sint num else sint num)"
  have n: "in_int n = Some n" "0 \<le> n" "n < 2 ^ 31"
    using assms sint_greater_eq [of num] sint_less [of num] by (auto simp: in_int_def INT_MAX_def n_def)
  let ?n = "of_int n :: u32"
  have un: "unat ?n = nat n" using n take_bit_int_eq_self [of n 32] by (simp add: unsigned_of_int)
  have zero: "num = 0 \<longleftrightarrow> ?n = 0" by (simp add: n_def)
  let ?last = "dec_char (?n mod 10)"
  have last': "of_int (n smod 10) + 48 = ?last"
  proof -
    have "n smod 10 = int (nat n mod 10)" using n(2) by (cases "n = 0") (simp_all add: smod_int_alt_def nat_mod_as_int)
    moreover have "of_nat (nat n mod 10) = (ucast (?n mod 10) :: u8)"
      using of_nat_unat [of "?n mod 10"] unat_mod [of ?n 10] un by (simp only: unat_numeral_10)
    ultimately show ?thesis by (simp add: dec_char_def)
  qed
  obtain D len ds where K: "scale_div 10 ?n 1 1 = Some (D, len)" "digit_seq 10 ?n D = Some ds" "len \<le> 64"
    "length (concat (map (\<lambda>d. [dec_char d]) ds @ [[?last]])) = len" "?n = 0 \<longrightarrow> len = 1"
    "foldl (\<lambda>v d. v * 10 + unat d) 0 (ds @ [?n mod 10]) = unat ?n" "\<forall>d \<in> set (ds @ [?n mod 10]). unat d < 10"
    using digits_printed [of "10 :: u32" ?n dec_char ?last] by auto
  let ?ds = "map dec_char (ds @ [?n mod 10])" and ?sg = "if sint num < 0 then [45] else [] :: u8 list"
  define out where "out = (if sint num < 0 then [[45]] else []) @
    (if num = 0 then [[48]] else map (\<lambda>d. [dec_char d]) ds @ [[?last]])"
  have len: "len = Suc (length ds)" using K(4) by simp
  have run: "conv_decimal num 0 0 (- 1) (nat INT_MAX) nx = Some (Some (out, int (len + (if sint num < 0 then 1 else 0))))"
    unfolding conv_decimal_def n_def [symmetric] n(1) Option.bind.bind_lunit K(1,2) prod.case Let_def last' out_def
    using K(3) len by (simp add: plus_or_space_def conv_number_plain)
  have out: "concat out = ?sg @ ?ds"
    using K(5) zero len by (auto simp: out_def dec_char_def concat_map_singleton comp_def)
  have "length (concat out) = len + (if sint num < 0 then 1 else 0)" using out len by simp
  moreover have "\<forall>d \<in> set ?ds. is_valid_char_for_base d 10 \<and> d \<noteq> 0" using K(7) dec_char_digit by auto
  moreover have "int (digits_from 10 0 ?ds) = \<bar>sint num\<bar>"
    unfolding digits_from_map [OF K(7)] K(6) un using n(2) by (simp add: n_def)
  ultimately show ?thesis using run out K(3) len by (intro exI [of _ out] exI [of _ ?ds]) simp
qed

lemma cstr_stored:
  "\<forall>c \<in> set xs. c \<noteq> 0 \<Longrightarrow> cstr (stored_at m s (xs @ 0 # ys)) s xs"
proof (induction xs arbitrary: s m)
  case (Cons x xs)
  have "stored_at m s ((x # xs) @ 0 # ys) = stored_at (stored_at m s [x]) (s + 1) (xs @ 0 # ys)"
    using stored_at_append [of m s "[x]" "xs @ 0 # ys"] by simp
  moreover have "stored_at m s ((x # xs) @ 0 # ys) s = Some x" by (simp add: stored_at_def)
  ultimately show ?case using Cons by simp
qed (simp add: stored_at_def)

lemma printf_decimal:
  assumes "conv_decimal num 0 0 (- 1) (nat INT_MAX) 0 = Some (Some (out, w))"
  shows "printf_internal collect False [37, 100] [VInt num] [] = Some (w, concat out)"
proof -
  have "convert [37, 100] [VInt num] (nat INT_MAX) = Some (Some (out, w), [], [])"
    using assms by (simp add: convert_def parse_number_def parse_precision_def parse_length_def hd0_def is_dec_def
      parseInt_def va_int_def)
  moreover have "printf_loop collect [] [] w (concat out) = Some (w, concat out)" by (subst printf_loop.simps) simp
  ultimately have "printf_loop collect [37, 100] [VInt num] 0 [] = Some (w, concat out)"
    by (subst printf_loop.simps) (simp add: hd0_def collected.print_all_ext)
  then show ?thesis by (simp add: printf_internal_def)
qed

lemma sint_of_int_u64: "- (2 ^ 31) \<le> k \<Longrightarrow> k < 2 ^ 31 \<Longrightarrow> sint (of_int k :: u64) = k"
  by (simp add: signed_of_int signed_take_bit_int_eq_self)

text \<open>
  C12 (decimal_roundtrip). Writing an \<open>int\<close> other than the smallest with \<open>snprintf\<close> and \<^verbatim>\<open>%d\<close> into a buffer
  that is large enough and reading it with \<open>strtol\<close> in base 10 gives the number back, with \<open>*endptr\<close> behind
  the last character that was counted and no error.
\<close>

theorem decimal_roundtrip:
  assumes "sint num \<noteq> - (2 ^ 31)" "mapped m s len" "66 \<le> len"
  shows "\<exists>w m' r. snprintf s len [37, 100] [VInt num] m = Some (int w, m') \<and>
    strtol m' (Some s) 10 = Some (r, Some (s + w), None) \<and> sint r = sint num"
proof -
  obtain out ds where out: "conv_decimal num 0 0 (- 1) (nat INT_MAX) 0 = Some (Some (out, int (length (concat out))))"
    and cat: "concat out = (if sint num < 0 then [45] else []) @ ds" and ds: "ds \<noteq> []" "length ds \<le> 64"
      "\<forall>d \<in> set ds. is_valid_char_for_base d 10 \<and> d \<noteq> 0" and val: "int (digits_from 10 0 ds) = \<bar>sint num\<bar>"
    using conv_decimal_plain [OF assms(1)] by blast
  let ?sg = "if sint num < 0 then [45] else [] :: u8 list" and ?m = "stored_at m s (concat out @ [0])"
  have "length (concat out @ [0]) \<le> len" using cat ds(2) assms(3) by simp
  then have run: "snprintf s len [37, 100] [VInt num] m = Some (int (length (concat out)), ?m)"
    using buffer_snprintf [OF assms(2)] printf_decimal [OF out] by simp
  have "cstr ?m s ([] @ ?sg @ ds @ [])" using cstr_stored [of "concat out" m s "[]"] cat ds(3) by (simp split: if_splits)
  moreover have "\<forall>d \<in> set ds. is_valid_char_for_base d 10" using ds(3) by blast
  ultimately have read: "strtol ?m (Some s) 10 = Some (
      if digits_from 10 0 ds \<le> unat (if ?sg = [45] then INTMAX_MIN else INTMAX_MAX)
      then ((if ?sg = [45] then -1 else 1) * of_nat (digits_from 10 0 ds), Some (s + length ([] @ ?sg @ ds)), None)
      else (if ?sg = [45] then INTMAX_MIN else INTMAX_MAX, Some (s + length ([] @ ?sg @ ds)), Some ERANGE))"
    using ds(1) by (intro strtol_run [where rest = "[]"]) simp_all
  have small: "digits_from 10 0 ds < 2 ^ 32" "digits_from 10 0 ds = nat \<bar>sint num\<bar>"
    using val sint_greater_eq [of num] sint_less [of num] by auto
  have "digits_from 10 0 ds \<le> unat (if ?sg = [45] then INTMAX_MIN else INTMAX_MAX)"
    using small(1) by (cases "sint num < 0") simp_all
  moreover have "(if ?sg = [45] then -1 else 1) * of_nat (digits_from 10 0 ds) = (of_int (sint num) :: u64)"
    unfolding small(2) by simp
  moreover have "sint (of_int (sint num) :: u64) = sint num"
    using sint_greater_eq [of num] sint_less [of num] by (intro sint_of_int_u64) simp_all
  ultimately have "strtol ?m (Some s) 10 = Some (of_int (sint num), Some (s + length (concat out)), None)"
    unfolding read by (simp only: if_True cat append_Nil)
  then show ?thesis using run \<open>sint (of_int (sint num) :: u64) = sint num\<close> by blast
qed

lemma decimal_roundtrip_witness:
  "\<exists>w m' r. snprintf 100 66 [37, 100] [VInt (- 120)] (\<lambda>_. Some 7) = Some (int w, m') \<and>
    strtol m' (Some 100) 10 = Some (r, Some (100 + w), None) \<and> sint r = - 120"
  using decimal_roundtrip [of "- 120" "\<lambda>_. Some 7" 100 66] by (simp add: mapped_def)

end
