(* ===== verification/Pipe.thy ===== *)
theory Pipe
  imports Ring_Buffer "HOL-Library.Multiset"
begin

text \<open>
  Pipes, \<^verbatim>\<open>kernel/fs/pipe.c\<close>, with the poll state of an inode (\<^verbatim>\<open>kernel/include/kernel/fs/file.h\<close>) and the
  parts of \<^verbatim>\<open>kernel/fs/vfs.c\<close> they use. Between two waits a call holds \<open>inode->lock\<close>, so a call is modelled
  by what it does up to its return or up to the point where it sleeps (\<open>Sleeping\<close>), and by what it does
  when it is resumed. \<open>tid\<close> is the calling task, \<open>sig\<close> says whether it has a signal pending. A queue holds the
  tasks that are blocked in it; waking them up removes them. The theory shows the invariant of all
  reachable pipes, that readers make progress, and that a writer may hang.
\<close>

section \<open>Model\<close>

subsection \<open>Poll state of an inode\<close>

abbreviation (input) POLLIN :: u32 where "POLLIN \<equiv> 1"
abbreviation (input) POLLOUT :: u32 where "POLLOUT \<equiv> 16"
abbreviation (input) O_NONBLOCK :: u32 where "O_NONBLOCK \<equiv> 512"
abbreviation (input) O_RDONLY :: u32 where "O_RDONLY \<equiv> 8192"
abbreviation (input) O_RDWR :: u32 where "O_RDWR \<equiv> 16384"
abbreviation (input) O_WRONLY :: u32 where "O_WRONLY \<equiv> 65536"
abbreviation (input) FS_FILE_CAN_READ :: u32 where "FS_FILE_CAN_READ \<equiv> 1"
abbreviation (input) FS_FILE_CAN_WRITE :: u32 where "FS_FILE_CAN_WRITE \<equiv> 2"
abbreviation (input) FS_FILE_CANT_SEEK :: u32 where "FS_FILE_CANT_SEEK \<equiv> 4"
abbreviation (input) PIPE_DEVICE :: int where "PIPE_DEVICE \<equiv> 3"
abbreviation (input) PIPE_DEFAULT_BUFFER_SIZE :: u64 where "PIPE_DEFAULT_BUFFER_SIZE \<equiv> 0x1000"

record fs_file =
  f_open_flags :: u32
  f_abilities :: u32
  f_ref_count :: int

record pipe_data =
  pd_buffer :: ring_buffer
  pd_readers_queue :: "nat list"
  pd_writers_queue :: "nat list"
  pd_read_count :: int
  pd_write_count :: int

record inode =
  in_fsid :: int
  in_index :: u64
  in_poll_flags :: u32  \<comment> \<open>\<open>file_state\<close>\<close>
  in_queue :: "nat list"
  in_pipe_data :: "pipe_data option"
  in_open_file_count :: int
  in_ref_count :: int
  in_modify_time :: nat

definition fs_set_state :: "u32 \<Rightarrow> inode \<Rightarrow> inode" where
  "fs_set_state flags ip =
     (if in_poll_flags ip = flags then ip else ip\<lparr>in_poll_flags := flags, in_queue := []\<rparr>)"

definition fs_trigger_state :: "u32 \<Rightarrow> inode \<Rightarrow> inode" where
  "fs_trigger_state flags ip = fs_set_state (in_poll_flags ip OR flags) ip"

definition fs_detrigger_state :: "u32 \<Rightarrow> inode \<Rightarrow> inode" where
  "fs_detrigger_state flags ip = fs_set_state (in_poll_flags ip AND NOT flags) ip"

definition fs_set_state_bit :: "u32 \<Rightarrow> bool \<Rightarrow> inode \<Rightarrow> inode" where
  "fs_set_state_bit bit' val ip = (if val then fs_trigger_state bit' ip else fs_detrigger_state bit' ip)"

text \<open>
  Waiting until a condition holds: a pending signal ends it with \<open>-EINTR\<close> and the lock released; if the
  condition does not hold, the task sleeps. \<open>fs_poll_wait\<close> looks at the flags once before that.
\<close>

datatype wait_result = Ready | Interrupted | Asleep

definition wait_for :: "bool \<Rightarrow> bool \<Rightarrow> wait_result" where
  "wait_for sig cond = (if sig then Interrupted else if cond then Ready else Asleep)"

definition fs_do_poll :: "u32 \<Rightarrow> inode \<Rightarrow> bool" where
  "fs_do_poll events ip \<longleftrightarrow> in_poll_flags ip AND events \<noteq> 0"

definition fs_poll_wait :: "u32 \<Rightarrow> bool \<Rightarrow> inode \<Rightarrow> wait_result" where
  "fs_poll_wait events sig ip = (if fs_do_poll events ip then Ready else wait_for sig (fs_do_poll events ip))"

subsection \<open>Inodes and files\<close>

definition bump_inode_reference :: "inode \<Rightarrow> inode option" where
  "bump_inode_reference ip = do {
     assert_that (in_ref_count ip > 0);
     Some (ip\<lparr>in_ref_count := in_ref_count ip + 1\<rparr>)
   }"

text \<open>An inode whose count is 0 is freed.\<close>

definition drop_inode_reference :: "inode \<Rightarrow> inode option" where
  "drop_inode_reference ip = do {
     assert_that (in_ref_count ip > 0);
     Some (ip\<lparr>in_ref_count := in_ref_count ip - 1\<rparr>)
   }"

definition fs_create_file :: "u32 \<Rightarrow> u32 \<Rightarrow> inode \<Rightarrow> (fs_file \<times> inode) option" where
  "fs_create_file abilities flags ip = do {
     ip \<leftarrow> bump_inode_reference ip;
     let ip = ip\<lparr>in_open_file_count := in_open_file_count ip + 1\<rparr>;
     let abilities = abilities AND FS_FILE_CANT_SEEK;
     let abilities =
       (if flags AND O_RDWR \<noteq> 0 then abilities OR (FS_FILE_CAN_WRITE OR FS_FILE_CAN_READ)
        else if flags AND O_RDONLY \<noteq> 0 then abilities OR FS_FILE_CAN_READ
        else if flags AND O_WRONLY \<noteq> 0 then abilities OR FS_FILE_CAN_WRITE
        else abilities);
     Some (\<lparr>f_open_flags = flags, f_abilities = abilities, f_ref_count = 1\<rparr>, ip)
   }"

subsection \<open>Closing\<close>

definition is_pipe_read_end_open :: "pipe_data \<Rightarrow> bool" where
  "is_pipe_read_end_open data \<longleftrightarrow> pd_read_count data > 0"

definition is_pipe_write_end_open :: "pipe_data \<Rightarrow> bool" where
  "is_pipe_write_end_open data \<longleftrightarrow> pd_write_count data > 0"

definition free_pipe_data :: "inode \<Rightarrow> inode" where
  "free_pipe_data ip = ip\<lparr>in_pipe_data := None\<rparr>"

definition can_write :: "fs_file \<Rightarrow> bool" where
  "can_write file \<longleftrightarrow> f_abilities file AND FS_FILE_CAN_WRITE \<noteq> 0"

definition can_read :: "fs_file \<Rightarrow> bool" where
  "can_read file \<longleftrightarrow> f_abilities file AND FS_FILE_CAN_READ \<noteq> 0"

definition close_writer :: "inode \<Rightarrow> inode option" where
  "close_writer ip = do {
     data \<leftarrow> in_pipe_data ip;
     let ip = ip\<lparr>in_pipe_data := Some (data\<lparr>pd_write_count := pd_write_count data - 1\<rparr>)\<rparr>;
     Some (if pd_write_count data = 1 then fs_trigger_state POLLIN ip else ip)
   }"

definition close_reader :: "inode \<Rightarrow> inode option" where
  "close_reader ip = do {
     data \<leftarrow> in_pipe_data ip;
     let ip = ip\<lparr>in_pipe_data := Some (data\<lparr>pd_read_count := pd_read_count data - 1\<rparr>)\<rparr>;
     Some (if pd_read_count data = 1 then fs_trigger_state POLLOUT ip else ip)
   }"

definition pipe_close :: "fs_file \<Rightarrow> inode \<Rightarrow> (int \<times> inode) option" where
  "pipe_close file ip = do {
     ip \<leftarrow> (if can_write file then close_writer ip else Some ip);
     ip \<leftarrow> (if can_read file then close_reader ip else Some ip);
     Some (0, ip)
   }"

definition pipe_all_files_closed :: "inode \<Rightarrow> inode option" where
  "pipe_all_files_closed ip = do {
     let ip = fs_set_state 0 (free_pipe_data ip);
     if in_fsid ip = PIPE_DEVICE then drop_inode_reference ip else Some ip
   }"

text \<open>Closing a file of a pipe; the inode must not be freed before its last use.\<close>

definition fs_close :: "fs_file \<Rightarrow> inode \<Rightarrow> (int \<times> fs_file \<times> inode) option" where
  "fs_close file ip = do {
     assert_that (f_ref_count file > 0);
     let last_ref = (f_ref_count file = 1);
     let file = file\<lparr>f_ref_count := f_ref_count file - 1\<rparr>;
     if last_ref then do {
       let all_files_closed = (in_open_file_count ip = 1);
       let ip = ip\<lparr>in_open_file_count := in_open_file_count ip - 1\<rparr>;
       ip \<leftarrow> drop_inode_reference ip;
       assert_that (in_ref_count ip > 0);
       (error, ip) \<leftarrow> pipe_close file ip;
       ip \<leftarrow> (if all_files_closed then pipe_all_files_closed ip else Some ip);
       Some (error, file, ip)
     }
     else Some (0, file, ip)
   }"

subsection \<open>Opening\<close>

definition pipe_new_inode :: "u64 \<Rightarrow> nat \<Rightarrow> u64 \<times> inode" where
  "pipe_new_inode pipe_index now =
     (pipe_index + 1,
      \<lparr>in_fsid = PIPE_DEVICE, in_index = pipe_index, in_poll_flags = POLLOUT, in_queue = [], in_pipe_data = None,
       in_open_file_count = 0, in_ref_count = 1, in_modify_time = now\<rparr>)"

definition new_pipe_data :: "byte list \<Rightarrow> pipe_data" where
  "new_pipe_data junk =
     \<lparr>pd_buffer = init_ring_buffer junk PIPE_DEFAULT_BUFFER_SIZE, pd_readers_queue = [], pd_writers_queue = [],
      pd_read_count = 0, pd_write_count = 0\<rparr>"

definition open_writer :: "byte list \<Rightarrow> inode \<Rightarrow> inode option" where
  "open_writer junk ip = do {
     data \<leftarrow> in_pipe_data ip;
     let data = (if ring_buffer_dead (pd_buffer data)
       then data\<lparr>pd_buffer := init_ring_buffer junk PIPE_DEFAULT_BUFFER_SIZE\<rparr> else data);
     let first = (pd_write_count data = 0);
     let data = data\<lparr>pd_write_count := pd_write_count data + 1\<rparr>;
     if first then
       Some ((fs_set_state_bit POLLIN (\<not> ring_buffer_empty (pd_buffer data)) ip)
         \<lparr>in_pipe_data := Some (data\<lparr>pd_writers_queue := []\<rparr>)\<rparr>)
     else Some (ip\<lparr>in_pipe_data := Some data\<rparr>)
   }"

definition open_reader :: "inode \<Rightarrow> inode option" where
  "open_reader ip = do {
     data \<leftarrow> in_pipe_data ip;
     let first = (pd_read_count data = 0);
     let data = data\<lparr>pd_read_count := pd_read_count data + 1\<rparr>;
     if first then
       Some ((fs_set_state_bit POLLOUT (\<not> ring_buffer_full (pd_buffer data)) ip)
         \<lparr>in_pipe_data := Some (data\<lparr>pd_readers_queue := []\<rparr>)\<rparr>)
     else Some (ip\<lparr>in_pipe_data := Some data\<rparr>)
   }"

datatype open_result = Opened fs_file | Open_failed int | Waits_for_reader fs_file | Waits_for_writer fs_file

definition open_failed :: "int \<Rightarrow> fs_file \<Rightarrow> inode \<Rightarrow> (open_result \<times> inode) option" where
  "open_failed error file ip = do { (_, _, ip) \<leftarrow> fs_close file ip; Some (Open_failed error, ip) }"

text \<open>The second wait of \<open>pipe_open\<close> and what follows, from its start and when the task is resumed in it.\<close>

definition wait_for_writer :: "fs_file \<Rightarrow> nat \<Rightarrow> bool \<Rightarrow> inode \<Rightarrow> (open_result \<times> inode) option" where
  "wait_for_writer file tid sig ip = do {
     data \<leftarrow> in_pipe_data ip;
     case wait_for sig (pd_write_count data > 0) of
       Interrupted \<Rightarrow> open_failed (- EINTR) file ip
     | Asleep \<Rightarrow> Some (Waits_for_writer file,
         ip\<lparr>in_pipe_data := Some (data\<lparr>pd_writers_queue := pd_writers_queue data @ [tid]\<rparr>)\<rparr>)
     | Ready \<Rightarrow> Some (Opened file, ip)
   }"

definition open_for_reading :: "fs_file \<Rightarrow> nat \<Rightarrow> bool \<Rightarrow> inode \<Rightarrow> (open_result \<times> inode) option" where
  "open_for_reading file tid sig ip = do {
     data \<leftarrow> in_pipe_data ip;
     if can_read file \<and> pd_write_count data = 0 \<and> f_open_flags file AND O_NONBLOCK = 0
     then wait_for_writer file tid sig ip
     else Some (Opened file, ip)
   }"

definition wait_for_reader :: "fs_file \<Rightarrow> nat \<Rightarrow> bool \<Rightarrow> inode \<Rightarrow> (open_result \<times> inode) option" where
  "wait_for_reader file tid sig ip = do {
     data \<leftarrow> in_pipe_data ip;
     case wait_for sig (pd_read_count data > 0) of
       Interrupted \<Rightarrow> open_failed (- EINTR) file ip
     | Asleep \<Rightarrow> Some (Waits_for_reader file,
         ip\<lparr>in_pipe_data := Some (data\<lparr>pd_readers_queue := pd_readers_queue data @ [tid]\<rparr>)\<rparr>)
     | Ready \<Rightarrow> open_for_reading file tid sig ip
   }"

text \<open>
  \<open>inode->pipe_data\<close> is read before the lock is taken: \<open>seen\<close> says whether it was set then.
\<close>

definition pipe_open :: "byte list \<Rightarrow> bool \<Rightarrow> u32 \<Rightarrow> nat \<Rightarrow> bool \<Rightarrow> inode \<Rightarrow> (open_result \<times> inode) option" where
  "pipe_open junk seen flags tid sig ip = do {
     (file, ip) \<leftarrow> fs_create_file FS_FILE_CANT_SEEK flags ip;
     let ip = (if seen then ip else ip\<lparr>in_pipe_data := Some (new_pipe_data junk)\<rparr>);
     ip \<leftarrow> (if can_write file then open_writer junk ip else Some ip);
     ip \<leftarrow> (if can_read file then open_reader ip else Some ip);
     data \<leftarrow> in_pipe_data ip;
     if can_write file \<and> pd_read_count data = 0
     then if flags AND O_NONBLOCK \<noteq> 0 then open_failed (- ENXIO) file ip
          else wait_for_reader file tid sig ip
     else open_for_reading file tid sig ip
   }"

text \<open>The two files of an anonymous pipe.\<close>

definition fs_create_pipe :: "byte list \<Rightarrow> nat \<Rightarrow> bool \<Rightarrow> nat \<Rightarrow> u64 \<Rightarrow> ((int + fs_file \<times> fs_file) \<times> inode \<times> u64) option" where
  "fs_create_pipe junk tid sig now pipe_index = do {
     let (pipe_index, ip) = pipe_new_inode pipe_index now;
     (r, ip) \<leftarrow> pipe_open junk False (O_RDONLY OR O_NONBLOCK) tid sig ip;
     case r of
       Open_failed error \<Rightarrow> Some (Inl error, ip, pipe_index)
     | Opened rd \<Rightarrow> do {
         let rd = rd\<lparr>f_open_flags := f_open_flags rd AND NOT O_NONBLOCK\<rparr>;
         (r, ip) \<leftarrow> pipe_open junk True O_WRONLY tid sig ip;
         case r of
           Open_failed error \<Rightarrow> do { (_, _, ip) \<leftarrow> fs_close rd ip; Some (Inl error, ip, pipe_index) }
         | Opened wr \<Rightarrow> Some (Inr (rd, wr), ip, pipe_index)
         | _ \<Rightarrow> None
       }
     | _ \<Rightarrow> None
   }"

subsection \<open>Reading and writing\<close>

text \<open>\<open>Sleeping i\<close>: the call sleeps in \<open>inode_poll_wait\<close>; \<open>i\<close> is the \<open>buffer_index\<close> of a write.\<close>

datatype io_result = Returned int | Sleeping u64

definition fall_asleep :: "nat \<Rightarrow> inode \<Rightarrow> inode" where
  "fall_asleep tid ip = ip\<lparr>in_queue := in_queue ip @ [tid]\<rparr>"

text \<open>The label \<open>again\<close> of \<open>pipe_read\<close>.\<close>

partial_function (option) pipe_read_again ::
  "fs_file \<Rightarrow> u64 \<Rightarrow> nat \<Rightarrow> bool \<Rightarrow> inode \<Rightarrow> (io_result \<times> byte list \<times> inode) option" where
  "pipe_read_again file len' tid sig ip = do {
     data \<leftarrow> in_pipe_data ip;
     let len = min len' (ring_buffer_size (pd_buffer data));
     if len = 0 \<and> is_pipe_write_end_open data then
       if f_open_flags file AND O_NONBLOCK \<noteq> 0 then Some (Returned (- EAGAIN), [], ip)
       else case fs_poll_wait POLLIN sig ip of
         Interrupted \<Rightarrow> Some (Returned (- EINTR), [], ip)
       | Asleep \<Rightarrow> Some (Sleeping 0, [], fall_asleep tid ip)
       | Ready \<Rightarrow> pipe_read_again file len' tid sig ip
     else if len \<noteq> 0 then do {
       (bs, rb) \<leftarrow> ring_buffer_user_read (pd_buffer data) len;
       let ip = ip\<lparr>in_pipe_data := Some (data\<lparr>pd_buffer := rb\<rparr>)\<rparr>;
       let ip = fs_trigger_state POLLOUT ip;
       let ip = fs_set_state_bit POLLIN (\<not> ring_buffer_empty rb) ip;
       Some (Returned (sint len), bs, ip)
     }
     else Some (Returned 0, [], ip)
   }"

definition pipe_read :: "fs_file \<Rightarrow> int \<Rightarrow> u64 \<Rightarrow> nat \<Rightarrow> bool \<Rightarrow> inode \<Rightarrow> (io_result \<times> byte list \<times> inode) option" where
  "pipe_read file offset len tid sig ip = do {
     assert_that (offset = 0);
     pipe_read_again file len tid sig ip
   }"

definition pipe_read_resumed :: "fs_file \<Rightarrow> u64 \<Rightarrow> nat \<Rightarrow> bool \<Rightarrow> inode \<Rightarrow> (io_result \<times> byte list \<times> inode) option" where
  "pipe_read_resumed file len tid sig ip =
     (case wait_for sig (fs_do_poll POLLIN ip) of
        Interrupted \<Rightarrow> Some (Returned (- EINTR), [], ip)
      | Asleep \<Rightarrow> Some (Sleeping 0, [], fall_asleep tid ip)
      | Ready \<Rightarrow> pipe_read_again file len tid sig ip)"

text \<open>The loop of \<open>pipe_write\<close>; \<open>now\<close> is the real time clock.\<close>

partial_function (option) pipe_write_loop ::
  "fs_file \<Rightarrow> byte list \<Rightarrow> u64 \<Rightarrow> u64 \<Rightarrow> nat \<Rightarrow> bool \<Rightarrow> nat \<Rightarrow> inode \<Rightarrow> (io_result \<times> inode) option" where
  "pipe_write_loop file buffer len buffer_index tid sig now ip =
     (if buffer_index < len then do {
        data \<leftarrow> in_pipe_data ip;
        let space_available = ring_buffer_space (pd_buffer data);
        if space_available = 0 then
          if f_open_flags file AND O_NONBLOCK \<noteq> 0
          then Some (Returned (if buffer_index = 0 then - EAGAIN else sint buffer_index), ip)
          else case fs_poll_wait POLLOUT sig ip of
            Interrupted \<Rightarrow> Some (Returned (- EINTR), ip)
          | Asleep \<Rightarrow> Some (Sleeping buffer_index, fall_asleep tid ip)
          | Ready \<Rightarrow> pipe_write_loop file buffer len buffer_index tid sig now ip
        else do {
          let amount_to_write = min space_available (len - buffer_index);
          rb \<leftarrow> ring_buffer_user_write (pd_buffer data) (drop (unat buffer_index) buffer) amount_to_write;
          let ip = ip\<lparr>in_pipe_data := Some (data\<lparr>pd_buffer := rb\<rparr>)\<rparr>;
          let ip = fs_trigger_state POLLIN ip;
          let ip = fs_set_state_bit POLLOUT (\<not> ring_buffer_full rb) ip;
          pipe_write_loop file buffer len (buffer_index + amount_to_write) tid sig now (ip\<lparr>in_modify_time := now\<rparr>)
        }
      }
      else Some (Returned (sint buffer_index), ip))"

text \<open>The second component of the result says that the task was sent \<open>SIGPIPE\<close>.\<close>

definition pipe_write ::
  "fs_file \<Rightarrow> int \<Rightarrow> byte list \<Rightarrow> u64 \<Rightarrow> nat \<Rightarrow> bool \<Rightarrow> nat \<Rightarrow> inode \<Rightarrow> (io_result \<times> bool \<times> inode) option" where
  "pipe_write file offset buffer len tid sig now ip = do {
     assert_that (offset = 0);
     data \<leftarrow> in_pipe_data ip;
     if \<not> is_pipe_read_end_open data then Some (Returned (- EPIPE), True, ip)
     else do {
       (r, ip) \<leftarrow> pipe_write_loop file buffer len 0 tid sig now ip;
       Some (r, False, ip)
     }
   }"

definition pipe_write_resumed ::
  "fs_file \<Rightarrow> byte list \<Rightarrow> u64 \<Rightarrow> u64 \<Rightarrow> nat \<Rightarrow> bool \<Rightarrow> nat \<Rightarrow> inode \<Rightarrow> (io_result \<times> inode) option" where
  "pipe_write_resumed file buffer len buffer_index tid sig now ip =
     (case wait_for sig (fs_do_poll POLLOUT ip) of
        Interrupted \<Rightarrow> Some (Returned (- EINTR), ip)
      | Asleep \<Rightarrow> Some (Sleeping buffer_index, fall_asleep tid ip)
      | Ready \<Rightarrow> pipe_write_loop file buffer len buffer_index tid sig now ip)"

section \<open>Poll flags\<close>

lemma word_bit_test: "n < LENGTH('w) \<Longrightarrow> (w AND 2 ^ n \<noteq> 0) = bit (w :: 'w::len word) n"
  using bit_eq_iff [of "w AND 2 ^ n" 0] by (auto simp: bit_simps)

lemma poll_bits:
  "fs_do_poll POLLIN ip = bit (in_poll_flags ip) 0" "fs_do_poll POLLOUT ip = bit (in_poll_flags ip) 4"
  using word_bit_test [of 0 "in_poll_flags ip"] word_bit_test [of 4 "in_poll_flags ip"] by (simp_all add: fs_do_poll_def)

lemma flag_bits: "bit (1 :: u32) n \<longleftrightarrow> n = 0" "bit (16 :: u32) n \<longleftrightarrow> n = 4"
proof -
  show "bit (1 :: u32) n \<longleftrightarrow> n = 0" by (simp add: bit_1_iff)
  have "(16 :: u32) = 2 ^ 4" by simp
  then show "bit (16 :: u32) n \<longleftrightarrow> n = 4" by (simp only: bit_exp_iff) auto
qed

lemma set_state_flags [simp]: "in_poll_flags (fs_set_state flags ip) = flags"
  by (simp add: fs_set_state_def)

lemma set_state_rest [simp]:
  "in_pipe_data (fs_set_state flags ip) = in_pipe_data ip"
  "in_open_file_count (fs_set_state flags ip) = in_open_file_count ip"
  "in_ref_count (fs_set_state flags ip) = in_ref_count ip" "in_fsid (fs_set_state flags ip) = in_fsid ip"
  by (simp_all add: fs_set_state_def)

lemmas set_state_defs = fs_trigger_state_def fs_detrigger_state_def fs_set_state_bit_def

lemma bit_state_rest [simp]:
  "in_pipe_data (fs_trigger_state flags ip) = in_pipe_data ip"
  "in_open_file_count (fs_trigger_state flags ip) = in_open_file_count ip"
  "in_ref_count (fs_trigger_state flags ip) = in_ref_count ip" "in_fsid (fs_trigger_state flags ip) = in_fsid ip"
  "in_pipe_data (fs_set_state_bit flags b ip) = in_pipe_data ip"
  "in_open_file_count (fs_set_state_bit flags b ip) = in_open_file_count ip"
  "in_ref_count (fs_set_state_bit flags b ip) = in_ref_count ip" "in_fsid (fs_set_state_bit flags b ip) = in_fsid ip"
  by (simp_all add: set_state_defs)

lemma poll_after [simp]:
  "fs_do_poll POLLIN (fs_trigger_state POLLIN ip)" "fs_do_poll POLLOUT (fs_trigger_state POLLOUT ip)"
  "fs_do_poll POLLOUT (fs_trigger_state POLLIN ip) = fs_do_poll POLLOUT ip"
  "fs_do_poll POLLIN (fs_trigger_state POLLOUT ip) = fs_do_poll POLLIN ip"
  "fs_do_poll POLLIN (fs_set_state_bit POLLIN b ip) = b" "fs_do_poll POLLOUT (fs_set_state_bit POLLOUT b ip) = b"
  "fs_do_poll POLLOUT (fs_set_state_bit POLLIN b ip) = fs_do_poll POLLOUT ip"
  "fs_do_poll POLLIN (fs_set_state_bit POLLOUT b ip) = fs_do_poll POLLIN ip"
  unfolding poll_bits by (simp_all add: set_state_defs bit_or_iff bit_and_iff bit_not_iff flag_bits)

lemma poll_update [simp]:
  "fs_do_poll e (ip\<lparr>in_pipe_data := d\<rparr>) = fs_do_poll e ip" "fs_do_poll e (ip\<lparr>in_open_file_count := n\<rparr>) = fs_do_poll e ip"
  "fs_do_poll e (ip\<lparr>in_ref_count := n\<rparr>) = fs_do_poll e ip" "fs_do_poll e (ip\<lparr>in_modify_time := t\<rparr>) = fs_do_poll e ip"
  "fs_do_poll e (fall_asleep tid ip) = fs_do_poll e ip"
  by (simp_all add: fs_do_poll_def fall_asleep_def)

text \<open>Setting a flag that was clear wakes every sleeping task up.\<close>

lemma trigger_wakes: "\<not> fs_do_poll POLLIN ip \<Longrightarrow> in_queue (fs_trigger_state POLLIN ip) = []"
  using flag_bits(1) [of 0] by (auto simp: poll_bits fs_trigger_state_def fs_set_state_def dest!: arg_cong [where f = "\<lambda>w. bit w 0"] simp: bit_or_iff)

lemma queue_stays: "in_queue ip = [] \<Longrightarrow> in_queue (fs_set_state_bit e b ip) = []"
  by (simp add: set_state_defs fs_set_state_def)

lemma trigger_stays: "in_queue ip = [] \<Longrightarrow> in_queue (fs_trigger_state e ip) = []"
  by (simp add: set_state_defs fs_set_state_def)

section \<open>The invariant\<close>

text \<open>
  The buffer is a queue of at most 4096 bytes; the counts are those of the open files that can read and
  write; \<open>POLLIN\<close> is set when there are bytes, and while there are writers only then; \<open>POLLOUT\<close> says, while
  there are readers, whether there is room.
\<close>

definition readers :: "fs_file list \<Rightarrow> int" where
  "readers fs = int (length (filter can_read fs))"

definition writers :: "fs_file list \<Rightarrow> int" where
  "writers fs = int (length (filter can_write fs))"

definition data_inv :: "inode \<Rightarrow> pipe_data \<Rightarrow> int \<Rightarrow> int \<Rightarrow> bool" where
  "data_inv ip d r w \<longleftrightarrow>
     rb_wf (pd_buffer d) \<and> rb_capacity (pd_buffer d) = 4096 \<and> pd_read_count d = r \<and> pd_write_count d = w \<and>
     (rb_contents (pd_buffer d) \<noteq> [] \<longrightarrow> fs_do_poll POLLIN ip) \<and>
     (fs_do_poll POLLIN ip \<and> w > 0 \<longrightarrow> rb_contents (pd_buffer d) \<noteq> []) \<and>
     (r > 0 \<longrightarrow> (fs_do_poll POLLOUT ip \<longleftrightarrow> length (rb_contents (pd_buffer d)) < 4096))"

definition pipe_inv :: "inode \<Rightarrow> fs_file list \<Rightarrow> bool" where
  "pipe_inv ip fs \<longleftrightarrow> in_open_file_count ip = int (length fs) \<and> (\<forall>f \<in> set fs. f_ref_count f = 1) \<and>
     (fs \<noteq> [] \<longrightarrow> in_ref_count ip > int (length fs)) \<and>
     (case in_pipe_data ip of None \<Rightarrow> fs = [] | Some d \<Rightarrow> fs \<noteq> [] \<and> data_inv ip d (readers fs) (writers fs))"

lemma pipe_invD:
  assumes "pipe_inv ip fs" "f \<in> set fs"
  obtains d where "in_pipe_data ip = Some d" "data_inv ip d (readers fs) (writers fs)"
  using assms by (auto simp: pipe_inv_def split: option.splits)

lemma fs_set_counts:
  "readers (f # fs) = readers fs + (if can_read f then 1 else 0)" "writers (f # fs) = writers fs + (if can_write f then 1 else 0)"
  "readers [] = 0" "writers [] = 0"
  by (simp_all add: readers_def writers_def)

lemma abilities_flags [simp]:
  "can_read (f\<lparr>f_open_flags := flags\<rparr>) = can_read f" "can_write (f\<lparr>f_open_flags := flags\<rparr>) = can_write f"
  by (simp_all add: can_read_def can_write_def)

lemma counts_remove1:
  assumes "f \<in> set fs"
  shows "readers fs = readers (remove1 f fs) + (if can_read f then 1 else 0)"
    "writers fs = writers (remove1 f fs) + (if can_write f then 1 else 0)"
proof -
  have "mset fs = mset (f # remove1 f fs)" using assms by simp
  then have "mset (filter P fs) = mset (filter P (f # remove1 f fs))" for P by (simp only: mset_filter)
  then have "length (filter P fs) = length (filter P (f # remove1 f fs))" for P by (rule mset_eq_length)
  then show "readers fs = readers (remove1 f fs) + (if can_read f then 1 else 0)"
    "writers fs = writers (remove1 f fs) + (if can_write f then 1 else 0)"
    by (simp_all add: readers_def writers_def)
qed

lemma counts_pos: "f \<in> set fs \<Longrightarrow> can_read f \<Longrightarrow> 0 < readers fs" "f \<in> set fs \<Longrightarrow> can_write f \<Longrightarrow> 0 < writers fs"
  by (auto simp: readers_def writers_def filter_empty_conv)

lemma counts_ge: "0 \<le> readers fs" "0 \<le> writers fs"
  by (simp_all add: readers_def writers_def)

subsection \<open>Closing and opening\<close>

lemma data_inv_cong:
  "data_inv ip d r w \<Longrightarrow> fs_do_poll POLLIN ip' = fs_do_poll POLLIN ip \<Longrightarrow> fs_do_poll POLLOUT ip' = fs_do_poll POLLOUT ip \<Longrightarrow>
   pd_buffer d' = pd_buffer d \<Longrightarrow> pd_read_count d' = r \<Longrightarrow> pd_write_count d' = w \<Longrightarrow> data_inv ip' d' r w"
  by (simp add: data_inv_def)

lemma close_writer_inv:
  assumes "in_pipe_data ip = Some d" "data_inv ip d r w" "0 < w"
  shows "\<exists>ip' d'. close_writer ip = Some ip' \<and> in_pipe_data ip' = Some d' \<and> data_inv ip' d' r (w - 1) \<and>
    in_open_file_count ip' = in_open_file_count ip \<and> in_ref_count ip' = in_ref_count ip \<and> in_fsid ip' = in_fsid ip"
  using assms by (auto simp: close_writer_def data_inv_def Let_def)

lemma close_reader_inv:
  assumes "in_pipe_data ip = Some d" "data_inv ip d r w" "0 < r"
  shows "\<exists>ip' d'. close_reader ip = Some ip' \<and> in_pipe_data ip' = Some d' \<and> data_inv ip' d' (r - 1) w \<and>
    in_open_file_count ip' = in_open_file_count ip \<and> in_ref_count ip' = in_ref_count ip \<and> in_fsid ip' = in_fsid ip"
  using assms by (auto simp: close_reader_def data_inv_def Let_def)

lemma pipe_close_inv:
  assumes "in_pipe_data ip = Some d" "data_inv ip d r w" "can_read file \<Longrightarrow> 0 < r" "can_write file \<Longrightarrow> 0 < w"
  shows "\<exists>ip' d'. pipe_close file ip = Some (0, ip') \<and> in_pipe_data ip' = Some d' \<and>
    data_inv ip' d' (r - (if can_read file then 1 else 0)) (w - (if can_write file then 1 else 0)) \<and>
    in_open_file_count ip' = in_open_file_count ip \<and> in_ref_count ip' = in_ref_count ip \<and> in_fsid ip' = in_fsid ip"
proof -
  obtain ip1 d1 where 1: "(if can_write file then close_writer ip else Some ip) = Some ip1" "in_pipe_data ip1 = Some d1"
    "data_inv ip1 d1 r (w - (if can_write file then 1 else 0))" "in_open_file_count ip1 = in_open_file_count ip"
    "in_ref_count ip1 = in_ref_count ip" "in_fsid ip1 = in_fsid ip"
    using close_writer_inv [OF assms(1,2)] assms by (cases "can_write file") auto
  obtain ip2 d2 where 2: "(if can_read file then close_reader ip1 else Some ip1) = Some ip2" "in_pipe_data ip2 = Some d2"
    "data_inv ip2 d2 (r - (if can_read file then 1 else 0)) (w - (if can_write file then 1 else 0))"
    "in_open_file_count ip2 = in_open_file_count ip1" "in_ref_count ip2 = in_ref_count ip1" "in_fsid ip2 = in_fsid ip1"
    using close_reader_inv [OF 1(2,3)] 1 assms(3) by (cases "can_read file") auto
  show ?thesis using 1 2 by (simp add: pipe_close_def)
qed

lemma fs_close_inv:
  assumes inv: "pipe_inv ip fs" and f: "f \<in> set fs"
  shows "\<exists>f' ip'. fs_close f ip = Some (0, f', ip') \<and> pipe_inv ip' (remove1 f fs)"
proof -
  obtain d where d: "in_pipe_data ip = Some d" "data_inv ip d (readers fs) (writers fs)"
    using pipe_invD [OF assms] .
  let ?ip = "ip\<lparr>in_open_file_count := in_open_file_count ip - 1, in_ref_count := in_ref_count ip - 1\<rparr>"
  let ?f = "f\<lparr>f_ref_count := 0\<rparr>"
  obtain k where k: "length fs = Suc k" using f by (cases fs) simp_all
  have n: "in_open_file_count ip = 1 + int k" "in_ref_count ip > 1 + int k" "f_ref_count f = 1" "length (remove1 f fs) = k"
    using inv f k by (auto simp: pipe_inv_def length_remove1)
  have abil: "can_read ?f = can_read f" "can_write ?f = can_write f" by (simp_all add: can_read_def can_write_def)
  have rem: "readers fs - (if can_read f then 1 else 0) = readers (remove1 f fs)"
    "writers fs - (if can_write f then 1 else 0) = writers (remove1 f fs)" using counts_remove1 [OF f] by simp_all
  have "data_inv ?ip d (readers fs) (writers fs)" by (rule data_inv_cong [OF d(2)]) (use d(2) in \<open>simp_all add: data_inv_def\<close>)
  from pipe_close_inv [OF _ this, of ?f, unfolded abil rem] obtain ip' d' where c: "pipe_close ?f ?ip = Some (0, ip')"
    "in_pipe_data ip' = Some d'" "data_inv ip' d' (readers (remove1 f fs)) (writers (remove1 f fs))"
    "in_open_file_count ip' = in_open_file_count ip - 1" "in_ref_count ip' = in_ref_count ip - 1"
    using d(1) counts_pos [OF f] by auto
  have "1 < in_ref_count ip" using n(2) by linarith
  with n c(1) have run: "fs_close f ip = do {
      ip \<leftarrow> (if in_open_file_count ip = 1 then pipe_all_files_closed ip' else Some ip'); Some (0, ?f, ip) }"
    unfolding fs_close_def by (simp add: drop_inode_reference_def Let_def)
  show ?thesis
  proof (cases "in_open_file_count ip = 1")
    case True
    then have "remove1 f fs = []" using n by simp
    then show ?thesis using True run c n
      by (auto simp: pipe_all_files_closed_def free_pipe_data_def Let_def drop_inode_reference_def pipe_inv_def)
  next
    case False
    then have "remove1 f fs \<noteq> []" using n by (cases "remove1 f fs") auto
    moreover have "\<forall>g \<in> set (remove1 f fs). f_ref_count g = 1"
      using inv set_remove1_subset [of f fs] by (auto simp: pipe_inv_def)
    ultimately show ?thesis using False run c n by (auto simp: pipe_inv_def)
  qed
qed

lemma open_writer_inv:
  assumes "in_pipe_data ip = Some d" "data_inv ip d r w" "0 \<le> w"
  shows "\<exists>ip' d'. open_writer junk ip = Some ip' \<and> in_pipe_data ip' = Some d' \<and> data_inv ip' d' r (w + 1) \<and>
    in_open_file_count ip' = in_open_file_count ip \<and> in_ref_count ip' = in_ref_count ip"
proof -
  have "\<not> ring_buffer_dead (pd_buffer d)" using assms(2) by (auto simp: data_inv_def ring_buffer_dead_def elim: rb_wfE)
  moreover have "ring_buffer_empty (pd_buffer d) \<longleftrightarrow> rb_contents (pd_buffer d) = []"
    using assms(2) by (simp add: data_inv_def ring_buffer_empty_iff)
  ultimately show ?thesis using assms by (auto simp: open_writer_def data_inv_def Let_def)
qed

lemma open_reader_inv:
  assumes "in_pipe_data ip = Some d" "data_inv ip d r w" "0 \<le> r"
  shows "\<exists>ip' d'. open_reader ip = Some ip' \<and> in_pipe_data ip' = Some d' \<and> data_inv ip' d' (r + 1) w \<and>
    in_open_file_count ip' = in_open_file_count ip \<and> in_ref_count ip' = in_ref_count ip"
proof -
  have "length (rb_contents (pd_buffer d)) \<le> 4096" "ring_buffer_full (pd_buffer d) \<longleftrightarrow> length (rb_contents (pd_buffer d)) = 4096"
    using assms(2) rbq.bounded [of "pd_buffer d"] ring_buffer_full_iff [of "pd_buffer d"] by (auto simp: data_inv_def)
  then show ?thesis using assms by (auto simp: open_reader_def data_inv_def Let_def)
qed

lemma new_data_inv: "fs_do_poll POLLIN ip = False \<or> w = 0 \<Longrightarrow> data_inv ip (new_pipe_data junk) 0 0"
  by (simp add: data_inv_def new_pipe_data_def init_ring_buffer_wf)

text \<open>The files that are open after a call of \<open>pipe_open\<close>, whether it returned or sleeps.\<close>

fun after_open :: "open_result \<Rightarrow> fs_file list \<Rightarrow> fs_file list" where
  "after_open (Opened f) fs = f # fs"
| "after_open (Open_failed _) fs = fs"
| "after_open (Waits_for_reader f) fs = f # fs"
| "after_open (Waits_for_writer f) fs = f # fs"

lemma open_failed_inv:
  assumes "pipe_inv ip fs" "f \<in> set fs"
  shows "\<exists>ip'. open_failed e f ip = Some (Open_failed e, ip') \<and> pipe_inv ip' (remove1 f fs)"
  using fs_close_inv [OF assms] by (auto simp: open_failed_def)

text \<open>What a wait of \<open>pipe_open\<close> leaves of the open files.\<close>

fun after_wait :: "fs_file \<Rightarrow> open_result \<Rightarrow> fs_file list \<Rightarrow> fs_file list" where
  "after_wait f (Open_failed _) fs = remove1 f fs"
| "after_wait f _ fs = fs"

lemma queue_inv:
  assumes "pipe_inv ip fs" "in_pipe_data ip = Some d" "pd_buffer d' = pd_buffer d" "pd_read_count d' = pd_read_count d"
    "pd_write_count d' = pd_write_count d"
  shows "pipe_inv (ip\<lparr>in_pipe_data := Some d'\<rparr>) fs"
  using assms by (auto simp: pipe_inv_def data_inv_def)

lemma wait_for_writer_inv:
  assumes "pipe_inv ip fs" "f \<in> set fs"
  shows "\<exists>r ip'. wait_for_writer f tid sig ip = Some (r, ip') \<and> pipe_inv ip' (after_wait f r fs) \<and>
    (r = Opened f \<or> r = Waits_for_writer f \<or> r = Open_failed (- EINTR))"
proof -
  obtain d where d: "in_pipe_data ip = Some d" using pipe_invD [OF assms] by blast
  show ?thesis using open_failed_inv [OF assms, of "- EINTR"] queue_inv [OF assms(1) d] assms(1) d
    by (cases "wait_for sig (pd_write_count d > 0)") (auto simp: wait_for_writer_def)
qed

lemma open_for_reading_inv:
  assumes "pipe_inv ip fs" "f \<in> set fs"
  shows "\<exists>r ip'. open_for_reading f tid sig ip = Some (r, ip') \<and> pipe_inv ip' (after_wait f r fs) \<and>
    (r = Opened f \<or> r = Waits_for_writer f \<or> r = Open_failed (- EINTR))"
proof -
  obtain d where d: "in_pipe_data ip = Some d" using pipe_invD [OF assms] by blast
  show ?thesis using wait_for_writer_inv [OF assms] assms(1) d by (auto simp: open_for_reading_def)
qed

lemma wait_for_reader_inv:
  assumes "pipe_inv ip fs" "f \<in> set fs"
  shows "\<exists>r ip'. wait_for_reader f tid sig ip = Some (r, ip') \<and> pipe_inv ip' (after_wait f r fs) \<and>
    (r = Opened f \<or> r = Waits_for_writer f \<or> r = Waits_for_reader f \<or> r = Open_failed (- EINTR))"
proof -
  obtain d where d: "in_pipe_data ip = Some d" using pipe_invD [OF assms] by blast
  show ?thesis using open_failed_inv [OF assms, of "- EINTR"] queue_inv [OF assms(1) d]
      open_for_reading_inv [OF assms, of tid sig] d
    by (cases "wait_for sig (pd_read_count d > 0)") (auto simp: wait_for_reader_def)
qed

lemma after_wait_open: "after_wait f r (f # fs) = after_open r fs" if "r = Opened f \<or> r = Waits_for_writer f \<or> r = Waits_for_reader f \<or> r = Open_failed e"
  using that by auto

lemma pipe_open_inv:
  assumes inv: "pipe_inv ip fs" and alive: "0 < in_ref_count ip"
  shows "\<exists>r ip'. pipe_open junk (in_pipe_data ip \<noteq> None) flags tid sig ip = Some (r, ip') \<and> pipe_inv ip' (after_open r fs)"
proof -
  obtain f ip1 where f: "fs_create_file FS_FILE_CANT_SEEK flags ip = Some (f, ip1)" "f_ref_count f = 1"
    "ip1 = ip\<lparr>in_ref_count := in_ref_count ip + 1, in_open_file_count := in_open_file_count ip + 1\<rparr>"
    using alive by (simp add: fs_create_file_def bump_inode_reference_def Let_def)
  define ip2 where "ip2 = (if in_pipe_data ip \<noteq> None then ip1 else ip1\<lparr>in_pipe_data := Some (new_pipe_data junk)\<rparr>)"
  have "\<exists>d. in_pipe_data ip2 = Some d \<and> data_inv ip2 d (readers fs) (writers fs)"
    using inv new_data_inv by (auto simp: ip2_def f(3) pipe_inv_def fs_set_counts data_inv_def new_pipe_data_def init_ring_buffer_wf split: option.splits)
  then obtain d where d: "in_pipe_data ip2 = Some d" "data_inv ip2 d (readers fs) (writers fs)" by blast
  obtain ip3 d3 where 3: "(if can_write f then open_writer junk ip2 else Some ip2) = Some ip3" "in_pipe_data ip3 = Some d3"
    "data_inv ip3 d3 (readers fs) (writers (f # fs))" "in_open_file_count ip3 = in_open_file_count ip2" "in_ref_count ip3 = in_ref_count ip2"
    using open_writer_inv [OF d counts_ge(2), of junk] d by (cases "can_write f") (auto simp: fs_set_counts)
  obtain ip4 d4 where 4: "(if can_read f then open_reader ip3 else Some ip3) = Some ip4" "in_pipe_data ip4 = Some d4"
    "data_inv ip4 d4 (readers (f # fs)) (writers (f # fs))" "in_open_file_count ip4 = in_open_file_count ip3"
    "in_ref_count ip4 = in_ref_count ip3"
    using open_reader_inv [OF 3(2,3) counts_ge(1)] 3 by (cases "can_read f") (auto simp: fs_set_counts)
  have "in_open_file_count ip2 = in_open_file_count ip + 1" "in_ref_count ip2 = in_ref_count ip + 1"
    by (simp_all add: ip2_def f(3))
  then have inv4: "pipe_inv ip4 (f # fs)" using inv 3 4 f(2) alive by (auto simp: pipe_inv_def split: option.splits)
  have run: "pipe_open junk (in_pipe_data ip \<noteq> None) flags tid sig ip =
    (if can_write f \<and> pd_read_count d4 = 0
     then if flags AND O_NONBLOCK \<noteq> 0 then open_failed (- ENXIO) f ip4 else wait_for_reader f tid sig ip4
     else open_for_reading f tid sig ip4)"
    unfolding pipe_open_def f(1) Option.bind.bind_lunit prod.case Let_def ip2_def [symmetric] 3(1) 4(1,2) by (rule refl)
  show ?thesis unfolding run
    using open_failed_inv [OF inv4, of f "- ENXIO"] wait_for_reader_inv [OF inv4, of f tid sig]
      open_for_reading_inv [OF inv4, of f tid sig]
    by auto
qed

subsection \<open>Reading and writing\<close>

lemma buffer_len: "data_inv ip d r w \<Longrightarrow> unat (ring_buffer_size (pd_buffer d)) = length (rb_contents (pd_buffer d)) \<and>
    length (rb_contents (pd_buffer d)) \<le> 4096"
  using rbq.bounded [of "pd_buffer d"] by (auto simp: data_inv_def)

lemma full_no_space:
  assumes "pipe_inv ip fs" "in_pipe_data ip = Some d" "length (rb_contents (pd_buffer d)) = 4096"
  shows "ring_buffer_space (pd_buffer d) = 0"
proof -
  have "data_inv ip d (readers fs) (writers fs)" using assms(1,2) by (auto simp: pipe_inv_def)
  then have wf: "rb_wf (pd_buffer d)" "rb_capacity (pd_buffer d) = 4096" by (simp_all add: data_inv_def)
  have "unat (ring_buffer_space (pd_buffer d)) = 0" using unat_ring_buffer_space [OF wf(1)] wf(2) assms(3) by linarith
  then show ?thesis by (simp only: unat_eq_zero)
qed

text \<open>A read that finds bytes takes the oldest of them.\<close>

lemma pipe_read_bytes:
  assumes inv: "pipe_inv ip fs" and d: "in_pipe_data ip = Some d" and len: "0 < unat len"
    and ne: "rb_contents (pd_buffer d) \<noteq> []"
  defines "bs \<equiv> take (unat len) (rb_contents (pd_buffer d))"
  shows "\<exists>ip' d'. pipe_read_again f len tid sig ip = Some (Returned (int (length bs)), bs, ip') \<and> pipe_inv ip' fs \<and>
    in_pipe_data ip' = Some d' \<and> rb_contents (pd_buffer d') = drop (unat len) (rb_contents (pd_buffer d))"
proof -
  let ?rb = "pd_buffer d"
  define k where "k = min len (ring_buffer_size ?rb)"
  have di: "data_inv ip d (readers fs) (writers fs)" using inv d by (auto simp: pipe_inv_def)
  note size = buffer_len [OF di]
  have k: "unat k = min (unat len) (length (rb_contents ?rb))" using size by (simp add: word_nat k_def)
  moreover have "0 < length (rb_contents ?rb)" using ne by (rule length_greater_0_conv [THEN iffD2])
  ultimately have k1: "0 < unat k" "unat k \<le> length (rb_contents ?rb)" "unat k = length bs"
    using len by (simp_all add: bs_def)
  then have k0: "k \<noteq> 0" by auto
  have "unat k \<le> 4096" using k1(2) size by linarith
  then have "unat k < 2 ^ 63" by simp
  then have ks: "sint k = int (length bs)" using k1(3) sint_u64_small by metis
  obtain rb' where rb: "ring_buffer_user_read ?rb k = Some (take (unat k) (rb_contents ?rb), rb')" "rb_wf rb'"
    "rb_contents rb' = drop (unat k) (rb_contents ?rb)" "rb_capacity rb' = rb_capacity ?rb"
    using ring_buffer_user_read_contents [of ?rb k] di k1(2) k0 by (auto simp: data_inv_def)
  have cut: "take (unat k) (rb_contents ?rb) = bs" "drop (unat k) (rb_contents ?rb) = drop (unat len) (rb_contents ?rb)"
    unfolding k bs_def by (simp_all add: min_def)
  let ?ip = "fs_set_state_bit POLLIN (\<not> ring_buffer_empty rb')
    (fs_trigger_state POLLOUT (ip\<lparr>in_pipe_data := Some (d\<lparr>pd_buffer := rb'\<rparr>)\<rparr>))"
  have "pipe_read_again f len tid sig ip = Some (Returned (int (length bs)), bs, ?ip)"
    by (subst pipe_read_again.simps)
      (simp only: d Option.bind.bind_lunit Let_def k_def [symmetric] rb(1) prod.case ks cut k0 simp_thms if_True if_False)
  moreover have "length (rb_contents rb') < 4096"
    unfolding rb(3) length_drop using size k1(1,2) by linarith
  then have "pipe_inv ?ip fs"
    using inv d rb ring_buffer_empty_iff [OF rb(2)] by (auto simp: pipe_inv_def data_inv_def)
  ultimately show ?thesis using rb(3) cut by (intro exI [of _ ?ip] exI [of _ "d\<lparr>pd_buffer := rb'\<rparr>"]) simp
qed

text \<open>A read that finds none reports the end of the pipe, or sleeps when there are writers.\<close>

lemma pipe_read_none:
  assumes inv: "pipe_inv ip fs" and d: "in_pipe_data ip = Some d" and empty: "rb_contents (pd_buffer d) = []"
  shows "pipe_read_again f len tid sig ip = Some
    (if writers fs = 0 then Returned 0 else if f_open_flags f AND O_NONBLOCK \<noteq> 0 then Returned (- EAGAIN)
     else if sig then Returned (- EINTR) else Sleeping 0, [],
     if writers fs = 0 \<or> f_open_flags f AND O_NONBLOCK \<noteq> 0 \<or> sig then ip else fall_asleep tid ip)"
proof -
  have di: "data_inv ip d (readers fs) (writers fs)" using inv d by (auto simp: pipe_inv_def)
  have "unat (ring_buffer_size (pd_buffer d)) = 0" using buffer_len [OF di] empty by simp
  then have "min len (ring_buffer_size (pd_buffer d)) = 0" by (simp add: unat_eq_zero min_def)
  moreover have "is_pipe_write_end_open d \<longleftrightarrow> writers fs \<noteq> 0"
    using di counts_ge(2) [of fs] by (auto simp: data_inv_def is_pipe_write_end_open_def)
  moreover have "writers fs \<noteq> 0 \<Longrightarrow> \<not> fs_do_poll POLLIN ip" using di empty counts_ge(2) [of fs] by (auto simp: data_inv_def)
  ultimately show ?thesis using d
    by (subst pipe_read_again.simps) (auto simp: Let_def fs_poll_wait_def wait_for_def)
qed

lemma asleep_inv [simp]: "pipe_inv (fall_asleep tid ip) fs = pipe_inv ip fs"
proof -
  have "in_open_file_count (fall_asleep tid ip) = in_open_file_count ip" "in_ref_count (fall_asleep tid ip) = in_ref_count ip"
    "in_pipe_data (fall_asleep tid ip) = in_pipe_data ip" by (simp_all add: fall_asleep_def)
  moreover have "data_inv (fall_asleep tid ip) d r w = data_inv ip d r w" for d r w by (simp add: data_inv_def)
  ultimately show ?thesis by (cases "in_pipe_data ip") (simp_all add: pipe_inv_def)
qed

text \<open>A write reads only as much of its buffer as it is to write.\<close>

lemma user_write_take:
  assumes "rb_wf rb" "unat k \<le> rb_capacity rb" "unat k \<le> length bs"
  shows "ring_buffer_user_write rb bs k = ring_buffer_user_write rb (take (unat k) bs) k"
proof -
  have pre: "mem_read (take (unat k) bs) off n = mem_read bs off n" if "off + n \<le> unat k" for off n
    using that assms(3) by (simp add: mem_read_def min_def drop_take)
  obtain buf where t: "unat (rb_tail rb) < unat (rb_max rb)" "unat (rb_max rb) \<le> 2 ^ 63" using assms(1) by (elim rb_wfE)
  have e: "unat (rb_max rb - rb_tail rb) = unat (rb_max rb) - unat (rb_tail rb)"
    "unat (rb_tail rb + k) = unat (rb_tail rb) + unat k"
    using t assms(2) by (simp_all add: word_nat rb_capacity_def)
  show ?thesis
  proof (cases "rb_tail rb + k > rb_max rb")
    case True
    then have le: "unat (rb_max rb - rb_tail rb) \<le> unat k" using e by (simp add: word_less_nat_alt)
    then have "unat (rb_max rb - rb_tail rb) + unat (k - (rb_max rb - rb_tail rb)) \<le> unat k" by (simp add: unat_sub_u64 del: unat_sub)
    note r = pre [OF this] pre [of 0 "unat (rb_max rb - rb_tail rb)", simplified, OF le]
    show ?thesis unfolding ring_buffer_user_write_def Let_def r using True by simp
  next
    case False
    then show ?thesis unfolding ring_buffer_user_write_def pre [of 0 "unat k", simplified] by simp
  qed
qed

lemma write_step:
  assumes inv: "pipe_inv ip fs" and d: "in_pipe_data ip = Some d" and i: "i < len" "length buffer = unat len"
    and space: "ring_buffer_space (pd_buffer d) \<noteq> 0"
  defines "k \<equiv> min (ring_buffer_space (pd_buffer d)) (len - i)"
  shows "\<exists>ip' d'. pipe_write_loop f buffer len i tid sig now ip = pipe_write_loop f buffer len (i + k) tid sig now ip' \<and>
    pipe_inv ip' fs \<and> in_pipe_data ip' = Some d' \<and> unat (i + k) = unat i + unat k \<and> 0 < unat k \<and> i + k \<le> len \<and>
    rb_contents (pd_buffer d') = rb_contents (pd_buffer d) @ take (unat k) (drop (unat i) buffer) \<and>
    (k = len - i \<or> length (rb_contents (pd_buffer d')) = 4096) \<and> (\<not> fs_do_poll POLLIN ip \<longrightarrow> in_queue ip' = [])"
proof -
  let ?rb = "pd_buffer d" and ?bs = "take (unat k) (drop (unat i) buffer)"
  have di: "data_inv ip d (readers fs) (writers fs)" using inv d by (auto simp: pipe_inv_def)
  have wf: "rb_wf ?rb" "rb_capacity ?rb = 4096" using di by (simp_all add: data_inv_def)
  have sp: "unat (ring_buffer_space ?rb) = 4096 - length (rb_contents ?rb)" using unat_ring_buffer_space [OF wf(1)] wf(2) by simp
  have len: "unat i < unat len" "unat (len - i) = unat len - unat i" using i(1) by (simp_all add: word_less_nat_alt unat_sub_u64)
  have k: "unat k = min (4096 - length (rb_contents ?rb)) (unat len - unat i)" unfolding k_def unat_min_u64 sp len(2) ..
  have "0 < unat (ring_buffer_space ?rb)" using space by (simp add: unat_gt_0)
  then have k1: "0 < unat k" "length (rb_contents ?rb) + unat k \<le> 4096" "unat i + unat k \<le> unat len"
    unfolding sp using len(1) k by linarith+
  have k0: "k \<noteq> 0" using k1(1) by auto
  have ik: "unat (i + k) = unat i + unat k" using k1(3) u64_bound [of len] by (intro unat_add_u64) simp
  have bs: "length ?bs = unat k" "unat k \<le> length (drop (unat i) buffer)" using k1(3) i(2) by simp_all
  have "length (rb_contents ?rb) + length ?bs \<le> rb_capacity ?rb" unfolding bs(1) wf(2) by (rule k1(2))
  from ring_buffer_user_write_contents [OF wf(1) bs(1) k0 this]
  obtain rb' where rb: "ring_buffer_user_write ?rb ?bs k = Some rb'" "rb_wf rb'" "rb_contents rb' = rb_contents ?rb @ ?bs"
    "rb_capacity rb' = 4096" using wf(2) by auto
  have "unat k \<le> rb_capacity ?rb" using k1(2) wf(2) by linarith
  then have w: "ring_buffer_user_write ?rb (drop (unat i) buffer) k = Some rb'"
    using user_write_take [OF wf(1) _ bs(2)] rb(1) by simp
  let ?ip = "(fs_set_state_bit POLLOUT (\<not> ring_buffer_full rb')
    (fs_trigger_state POLLIN (ip\<lparr>in_pipe_data := Some (d\<lparr>pd_buffer := rb'\<rparr>)\<rparr>)))\<lparr>in_modify_time := now\<rparr>"
  have "pipe_write_loop f buffer len i tid sig now ip = pipe_write_loop f buffer len (i + k) tid sig now ?ip"
    by (subst pipe_write_loop.simps)
      (simp only: d i(1) space Option.bind.bind_lunit Let_def k_def [symmetric] w simp_thms if_True if_False)
  moreover have "ring_buffer_full rb' \<longleftrightarrow> length (rb_contents rb') = 4096" "length (rb_contents rb') \<le> 4096"
    using ring_buffer_full_iff [OF rb(2)] rbq.bounded [OF rb(2)] rb(4) by simp_all
  then have "pipe_inv ?ip fs"
    using inv d rb ik k1(1) bs(1) by (auto simp: pipe_inv_def data_inv_def)
  moreover have "k = len - i \<or> length (rb_contents rb') = 4096"
  proof (cases "ring_buffer_space ?rb \<le> len - i")
    case True
    then have "unat k = 4096 - length (rb_contents ?rb)" unfolding k_def sp [symmetric] by (simp add: min_def)
    moreover have "length (rb_contents rb') = length (rb_contents ?rb) + unat k" unfolding rb(3) length_append bs(1) ..
    ultimately show ?thesis using k1(2) by linarith
  qed (simp add: k_def min_def)
  moreover have "\<not> fs_do_poll POLLIN ip \<longrightarrow> in_queue ?ip = []"
    using trigger_wakes [of "ip\<lparr>in_pipe_data := Some (d\<lparr>pd_buffer := rb'\<rparr>)\<rparr>"] by (simp add: queue_stays)
  ultimately show ?thesis using rb(3) ik k1 i by (intro exI [of _ ?ip] exI [of _ "d\<lparr>pd_buffer := rb'\<rparr>"]) (simp add: word_le_nat_alt)
qed

lemma write_stops:
  assumes inv: "pipe_inv ip fs" and d: "in_pipe_data ip = Some d" and r: "0 < readers fs"
    and stop: "i = len \<or> (i < len \<and> length (rb_contents (pd_buffer d)) = 4096)"
  shows "\<exists>r ip'. pipe_write_loop f buffer len i tid sig now ip = Some (r, ip') \<and> pipe_inv ip' fs"
proof (cases "i < len")
  case True
  have di: "data_inv ip d (readers fs) (writers fs)" using inv d by (auto simp: pipe_inv_def)
  then have "unat (ring_buffer_space (pd_buffer d)) = 0"
    using unat_ring_buffer_space [of "pd_buffer d"] stop True by (auto simp: data_inv_def)
  moreover have "\<not> fs_do_poll POLLOUT ip" using di r stop True by (auto simp: data_inv_def)
  ultimately show ?thesis using inv d True
    by (subst pipe_write_loop.simps) (auto simp: unat_eq_zero fs_poll_wait_def wait_for_def)
next
  case False
  then show ?thesis using inv by (subst pipe_write_loop.simps) simp
qed

lemma pipe_write_loop_total:
  assumes inv: "pipe_inv ip fs" and r: "0 < readers fs" and i: "i \<le> len" "length buffer = unat len"
  shows "\<exists>r ip'. pipe_write_loop f buffer len i tid sig now ip = Some (r, ip') \<and> pipe_inv ip' fs"
proof -
  have "fs \<noteq> []" using r by (auto simp: fs_set_counts)
  then obtain d where d: "in_pipe_data ip = Some d" "data_inv ip d (readers fs) (writers fs)"
    using inv by (auto simp: pipe_inv_def split: option.splits)
  show ?thesis
  proof (cases "i < len \<and> ring_buffer_space (pd_buffer d) \<noteq> 0")
    case True
    let ?k = "min (ring_buffer_space (pd_buffer d)) (len - i)"
    obtain ip' d' where s: "pipe_write_loop f buffer len i tid sig now ip = pipe_write_loop f buffer len (i + ?k) tid sig now ip'"
      "pipe_inv ip' fs" "in_pipe_data ip' = Some d'" "i + ?k \<le> len" "?k = len - i \<or> length (rb_contents (pd_buffer d')) = 4096"
      using write_step [OF inv d(1) conjunct1 [OF True] i(2) conjunct2 [OF True], of f tid sig now] by blast
    have "i + ?k = len \<or> i + ?k < len \<and> length (rb_contents (pd_buffer d')) = 4096"
    proof (cases "?k = len - i")
      case False
      then show ?thesis using s(4,5) order_le_less by metis
    qed simp
    then show ?thesis unfolding s(1) by (rule write_stops [OF s(2,3) r])
  next
    case False
    have wf: "rb_wf (pd_buffer d)" "rb_capacity (pd_buffer d) = 4096" using d(2) by (simp_all add: data_inv_def)
    have "length (rb_contents (pd_buffer d)) = 4096" if "ring_buffer_space (pd_buffer d) = 0"
      using unat_ring_buffer_space [OF wf(1), unfolded wf(2) that unat_0] conjunct2 [OF buffer_len [OF d(2)]] by linarith
    then have "i = len \<or> (i < len \<and> length (rb_contents (pd_buffer d)) = 4096)" using False i(1) by auto
    then show ?thesis by (rule write_stops [OF inv d(1) r])
  qed
qed

text \<open>A full pipe whose \<open>POLLOUT\<close> is set: the loop does not end.\<close>

lemma write_livelock:
  assumes "pipe_write_loop f buffer len i tid sig now ip = Some y"
  shows "\<not> (i < len \<and> in_pipe_data ip = Some d \<and> ring_buffer_space (pd_buffer d) = 0 \<and>
      f_open_flags f AND O_NONBLOCK = 0 \<and> fs_do_poll POLLOUT ip)"
proof (rule pipe_write_loop.raw_induct [OF _ assms, where P = "\<lambda>f buffer len i tid sig now ip y.
    \<not> (i < len \<and> in_pipe_data ip = Some d \<and> ring_buffer_space (pd_buffer d) = 0 \<and>
      f_open_flags f AND O_NONBLOCK = 0 \<and> fs_do_poll POLLOUT ip)"], goal_cases)
  case (1 loop f buffer len i tid sig now ip y)
  show ?case using 1(1) [of f buffer len i tid sig now ip y] 1(2) by (auto simp: Let_def fs_poll_wait_def)
qed

lemma write_stops_inv:
  assumes inv: "pipe_inv ip fs" and d: "in_pipe_data ip = Some d" and full: "ring_buffer_space (pd_buffer d) = 0"
    and run: "pipe_write_loop f buffer len i tid sig now ip = Some (r, ip')"
  shows "pipe_inv ip' fs"
proof (cases "i < len \<and> f_open_flags f AND O_NONBLOCK = 0 \<and> fs_do_poll POLLOUT ip")
  case True
  then show ?thesis using write_livelock [OF run, of d] d full by simp
next
  case False
  have "ip' = ip \<or> ip' = fall_asleep tid ip"
    using run False d full by (subst (asm) pipe_write_loop.simps) (auto simp: Let_def fs_poll_wait_def wait_for_def split: if_splits)
  then show ?thesis using inv by auto
qed

lemma pipe_write_loop_inv:
  assumes inv: "pipe_inv ip fs" and ne: "fs \<noteq> []" and i: "i \<le> len" "length buffer = unat len"
    and run: "pipe_write_loop f buffer len i tid sig now ip = Some (r, ip')"
  shows "pipe_inv ip' fs"
proof -
  obtain d where d: "in_pipe_data ip = Some d" "data_inv ip d (readers fs) (writers fs)"
    using inv ne by (auto simp: pipe_inv_def split: option.splits)
  consider "\<not> i < len" | "i < len" "ring_buffer_space (pd_buffer d) = 0" | "i < len" "ring_buffer_space (pd_buffer d) \<noteq> 0" by blast
  then show ?thesis
  proof cases
    case 1
    then show ?thesis using run inv by (subst (asm) pipe_write_loop.simps) simp
  next
    case 2
    then show ?thesis using write_stops_inv [OF inv d(1) _ run] by blast
  next
    case 3
    let ?k = "min (ring_buffer_space (pd_buffer d)) (len - i)"
    obtain ip1 d1 where s: "pipe_write_loop f buffer len i tid sig now ip = pipe_write_loop f buffer len (i + ?k) tid sig now ip1"
      "pipe_inv ip1 fs" "in_pipe_data ip1 = Some d1" "?k = len - i \<or> length (rb_contents (pd_buffer d1)) = 4096"
      using write_step [OF inv d(1) 3(1) i(2) 3(2), of f tid sig now] by blast
    have run1: "pipe_write_loop f buffer len (i + ?k) tid sig now ip1 = Some (r, ip')" using run s(1) by simp
    show ?thesis
    proof (cases "?k = len - i")
      case True
      have "pipe_write_loop f buffer len len tid sig now ip1 = Some (r, ip')" using run1 unfolding True by simp
      then show ?thesis using s(2) by (subst (asm) pipe_write_loop.simps) simp
    next
      case False
      then have "ring_buffer_space (pd_buffer d1) = 0" using s(4) full_no_space [OF s(2,3)] by blast
      then show ?thesis using write_stops_inv [OF s(2,3) _ run1] by blast
    qed
  qed
qed

section \<open>Reachable pipes\<close>

text \<open>
  The life of a pipe: the files that are open, or wait in \<open>open\<close>, and what they do, in any order. Files
  are not shared (\<open>ref_count\<close> 1), their flags may be changed (\<open>fs_create_pipe\<close>, \<open>fcntl\<close>), and \<open>pipe_open\<close> does not run between the read of \<open>pipe_data\<close> and the lock of
  another \<open>pipe_open\<close>.
\<close>

inductive pipe_reach :: "inode \<Rightarrow> fs_file list \<Rightarrow> bool" where
  new: "in_pipe_data ip = None \<Longrightarrow> in_open_file_count ip = 0 \<Longrightarrow> pipe_reach ip []"
| open': "pipe_reach ip fs \<Longrightarrow> 0 < in_ref_count ip \<Longrightarrow>
    pipe_open junk (in_pipe_data ip \<noteq> None) flags tid sig ip = Some (r, ip') \<Longrightarrow> pipe_reach ip' (after_open r fs)"
| wait_reader: "pipe_reach ip fs \<Longrightarrow> f \<in> set fs \<Longrightarrow> wait_for_reader f tid sig ip = Some (r, ip') \<Longrightarrow>
    pipe_reach ip' (after_wait f r fs)"
| wait_writer: "pipe_reach ip fs \<Longrightarrow> f \<in> set fs \<Longrightarrow> wait_for_writer f tid sig ip = Some (r, ip') \<Longrightarrow>
    pipe_reach ip' (after_wait f r fs)"
| close: "pipe_reach ip fs \<Longrightarrow> f \<in> set fs \<Longrightarrow> fs_close f ip = Some (e, f', ip') \<Longrightarrow> pipe_reach ip' (remove1 f fs)"
| set_flags: "pipe_reach ip fs \<Longrightarrow> f \<in> set fs \<Longrightarrow> pipe_reach ip (f\<lparr>f_open_flags := flags\<rparr> # remove1 f fs)"
| read: "pipe_reach ip fs \<Longrightarrow> f \<in> set fs \<Longrightarrow> 0 < len \<Longrightarrow> pipe_read f 0 len tid sig ip = Some (r, bs, ip') \<Longrightarrow> pipe_reach ip' fs"
| read_resumed: "pipe_reach ip fs \<Longrightarrow> f \<in> set fs \<Longrightarrow> 0 < len \<Longrightarrow> pipe_read_resumed f len tid sig ip = Some (r, bs, ip') \<Longrightarrow>
    pipe_reach ip' fs"
| write': "pipe_reach ip fs \<Longrightarrow> f \<in> set fs \<Longrightarrow> length buffer = unat len \<Longrightarrow>
    pipe_write f 0 buffer len tid sig now ip = Some (r, b, ip') \<Longrightarrow> pipe_reach ip' fs"
| write_resumed: "pipe_reach ip fs \<Longrightarrow> f \<in> set fs \<Longrightarrow> length buffer = unat len \<Longrightarrow> i \<le> len \<Longrightarrow>
    pipe_write_resumed f buffer len i tid sig now ip = Some (r, ip') \<Longrightarrow> pipe_reach ip' fs"

lemma pipe_read_total:
  assumes inv: "pipe_inv ip fs" and f: "f \<in> set fs" and len: "0 < len"
  shows "\<exists>r bs ip'. pipe_read_again f len tid sig ip = Some (r, bs, ip') \<and> pipe_inv ip' fs"
proof -
  obtain d where d: "in_pipe_data ip = Some d" using pipe_invD [OF inv f] by blast
  show ?thesis
  proof (cases "rb_contents (pd_buffer d) = []")
    case True
    then show ?thesis using pipe_read_none [OF inv d True, of f len tid sig] inv by auto
  next
    case False
    have "0 < unat len" using len by (simp add: word_gt_0 unat_gt_0)
    then show ?thesis using pipe_read_bytes [OF inv d _ False, of len f tid sig] by blast
  qed
qed

lemma pipe_reach_inv: "pipe_reach ip fs \<Longrightarrow> pipe_inv ip fs"
proof (induction rule: pipe_reach.induct)
  case (new ip)
  then show ?case by (simp add: pipe_inv_def)
next
  case (open' ip fs junk flags tid sig r ip')
  then show ?case using pipe_open_inv [of ip fs junk flags tid sig] by auto
next
  case (wait_reader ip fs f tid sig r ip')
  then show ?case using wait_for_reader_inv [of ip fs f tid sig] by auto
next
  case (wait_writer ip fs f tid sig r ip')
  then show ?case using wait_for_writer_inv [of ip fs f tid sig] by auto
next
  case (close ip fs f e f' ip')
  then show ?case using fs_close_inv [of ip fs f] by auto
next
  case (set_flags ip fs f flags)
  then have "length fs = Suc (length (remove1 f fs))" using length_pos_if_in_set [of f fs] by (simp add: length_remove1)
  moreover have "\<forall>g \<in> set (remove1 f fs). f_ref_count g = 1"
    using set_flags set_remove1_subset [of f fs] by (auto simp: pipe_inv_def)
  moreover have "readers (f\<lparr>f_open_flags := flags\<rparr> # remove1 f fs) = readers fs"
    "writers (f\<lparr>f_open_flags := flags\<rparr> # remove1 f fs) = writers fs"
    using counts_remove1 [OF set_flags.hyps(2)] by (simp_all add: fs_set_counts)
  ultimately show ?case using set_flags by (auto simp: pipe_inv_def split: option.splits)
next
  case (read ip fs f len tid sig r bs ip')
  then show ?case using pipe_read_total [of ip fs f len tid sig] by (auto simp: pipe_read_def)
next
  case (read_resumed ip fs f len tid sig r bs ip')
  then show ?case using pipe_read_total [of ip fs f len tid sig]
    by (auto simp: pipe_read_resumed_def split: wait_result.splits)
next
  case (write' ip fs f buffer len tid sig now r b ip')
  then have "fs \<noteq> []" by auto
  then show ?case using write' pipe_write_loop_inv [of ip fs 0 len buffer f tid sig now]
    by (auto simp: pipe_write_def split: bind_splits if_splits)
next
  case (write_resumed ip fs f buffer len i tid sig now r ip')
  then have "fs \<noteq> []" by auto
  then show ?case using write_resumed pipe_write_loop_inv [of ip fs i len buffer f tid sig now]
    by (auto simp: pipe_write_resumed_def split: wait_result.splits)
qed

text \<open>
  C7 (pipe_reachable_ok). Every reachable pipe satisfies its invariant: reference counts, buffer and poll flags
  agree with the open files. In such a pipe every open, close, read of at least one byte and, while a reader
  has the pipe open, every write returns or goes to sleep.
\<close>

theorem pipe_reachable_ok:
  assumes "pipe_reach ip fs"
  shows "pipe_inv ip fs \<and> (0 < in_ref_count ip \<longrightarrow> pipe_open junk (in_pipe_data ip \<noteq> None) flags tid sig ip \<noteq> None) \<and>
    (\<forall>f \<in> set fs. fs_close f ip \<noteq> None \<and> (0 < len \<longrightarrow> pipe_read f 0 len tid sig ip \<noteq> None) \<and>
      (length buffer = unat len \<and> 0 < readers fs \<longrightarrow> pipe_write f 0 buffer len tid sig now ip \<noteq> None))"
proof -
  note inv = pipe_reach_inv [OF assms]
  have "pipe_write f 0 buffer len tid sig now ip \<noteq> None" if f: "f \<in> set fs" and l: "length buffer = unat len" and r: "0 < readers fs" for f
  proof -
    obtain d where "in_pipe_data ip = Some d" by (rule pipe_invD [OF inv f])
    then show ?thesis using pipe_write_loop_total [OF inv r _ l, of 0 f tid sig now] by (auto simp: pipe_write_def)
  qed
  then show ?thesis using inv pipe_open_inv [OF inv, of junk flags tid sig] fs_close_inv [OF inv]
    pipe_read_total [OF inv, of _ len tid sig] by (auto simp: pipe_read_def) blast+
qed

text \<open>A reader that waits in \<open>open\<close>, and the writer it waits for.\<close>

definition demo_inode :: inode where
  "demo_inode = \<lparr>in_fsid = 0, in_index = 1, in_poll_flags = POLLOUT, in_queue = [], in_pipe_data = None,
     in_open_file_count = 0, in_ref_count = 1, in_modify_time = 0\<rparr>"

definition demo_reader :: fs_file where
  "demo_reader = \<lparr>f_open_flags = O_RDONLY, f_abilities = FS_FILE_CANT_SEEK OR FS_FILE_CAN_READ, f_ref_count = 1\<rparr>"

definition demo_writer :: fs_file where
  "demo_writer = \<lparr>f_open_flags = O_WRONLY, f_abilities = FS_FILE_CANT_SEEK OR FS_FILE_CAN_WRITE, f_ref_count = 1\<rparr>"

lemma demo_reach:
  "\<exists>ip d. pipe_reach ip [demo_writer, demo_reader] \<and> in_pipe_data ip = Some d \<and> rb_contents (pd_buffer d) = []"
proof -
  have fresh: "ring_buffer_empty (pd_buffer (new_pipe_data []))" "\<not> ring_buffer_full (pd_buffer (new_pipe_data []))"
    "\<not> ring_buffer_dead (pd_buffer (new_pipe_data []))" "pd_read_count (new_pipe_data []) = 0" "pd_write_count (new_pipe_data []) = 0"
    by (simp_all add: new_pipe_data_def ring_buffer_empty_def ring_buffer_full_def ring_buffer_dead_def init_ring_buffer_def)
  note ops = pipe_open_def fs_create_file_def bump_inode_reference_def open_reader_def open_writer_def open_for_reading_def
    wait_for_writer_def wait_for_def can_read_def can_write_def set_state_defs fs_set_state_def Let_def demo_inode_def
  let ?d1 = "new_pipe_data []\<lparr>pd_readers_queue := [], pd_read_count := 1, pd_writers_queue := pd_writers_queue (new_pipe_data []) @ [1]\<rparr>"
  let ?ip1 = "demo_inode\<lparr>in_ref_count := 2, in_open_file_count := 1, in_pipe_data := Some ?d1\<rparr>"
  have 1: "pipe_open [] (in_pipe_data demo_inode \<noteq> None) O_RDONLY 1 False demo_inode = Some (Waits_for_writer demo_reader, ?ip1)"
    using fresh by (simp add: ops demo_reader_def)
  let ?d2 = "?d1\<lparr>pd_write_count := 1, pd_writers_queue := []\<rparr>"
  let ?ip2 = "demo_inode\<lparr>in_ref_count := 3, in_open_file_count := 2, in_pipe_data := Some ?d2\<rparr>"
  have 2: "pipe_open [] (in_pipe_data ?ip1 \<noteq> None) O_WRONLY 2 False ?ip1 = Some (Opened demo_writer, ?ip2)"
    using fresh by (simp add: ops demo_writer_def)
  have "pipe_reach demo_inode []" by (rule pipe_reach.new) (simp_all add: demo_inode_def)
  from pipe_reach.open' [OF this _ 1] have "pipe_reach ?ip1 [demo_reader]" by (simp add: demo_inode_def)
  from pipe_reach.open' [OF this _ 2] have "pipe_reach ?ip2 [demo_writer, demo_reader]" by simp
  moreover have "rb_contents (pd_buffer ?d2) = []" by (simp add: new_pipe_data_def init_ring_buffer_wf)
  ultimately show ?thesis by (intro exI [of _ ?ip2] exI [of _ ?d2]) simp
qed

lemma pipe_reachable_ok_witness:
  "\<exists>ip. pipe_reach ip [demo_writer, demo_reader] \<and> pipe_read demo_reader 0 5 1 False ip \<noteq> None \<and>
     pipe_write demo_writer 0 [1, 2] 2 2 False 9 ip \<noteq> None"
proof -
  obtain ip where r: "pipe_reach ip [demo_writer, demo_reader]" using demo_reach by blast
  have "readers [demo_writer, demo_reader] = 1" by (simp add: readers_def can_read_def demo_writer_def demo_reader_def)
  then show ?thesis using r pipe_reachable_ok [OF r, where len = 5 and tid = 1 and sig = False]
    pipe_reachable_ok [OF r, where len = 2 and tid = 2 and sig = False and buffer = "[1, 2]" and now = 9] by auto
qed

subsection \<open>Waking readers up\<close>

lemma read_sleeps:
  assumes inv: "pipe_inv ip fs" and f: "f \<in> set fs" and len: "0 < len"
    and run: "pipe_read f 0 len tid sig ip = Some (Sleeping i, bs, ip')"
  shows "\<exists>d. in_pipe_data ip' = Some d \<and> rb_contents (pd_buffer d) = [] \<and> 0 < writers fs \<and> pipe_inv ip' fs \<and>
    \<not> fs_do_poll POLLIN ip'"
proof -
  obtain d where d: "in_pipe_data ip = Some d" "data_inv ip d (readers fs) (writers fs)" using pipe_invD [OF inv f] .
  have empty: "rb_contents (pd_buffer d) = []"
  proof (rule ccontr)
    assume "rb_contents (pd_buffer d) \<noteq> []"
    moreover have "0 < unat len" using len by (simp add: word_gt_0 unat_gt_0)
    ultimately show False using pipe_read_bytes [OF inv d(1), of len f tid sig] run by (auto simp: pipe_read_def)
  qed
  have "writers fs \<noteq> 0 \<and> ip' = fall_asleep tid ip"
    using pipe_read_none [OF inv d(1) empty, of f len tid sig] run by (auto simp: pipe_read_def split: if_splits)
  then have "0 < writers fs" "ip' = fall_asleep tid ip" using counts_ge(2) [of fs] by auto
  moreover have "\<not> fs_do_poll POLLIN ip" using d(2) empty \<open>0 < writers fs\<close> by (simp add: data_inv_def)
  moreover have "in_pipe_data (fall_asleep tid ip) = Some d" using d(1) by (simp add: fall_asleep_def)
  ultimately show ?thesis using inv empty by simp
qed

lemma resumed_reads: "fs_do_poll POLLIN ip \<Longrightarrow> pipe_read_resumed f len tid False ip = pipe_read_again f len tid False ip"
  by (simp add: pipe_read_resumed_def wait_for_def)

text \<open>Once bytes are there, the loop of a write only adds to them.\<close>

lemma write_keeps_front:
  assumes inv: "pipe_inv ip fs" and d: "in_pipe_data ip = Some d" and full: "i = len \<or> length (rb_contents (pd_buffer d)) = 4096"
    and run: "pipe_write_loop f buffer len i tid sig now ip = Some (r, ip')"
  shows "in_pipe_data ip' = Some d \<and> fs_do_poll POLLIN ip' = fs_do_poll POLLIN ip \<and> (in_queue ip = [] \<longrightarrow> set (in_queue ip') \<subseteq> {tid})"
proof (cases "i < len \<and> f_open_flags f AND O_NONBLOCK = 0 \<and> fs_do_poll POLLOUT ip")
  case True
  then show ?thesis using write_livelock [OF run, of d] d full full_no_space [OF inv d] by auto
next
  case False
  have sp: "ring_buffer_space (pd_buffer d) = 0" if "i < len" using that full full_no_space [OF inv d] by auto
  have "ip' = ip \<or> ip' = fall_asleep tid ip"
    using run False d sp by (subst (asm) pipe_write_loop.simps) (auto simp: Let_def fs_poll_wait_def wait_for_def split: if_splits)
  then show ?thesis using d by (auto simp: fall_asleep_def fs_do_poll_def)
qed

lemma write_wakes:
  assumes inv: "pipe_inv ip fs" and d: "in_pipe_data ip = Some d" "rb_contents (pd_buffer d) = []"
    and b: "buffer \<noteq> []" "length buffer = unat len" and poll: "\<not> fs_do_poll POLLIN ip"
    and run: "pipe_write_loop f buffer len 0 tid sig now ip = Some (r, ip')"
  shows "\<exists>d'. in_pipe_data ip' = Some d' \<and> rb_contents (pd_buffer d') = take 4096 buffer \<and> fs_do_poll POLLIN ip' \<and>
    set (in_queue ip') \<subseteq> {tid}"
proof -
  have di: "data_inv ip d (readers fs) (writers fs)" using inv d by (auto simp: pipe_inv_def)
  have sp: "unat (ring_buffer_space (pd_buffer d)) = 4096"
    using di unat_ring_buffer_space [of "pd_buffer d"] d(2) by (simp add: data_inv_def)
  then have sp0: "ring_buffer_space (pd_buffer d) \<noteq> 0" by auto
  have "0 < length buffer" using b(1) by blast
  then have len: "0 < len" using b(2) by (simp add: word_gt_0 unat_gt_0)
  let ?k = "min (ring_buffer_space (pd_buffer d)) (len - 0)"
  obtain ip1 d1 where s: "pipe_write_loop f buffer len 0 tid sig now ip = pipe_write_loop f buffer len (0 + ?k) tid sig now ip1"
      "pipe_inv ip1 fs" "in_pipe_data ip1 = Some d1" "?k = len - 0 \<or> length (rb_contents (pd_buffer d1)) = 4096"
      "rb_contents (pd_buffer d1) = rb_contents (pd_buffer d) @ take (unat ?k) (drop (unat (0 :: u64)) buffer)" "in_queue ip1 = []"
    using write_step [OF inv d(1) len b(2) sp0, of f tid sig now] poll by blast
  have "unat ?k = min 4096 (length buffer)" unfolding unat_min_u64 sp b(2) by simp
  then have c: "rb_contents (pd_buffer d1) = take 4096 buffer" using s(5) d(2) by (simp add: min_def)
  have ne: "rb_contents (pd_buffer d1) \<noteq> []" using c b(1) by (cases buffer) simp_all
  have "data_inv ip1 d1 (readers fs) (writers fs)" using s(2,3) by (auto simp: pipe_inv_def)
  then have "fs_do_poll POLLIN ip1" using ne by (simp add: data_inv_def)
  moreover have "0 + ?k = len \<or> length (rb_contents (pd_buffer d1)) = 4096" using s(4) by simp
  ultimately show ?thesis using write_keeps_front [OF s(2,3) _ run [unfolded s(1)]] c s(6) by blast
qed

text \<open>Closing a file: what becomes of the buffer and of the flags.\<close>

lemma close_writer_effect:
  assumes "in_pipe_data ip = Some d"
  shows "\<exists>ip1 d1. (if w then close_writer ip else Some ip) = Some ip1 \<and> in_pipe_data ip1 = Some d1 \<and>
    pd_buffer d1 = pd_buffer d \<and> pd_read_count d1 = pd_read_count d \<and>
    (w \<and> pd_write_count d = 1 \<longrightarrow> fs_do_poll POLLIN ip1 \<and> (\<not> fs_do_poll POLLIN ip \<longrightarrow> in_queue ip1 = []))"
  using assms trigger_wakes [of "ip\<lparr>in_pipe_data := Some (d\<lparr>pd_write_count := 0\<rparr>)\<rparr>"]
  by (cases w; cases "pd_write_count d = 1") (simp_all add: close_writer_def Let_def)

lemma fs_close_effect:
  assumes "fs_close f ip = Some (e, f', ip')" "f_ref_count f = 1" "in_pipe_data ip = Some d" "in_open_file_count ip \<noteq> 1"
  shows "\<exists>d'. in_pipe_data ip' = Some d' \<and> pd_buffer d' = pd_buffer d \<and>
    (can_write f \<and> pd_write_count d = 1 \<longrightarrow> fs_do_poll POLLIN ip' \<and> (\<not> fs_do_poll POLLIN ip \<longrightarrow> in_queue ip' = [])) \<and>
    (can_read f \<and> pd_read_count d = 1 \<longrightarrow> fs_do_poll POLLOUT ip')"
proof -
  let ?f = "f\<lparr>f_ref_count := 0\<rparr>"
  have abil: "can_read ?f = can_read f" "can_write ?f = can_write f" by (simp_all add: can_read_def can_write_def)
  define ip0 where "ip0 = ip\<lparr>in_open_file_count := in_open_file_count ip - 1, in_ref_count := in_ref_count ip - 1\<rparr>"
  have 0: "pipe_close ?f ip0 = Some (e, ip')"
    using assms(1,2,4) by (auto simp: fs_close_def Let_def drop_inode_reference_def ip0_def split: bind_splits if_splits)
  have ip0: "in_pipe_data ip0 = Some d" "fs_do_poll POLLIN ip0 = fs_do_poll POLLIN ip" using assms(3) by (simp_all add: ip0_def)
  obtain ip1 d1 where 1: "(if can_write f then close_writer ip0 else Some ip0) = Some ip1" "in_pipe_data ip1 = Some d1"
    "pd_buffer d1 = pd_buffer d" "pd_read_count d1 = pd_read_count d"
    "can_write f \<and> pd_write_count d = 1 \<longrightarrow> fs_do_poll POLLIN ip1 \<and> (\<not> fs_do_poll POLLIN ip \<longrightarrow> in_queue ip1 = [])"
    using close_writer_effect [OF ip0(1), of "can_write f"] ip0(2) by blast
  have 2: "(if can_read f then close_reader ip1 else Some ip1) = Some ip'"
    using 0 1(1) by (auto simp: pipe_close_def abil split: bind_splits)
  show ?thesis using 1 2 trigger_stays [of "ip1\<lparr>in_pipe_data := Some (d1\<lparr>pd_read_count := pd_read_count d1 - 1\<rparr>)\<rparr>"]
    by (auto simp: close_reader_def Let_def split: if_splits)
qed

lemma reader_gets_bytes:
  assumes inv: "pipe_inv ip fs" and d: "in_pipe_data ip = Some d" "rb_contents (pd_buffer d) = []"
    and poll: "\<not> fs_do_poll POLLIN ip" and len: "0 < unat len"
    and b: "buffer \<noteq> []" "length buffer = unat n" "0 < readers fs"
  shows "\<exists>r ip2 ip3. pipe_write g 0 buffer n tid' sig' now ip = Some (r, False, ip2) \<and> set (in_queue ip2) \<subseteq> {tid'} \<and>
    (let bs' = take (unat len) (take 4096 buffer) in
     pipe_read_resumed f len tid False ip2 = Some (Returned (int (length bs')), bs', ip3))"
proof -
  have di: "data_inv ip d (readers fs) (writers fs)" using inv d by (auto simp: pipe_inv_def)
  obtain r ip2 where w: "pipe_write_loop g buffer n 0 tid' sig' now ip = Some (r, ip2)" "pipe_inv ip2 fs"
    using pipe_write_loop_total [OF inv b(3) _ b(2), of 0 g tid' sig' now] by auto
  then obtain d2 where d2: "in_pipe_data ip2 = Some d2" "rb_contents (pd_buffer d2) = take 4096 buffer" "fs_do_poll POLLIN ip2"
    "set (in_queue ip2) \<subseteq> {tid'}" using write_wakes [OF inv d b(1,2) poll w(1)] by blast
  have "take 4096 buffer \<noteq> []" using b(1) by (cases buffer) simp_all
  then obtain ip3 where "pipe_read_again f len tid False ip2 =
      Some (Returned (int (length (take (unat len) (take 4096 buffer)))), take (unat len) (take 4096 buffer), ip3)"
    using pipe_read_bytes [OF w(2) d2(1) len, of f tid False] d2(2) by auto
  moreover have "pipe_write g 0 buffer n tid' sig' now ip = Some (r, False, ip2)"
    using d w(1) di b(3) by (simp add: pipe_write_def is_pipe_read_end_open_def data_inv_def)
  ultimately show ?thesis using resumed_reads [OF d2(3)] d2(4) unfolding Let_def by auto
qed

lemma reader_gets_end:
  assumes inv: "pipe_inv ip fs" and d: "in_pipe_data ip = Some d" "rb_contents (pd_buffer d) = []"
    and poll: "\<not> fs_do_poll POLLIN ip" and g: "g \<in> set fs" "f \<in> set (remove1 g fs)" "can_write g" "writers fs = 1"
  shows "\<exists>g' ip2. fs_close g ip = Some (0, g', ip2) \<and> in_queue ip2 = [] \<and>
    pipe_read_resumed f len tid False ip2 = Some (Returned 0, [], ip2)"
proof -
  have di: "data_inv ip d (readers fs) (writers fs)" using inv d by (auto simp: pipe_inv_def)
  obtain g' ip2 where c: "fs_close g ip = Some (0, g', ip2)" "pipe_inv ip2 (remove1 g fs)" using fs_close_inv [OF inv g(1)] by blast
  have "length (remove1 g fs) \<noteq> 0" using g(2) by auto
  then have "f_ref_count g = 1" "in_open_file_count ip \<noteq> 1" using inv g(1) by (auto simp: pipe_inv_def length_remove1)
  moreover have "pd_write_count d = 1" using di g(4) by (simp add: data_inv_def)
  ultimately obtain d2 where d2: "in_pipe_data ip2 = Some d2" "pd_buffer d2 = pd_buffer d" "fs_do_poll POLLIN ip2" "in_queue ip2 = []"
    using fs_close_effect [OF c(1) _ d(1)] g(3) poll by blast
  have "writers (remove1 g fs) = 0" using counts_remove1(2) [OF g(1)] g(3,4) by simp
  then have "pipe_read_again f len tid False ip2 = Some (Returned 0, [], ip2)"
    using pipe_read_none [OF c(2) d2(1), of f len tid False] d(2) d2(2) by simp
  then show ?thesis using c(1) d2(4) resumed_reads [OF d2(3)] by auto
qed

text \<open>
  C10 (pipe_reader_progress). A reader that sleeps on an empty pipe is woken up by the next write of at least one
  byte, and then returns the first of the bytes that were written; and by the close of the last writer, and
  then returns 0, the end of the file.
\<close>

theorem pipe_reader_progress:
  assumes reach: "pipe_reach ip fs" and f: "f \<in> set fs" and len: "0 < len"
    and sleeps: "pipe_read f 0 len tid sig ip = Some (Sleeping i, bs, ip1)"
  shows "(buffer \<noteq> [] \<and> length buffer = unat n \<and> 0 < readers fs \<longrightarrow>
      (\<exists>r ip2 ip3. pipe_write g 0 buffer n tid' sig' now ip1 = Some (r, False, ip2) \<and> set (in_queue ip2) \<subseteq> {tid'} \<and>
        (let bs' = take (unat len) (take 4096 buffer) in
         pipe_read_resumed f len tid False ip2 = Some (Returned (int (length bs')), bs', ip3)))) \<and>
    (g \<in> set fs \<and> f \<in> set (remove1 g fs) \<and> can_write g \<and> writers fs = 1 \<longrightarrow>
      (\<exists>g' ip2. fs_close g ip1 = Some (0, g', ip2) \<and> in_queue ip2 = [] \<and>
        pipe_read_resumed f len tid False ip2 = Some (Returned 0, [], ip2)))"
proof -
  obtain d where d: "in_pipe_data ip1 = Some d" "rb_contents (pd_buffer d) = []" and inv: "pipe_inv ip1 fs"
    and poll: "\<not> fs_do_poll POLLIN ip1" using read_sleeps [OF pipe_reach_inv [OF reach] f len sleeps] by blast
  have "0 < unat len" using len by (simp add: word_gt_0 unat_gt_0)
  then show ?thesis using reader_gets_bytes [OF inv d poll] reader_gets_end [OF inv d poll] by blast
qed

lemma pipe_reader_progress_witness:
  "\<exists>ip1 r ip2 ip3 g' ip4. pipe_write demo_writer 0 [65] 1 2 False 0 ip1 = Some (r, False, ip2) \<and>
     pipe_read_resumed demo_reader 8 1 False ip2 = Some (Returned 1, [65], ip3) \<and>
     fs_close demo_writer ip1 = Some (0, g', ip4) \<and> pipe_read_resumed demo_reader 8 1 False ip4 = Some (Returned 0, [], ip4)"
proof -
  let ?fs = "[demo_writer, demo_reader]"
  obtain ip d where r: "pipe_reach ip ?fs" and d: "in_pipe_data ip = Some d" "rb_contents (pd_buffer d) = []"
    using demo_reach by blast
  have c: "readers ?fs = 1" "writers ?fs = 1" "can_write demo_writer" "demo_writer \<noteq> demo_reader" "f_open_flags demo_reader AND O_NONBLOCK = 0"
    by (simp_all add: readers_def writers_def can_read_def can_write_def demo_writer_def demo_reader_def)
  have "pipe_read demo_reader 0 8 1 False ip = Some (Sleeping 0, [], fall_asleep 1 ip)"
    using pipe_read_none [OF pipe_reach_inv [OF r] d] c by (simp add: pipe_read_def)
  from pipe_reader_progress [OF r _ _ this, of "[65]" 1 demo_writer 2 False 0] show ?thesis using c
    by (intro exI [of _ "fall_asleep 1 ip"]) (auto simp: Let_def)
qed

lemma pipe_overfull:
  assumes inv: "pipe_inv ip fs" and d: "in_pipe_data ip = Some d" "rb_contents (pd_buffer d) = []" and r: "0 < readers fs"
    and b: "length buffer = unat len" "4096 < unat len" and f: "f_open_flags f AND O_NONBLOCK = 0"
  shows "\<exists>ip1. pipe_write f 0 buffer len tid False now ip = Some (Sleeping 4096, False, ip1)"
proof -
  have di: "data_inv ip d (readers fs) (writers fs)" using inv d by (auto simp: pipe_inv_def)
  have sp: "unat (ring_buffer_space (pd_buffer d)) = unat (4096 :: u64)"
    using di unat_ring_buffer_space [of "pd_buffer d"] d(2) by (simp add: data_inv_def)
  then have sp: "ring_buffer_space (pd_buffer d) = 4096" by (rule word_unat_eq_iff [THEN iffD2])
  have len: "4096 < len" "0 < len" using b(2) by (simp_all add: word_less_nat_alt)
  have k: "min (ring_buffer_space (pd_buffer d)) (len - 0) = 4096" "4096 \<noteq> len - 0" unfolding sp using len(1) by (auto simp: min_def)
  obtain ip1 d1 where s: "pipe_write_loop f buffer len 0 tid False now ip = pipe_write_loop f buffer len (0 + 4096) tid False now ip1"
      "pipe_inv ip1 fs" "in_pipe_data ip1 = Some d1" "length (rb_contents (pd_buffer d1)) = 4096"
    using write_step [OF inv d(1) len(2) b(1), of f tid False now, unfolded k(1)] sp k(2) by auto
  have "data_inv ip1 d1 (readers fs) (writers fs)" using s(2,3) by (auto simp: pipe_inv_def)
  then have "\<not> fs_do_poll POLLOUT ip1" using r s(4) by (simp only: data_inv_def simp_thms less_irrefl)
  then have "pipe_write_loop f buffer len 4096 tid False now ip1 = Some (Sleeping 4096, fall_asleep tid ip1)"
    using f len(1) s(3) full_no_space [OF s(2-4)] by (subst pipe_write_loop.simps) (simp add: fs_poll_wait_def wait_for_def)
  moreover have "is_pipe_read_end_open d" using di r by (simp add: data_inv_def is_pipe_read_end_open_def)
  ultimately show ?thesis using s(1) d(1) by (simp add: pipe_write_def)
qed

lemma write_sleeps:
  assumes "pipe_write_loop f buffer len i tid sig now ip = Some y"
  shows "y = (Sleeping j, ip') \<longrightarrow> j < len \<and> f_open_flags f AND O_NONBLOCK = 0 \<and>
      (\<exists>d'. in_pipe_data ip' = Some d' \<and> ring_buffer_space (pd_buffer d') = 0)"
proof (rule pipe_write_loop.raw_induct [OF _ assms, where P = "\<lambda>f buffer len i tid sig now ip y.
    y = (Sleeping j, ip') \<longrightarrow> j < len \<and> f_open_flags f AND O_NONBLOCK = 0 \<and>
      (\<exists>d'. in_pipe_data ip' = Some d' \<and> ring_buffer_space (pd_buffer d') = 0)"], goal_cases)
  case (1 loop f buffer len i tid sig now ip y)
  show ?case using 1(2)
    by (auto simp: Let_def fs_poll_wait_def wait_for_def fall_asleep_def split: if_splits bind_splits dest!: 1(1))
qed

text \<open>
  C39 (pipe_writer_hangs). A writer that sleeps on a full pipe while the last reader closes it is woken up, but
  does not look for readers again: since \<open>POLLOUT\<close> is set and there is no room, it never leaves the loop of
  \<open>pipe_write\<close> and keeps \<open>inode->lock\<close>, instead of returning \<open>-EPIPE\<close>.
\<close>

theorem pipe_writer_hangs:
  assumes reach: "pipe_reach ip fs" and f: "f \<in> set fs" "length buffer = unat len"
    and sleeps: "pipe_write f 0 buffer len tid sig now ip = Some (Sleeping i, b, ip1)"
    and g: "g \<in> set fs" "f \<in> set (remove1 g fs)" "can_read g" "readers fs = 1"
  shows "\<exists>g' ip2. fs_close g ip1 = Some (0, g', ip2) \<and> fs_do_poll POLLOUT ip2 \<and>
    pipe_write_resumed f buffer len i tid False now' ip2 = None"
proof -
  have w: "pipe_write_loop f buffer len 0 tid sig now ip = Some (Sleeping i, ip1)"
    using sleeps by (auto simp: pipe_write_def split: bind_splits if_splits)
  obtain d where d: "i < len" "f_open_flags f AND O_NONBLOCK = 0" "in_pipe_data ip1 = Some d" "ring_buffer_space (pd_buffer d) = 0"
    using write_sleeps [OF w] by blast
  have inv: "pipe_inv ip1 fs" by (rule pipe_write_loop_inv [OF pipe_reach_inv [OF reach] _ _ f(2) w]) (use f(1) in auto)
  obtain g' ip2 where c: "fs_close g ip1 = Some (0, g', ip2)" using fs_close_inv [OF inv g(1)] by blast
  have "length (remove1 g fs) \<noteq> 0" using g(2) by auto
  then have "f_ref_count g = 1" "in_open_file_count ip1 \<noteq> 1" using inv g(1) by (auto simp: pipe_inv_def length_remove1)
  moreover have "pd_read_count d = 1" using inv d(3) g(4) by (simp add: pipe_inv_def data_inv_def)
  ultimately obtain d2 where d2: "in_pipe_data ip2 = Some d2" "pd_buffer d2 = pd_buffer d" "fs_do_poll POLLOUT ip2"
    using fs_close_effect [OF c _ d(3)] g(3) by blast
  have "pipe_write_loop f buffer len i tid False now' ip2 \<noteq> Some y" for y
    using write_livelock [of f buffer len i tid False now' ip2 y d2] d d2 by auto
  then have "pipe_write_loop f buffer len i tid False now' ip2 = None" by blast
  then show ?thesis using c d2(3) by (auto simp: pipe_write_resumed_def wait_for_def)
qed

lemma pipe_writer_hangs_witness:
  "\<exists>ip1 g' ip2. fs_close demo_reader ip1 = Some (0, g', ip2) \<and> fs_do_poll POLLOUT ip2 \<and>
     pipe_write_resumed demo_writer (replicate 5000 0) 5000 4096 2 False 9 ip2 = None"
proof -
  let ?fs = "[demo_writer, demo_reader]"
  obtain ip d where r: "pipe_reach ip ?fs" and d: "in_pipe_data ip = Some d" "rb_contents (pd_buffer d) = []"
    using demo_reach by blast
  have c: "readers ?fs = 1" "can_read demo_reader" "demo_writer \<noteq> demo_reader" "f_open_flags demo_writer AND O_NONBLOCK = 0"
    by (simp_all add: readers_def can_read_def demo_writer_def demo_reader_def)
  have len: "length (replicate 5000 0) = unat (5000 :: u64)" "4096 < unat (5000 :: u64)" by (simp_all only: length_replicate) simp_all
  obtain ip1 where "pipe_write demo_writer 0 (replicate 5000 0) 5000 2 False 0 ip = Some (Sleeping 4096, False, ip1)"
    using pipe_overfull [OF pipe_reach_inv [OF r] d _ len c(4)] c(1) by auto
  from pipe_writer_hangs [OF r _ len(1) this, of demo_reader 9] show ?thesis using c by auto
qed

end
