(* ===== verification/Task_Sched.thy ===== *)
theory Task_Sched
  imports Linked_List
begin

text \<open>
  Task states, run lists, sleeping and waking: the scheduling parts of \<^verbatim>\<open>kernel/proc/task.c\<close>,
  \<^verbatim>\<open>kernel/sched/task_sched.c\<close>, \<^verbatim>\<open>kernel/proc/wait_queue.c\<close> and \<^verbatim>\<open>kernel/proc/task_finalizer.c\<close>, the waiting
  functions and macros of \<^verbatim>\<open>kernel/include/kernel/proc/task.h\<close> and the preemption counter of
  \<^verbatim>\<open>kernel/include/kernel/hal/processor.h\<close>. The run lists are the circular lists of theory Linked_List, on one
  memory of \<open>next\<close> and \<open>prev\<close> fields: a task stands for its node, \<open>sched_list\<close> is the head of a processor.
  \<open>cpu\<close> is the processor that executes the code. A wait queue is the sequence of its entries, an entry
  standing for its task. Spin locks are left out: what happens under one is one step. The theory shows how
  the operations change the run lists, and what happens when a task is woken while it prepares to wait.
\<close>

section \<open>Model\<close>

abbreviation (input) INT_MAX :: int where "INT_MAX \<equiv> 2147483647"

datatype sched_state = RUNNING_INTERRUPTIBLE | RUNNING_UNINTERRUPTIBLE | WAITING | STOPPED | EXITING

type_synonym wait_queue = "addr list"

record task =
  sched_state :: sched_state
  sched_ticks_remaining :: int
  unblock_result :: int
  wait_interruptible :: bool
  active_processor :: addr
  sig_mask :: u64
  sig_pending :: u64
  in_kernel :: bool
  should_stop :: bool
  should_exit :: bool

record processor =
  current_task :: addr
  idle_task :: addr
  sched_list :: addr
  sched_idle :: bool
  preemption_disabled_count :: int

record kernel =
  tasks :: "addr \<rightharpoonup> task"
  processors :: "addr \<rightharpoonup> processor"
  run_nodes :: list_mem
  ipis :: "addr list"  \<comment> \<open>processors that were sent an interrupt\<close>
  finalizer_queue :: "addr list"
  finalizer_waiters :: wait_queue

definition upd_task :: "addr \<Rightarrow> (task \<Rightarrow> task) \<Rightarrow> kernel \<Rightarrow> kernel option" where
  "upd_task t f k = do { tk \<leftarrow> tasks k t; Some (k\<lparr>tasks := (tasks k)(t \<mapsto> f tk)\<rparr>) }"

definition upd_processor :: "addr \<Rightarrow> (processor \<Rightarrow> processor) \<Rightarrow> kernel \<Rightarrow> kernel option" where
  "upd_processor p f k = do { pr \<leftarrow> processors k p; Some (k\<lparr>processors := (processors k)(p \<mapsto> f pr)\<rparr>) }"

subsection \<open>Run lists and task states\<close>

definition local_sched_add_task :: "addr \<Rightarrow> addr \<Rightarrow> addr \<Rightarrow> kernel \<Rightarrow> kernel option" where
  "local_sched_add_task cpu processor t k = do {
     p \<leftarrow> processors k processor;
     let k = (if t = current_task p then k\<lparr>run_nodes := list_append (sched_list p) t (run_nodes k)\<rparr>
              else k\<lparr>run_nodes := list_prepend (sched_list p) t (run_nodes k)\<rparr>);
     Some (if cpu \<noteq> processor \<and> sched_idle p then k\<lparr>ipis := ipis k @ [processor]\<rparr> else k)
   }"

definition local_sched_remove_task :: "addr \<Rightarrow> kernel \<Rightarrow> kernel option" where
  "local_sched_remove_task t k = Some (k\<lparr>run_nodes := list_remove t (run_nodes k)\<rparr>)"

definition task_set_state_to_waiting :: "addr \<Rightarrow> kernel \<Rightarrow> kernel option" where
  "task_set_state_to_waiting t k = do {
     k \<leftarrow> local_sched_remove_task t k;
     upd_task t (sched_state_update (\<lambda>_. WAITING)) k
   }"

definition task_set_state_to_running :: "addr \<Rightarrow> addr \<Rightarrow> addr \<Rightarrow> bool \<Rightarrow> kernel \<Rightarrow> kernel option" where
  "task_set_state_to_running cpu processor t interruptible k = do {
     k \<leftarrow> upd_task t (sched_state_update (\<lambda>_. if interruptible then RUNNING_INTERRUPTIBLE else RUNNING_UNINTERRUPTIBLE)) k;
     local_sched_add_task cpu processor t k
   }"

text \<open>The result says whether the task was waiting; the code never makes it true.\<close>

definition task_unblock :: "addr \<Rightarrow> addr \<Rightarrow> int \<Rightarrow> kernel \<Rightarrow> (bool \<times> kernel) option" where
  "task_unblock cpu t result k = do {
     let ret = False;
     tk \<leftarrow> tasks k t;
     if sched_state tk = WAITING then do {
       k \<leftarrow> upd_task t (\<lambda>tk. tk\<lparr>sched_ticks_remaining := 5, unblock_result := result, wait_interruptible := False\<rparr>) k;
       k \<leftarrow> task_set_state_to_running cpu (active_processor tk) t False k;
       let ret = False;
       Some (ret, k)
     } else Some (ret, k)
   }"

subsection \<open>Wait queues\<close>

definition init_wait_queue :: wait_queue where
  "init_wait_queue = []"

definition wait_queue_enqueue_entry :: "addr \<Rightarrow> wait_queue \<Rightarrow> wait_queue" where
  "wait_queue_enqueue_entry t wq = wq @ [t]"

definition wait_queue_dequeue_entry :: "addr \<Rightarrow> wait_queue \<Rightarrow> wait_queue" where
  "wait_queue_dequeue_entry t wq = remove1 t wq"

definition wait_queue_is_empty :: "wait_queue \<Rightarrow> bool" where
  "wait_queue_is_empty wq \<longleftrightarrow> wq = []"

fun wake_entries :: "addr \<Rightarrow> int \<Rightarrow> int \<Rightarrow> wait_queue \<Rightarrow> kernel \<Rightarrow> kernel option" where
  "wake_entries cpu n i [] k = Some k"
| "wake_entries cpu n i (t # ts) k =
     (if i \<ge> n then Some k
      else do {
        (woken, k) \<leftarrow> task_unblock cpu t 0 k;
        wake_entries cpu n (if woken then i + 1 else i) ts k
      })"

definition wake_up_n :: "addr \<Rightarrow> wait_queue \<Rightarrow> int \<Rightarrow> kernel \<Rightarrow> kernel option" where
  "wake_up_n cpu wq n k = wake_entries cpu n 0 wq k"

definition wake_up :: "addr \<Rightarrow> wait_queue \<Rightarrow> kernel \<Rightarrow> kernel option" where
  "wake_up cpu wq k = wake_up_n cpu wq 1 k"

definition wake_up_all :: "addr \<Rightarrow> wait_queue \<Rightarrow> kernel \<Rightarrow> kernel option" where
  "wake_up_all cpu wq k = wake_up_n cpu wq INT_MAX k"

subsection \<open>Stopping and exiting\<close>

definition task_stop :: "addr \<Rightarrow> kernel \<Rightarrow> kernel option" where
  "task_stop t k = do {
     k \<leftarrow> local_sched_remove_task t k;
     upd_task t (sched_state_update (\<lambda>_. STOPPED)) k
   }"

definition proc_schedule_task_for_destruction :: "addr \<Rightarrow> addr \<Rightarrow> kernel \<Rightarrow> kernel option" where
  "proc_schedule_task_for_destruction cpu t k =
     (let k = k\<lparr>finalizer_queue := t # finalizer_queue k\<rparr> in wake_up_all cpu (finalizer_waiters k) k)"

definition task_exit :: "addr \<Rightarrow> addr \<Rightarrow> kernel \<Rightarrow> kernel option" where
  "task_exit cpu t k = do {
     k \<leftarrow> local_sched_remove_task t k;
     k \<leftarrow> upd_task t (sched_state_update (\<lambda>_. EXITING)) k;
     proc_schedule_task_for_destruction cpu t k
   }"

definition task_set_state_to_stopped :: "addr \<Rightarrow> addr \<Rightarrow> kernel \<Rightarrow> kernel option" where
  "task_set_state_to_stopped cpu t k = do {
     tk \<leftarrow> tasks k t;
     if sched_state tk = STOPPED then Some k
     else if sched_state tk = WAITING \<and> wait_interruptible tk then map_option snd (task_unblock cpu t (- EINTR) k)
     else if in_kernel tk then upd_task t (should_stop_update (\<lambda>_. True)) k
     else task_stop t k
   }"

definition task_set_state_to_exiting :: "addr \<Rightarrow> addr \<Rightarrow> kernel \<Rightarrow> kernel option" where
  "task_set_state_to_exiting cpu t k = do {
     tk \<leftarrow> tasks k t;
     if sched_state tk = EXITING then Some k
     else if sched_state tk = WAITING \<and> wait_interruptible tk then map_option snd (task_unblock cpu t (- EINTR) k)
     else if in_kernel tk then upd_task t (should_exit_update (\<lambda>_. True)) k
     else task_exit cpu t k
   }"

subsection \<open>Pending signals\<close>

text \<open>The bit of a signal; a shift by 64 or more is undefined.\<close>

definition sig_bit :: "int \<Rightarrow> u64 option" where
  "sig_bit signum = (if 1 \<le> signum \<and> signum \<le> 64 then Some (push_bit (nat (signum - 1)) 1) else None)"

definition task_is_sig_blocked :: "task \<Rightarrow> int \<Rightarrow> bool option" where
  "task_is_sig_blocked tk signum = do {
     assert_that (signum \<ge> 1 \<and> signum < 65);
     b \<leftarrow> sig_bit signum;
     Some (sig_mask tk AND b \<noteq> 0)
   }"

definition task_is_sig_pending :: "task \<Rightarrow> int \<Rightarrow> bool option" where
  "task_is_sig_pending tk signum = do { b \<leftarrow> sig_bit signum; Some (sig_pending tk AND b \<noteq> 0) }"

definition task_set_sig_pending :: "addr \<Rightarrow> addr \<Rightarrow> int \<Rightarrow> kernel \<Rightarrow> kernel option" where
  "task_set_sig_pending cpu t signum k = do {
     b \<leftarrow> sig_bit signum;
     k \<leftarrow> upd_task t (\<lambda>tk. tk\<lparr>sig_pending := sig_pending tk OR b\<rparr>) k;
     tk \<leftarrow> tasks k t;
     blocked \<leftarrow> (if sched_state tk = WAITING \<and> wait_interruptible tk then task_is_sig_blocked tk signum else Some True);
     if \<not> blocked then map_option snd (task_unblock cpu t (- EINTR) k) else Some k
   }"

definition task_unset_sig_pending :: "addr \<Rightarrow> int \<Rightarrow> kernel \<Rightarrow> kernel option" where
  "task_unset_sig_pending t signum k = do {
     b \<leftarrow> sig_bit signum;
     upd_task t (\<lambda>tk. tk\<lparr>sig_pending := sig_pending tk AND NOT b\<rparr>) k
   }"

text \<open>The signal with the lowest number that is pending and not blocked.\<close>

fun next_sig_from :: "task \<Rightarrow> int list \<Rightarrow> int option" where
  "next_sig_from tk [] = Some (- 1)"
| "next_sig_from tk (i # is) = do {
     pending \<leftarrow> task_is_sig_pending tk i;
     blocked \<leftarrow> (if pending then task_is_sig_blocked tk i else Some True);
     if pending \<and> \<not> blocked then Some i else next_sig_from tk is
   }"

definition task_get_next_sig :: "task \<Rightarrow> int option" where
  "task_get_next_sig tk = (if sig_pending tk = 0 then Some (- 1) else next_sig_from tk [1..64])"

subsection \<open>Preemption and waiting\<close>

definition disable_preemption :: "addr \<Rightarrow> kernel \<Rightarrow> kernel option" where
  "disable_preemption cpu k = do {
     p \<leftarrow> processors k cpu;
     assert_that (preemption_disabled_count p \<ge> 0);
     upd_processor cpu (\<lambda>p. p\<lparr>preemption_disabled_count := preemption_disabled_count p + 1\<rparr>) k
   }"

definition do_enable_preemption :: "addr \<Rightarrow> kernel \<Rightarrow> kernel option" where
  "do_enable_preemption cpu k = do {
     p \<leftarrow> processors k cpu;
     assert_that (preemption_disabled_count p > 0);
     upd_processor cpu (\<lambda>p. p\<lparr>preemption_disabled_count := preemption_disabled_count p - 1\<rparr>) k
   }"

text \<open>Whether \<open>sched_maybe_yield\<close> calls \<open>sched_run_next\<close>, which does not return.\<close>

definition sched_maybe_yield :: "addr \<Rightarrow> kernel \<Rightarrow> bool option" where
  "sched_maybe_yield cpu k = do {
     p \<leftarrow> processors k cpu;
     tk \<leftarrow> tasks k (current_task p);
     Some (sched_ticks_remaining tk = 0 \<and> preemption_disabled_count p = 0)
   }"

definition enable_preemption :: "addr \<Rightarrow> kernel \<Rightarrow> kernel option" where
  "enable_preemption cpu k = do {
     k \<leftarrow> do_enable_preemption cpu k;
     yields \<leftarrow> sched_maybe_yield cpu k;
     if yields then None else Some k
   }"

definition wait_cancel :: "addr \<Rightarrow> addr \<Rightarrow> kernel \<Rightarrow> kernel option" where
  "wait_cancel cpu t k = do {
     k \<leftarrow> upd_task t (wait_interruptible_update (\<lambda>_. False)) k;
     tk \<leftarrow> tasks k t;
     k \<leftarrow> task_set_state_to_running cpu (active_processor tk) t False k;
     enable_preemption cpu k
   }"

text \<open>\<open>wait_prepare\<close>, up to the look at the pending signals and from there on.\<close>

definition wait_prepare_sleep :: "addr \<Rightarrow> addr \<Rightarrow> bool \<Rightarrow> kernel \<Rightarrow> kernel option" where
  "wait_prepare_sleep cpu t interruptible k = do {
     k \<leftarrow> disable_preemption cpu k;
     k \<leftarrow> upd_task t (wait_interruptible_update (\<lambda>_. interruptible)) k;
     task_set_state_to_waiting t k
   }"

definition wait_prepare_check :: "addr \<Rightarrow> addr \<Rightarrow> bool \<Rightarrow> kernel \<Rightarrow> (int \<times> kernel) option" where
  "wait_prepare_check cpu t interruptible k =
     (if interruptible then do {
        tk \<leftarrow> tasks k t;
        sig \<leftarrow> task_get_next_sig tk;
        if sig \<noteq> - 1 then do { k \<leftarrow> wait_cancel cpu t k; Some (- EINTR, k) } else Some (0, k)
      } else Some (0, k))"

definition wait_prepare :: "addr \<Rightarrow> addr \<Rightarrow> bool \<Rightarrow> kernel \<Rightarrow> (int \<times> kernel) option" where
  "wait_prepare cpu t interruptible k = do {
     k \<leftarrow> wait_prepare_sleep cpu t interruptible k;
     wait_prepare_check cpu t interruptible k
   }"

text \<open>
  One round of the macro \<open>___wait_for\<close>: the task returns from the wait, or blocks until it is scheduled again.
  \<open>queue_task\<close> says that it has no entry in the queue yet. The condition is looked at after the task is
  marked as waiting; the caller holds the lock that protects it.
\<close>

datatype wait_step = Wait_returns int | Wait_blocks

definition wait_for_leave :: "addr \<Rightarrow> bool \<Rightarrow> wait_queue \<Rightarrow> wait_queue" where
  "wait_for_leave t queue_task wq = (if queue_task then wq else wait_queue_dequeue_entry t wq)"

definition wait_for_round ::
  "addr \<Rightarrow> addr \<Rightarrow> bool \<Rightarrow> bool \<Rightarrow> bool \<Rightarrow> wait_queue \<Rightarrow> kernel \<Rightarrow> (wait_step \<times> wait_queue \<times> kernel) option" where
  "wait_for_round cpu t queue_task cond interruptible wq k = do {
     (ret, k) \<leftarrow> wait_prepare cpu t interruptible k;
     if ret \<noteq> 0 then Some (Wait_returns ret, wait_for_leave t queue_task wq, k)
     else if cond then do {
       k \<leftarrow> wait_cancel cpu t k;
       Some (Wait_returns ret, wait_for_leave t queue_task wq, k)
     } else do {
       let wq = (if queue_task then wait_queue_enqueue_entry t wq else wq);
       k \<leftarrow> do_enable_preemption cpu k;
       Some (Wait_blocks, wq, k)
     }
   }"

text \<open>What \<open>do_block\<close> returns to the task that runs again, and the next round.\<close>

definition wait_for_resume ::
  "addr \<Rightarrow> addr \<Rightarrow> bool \<Rightarrow> bool \<Rightarrow> wait_queue \<Rightarrow> kernel \<Rightarrow> (wait_step \<times> wait_queue \<times> kernel) option" where
  "wait_for_resume cpu t cond interruptible wq k = do {
     tk \<leftarrow> tasks k t;
     if unblock_result tk \<noteq> 0 then Some (Wait_returns (unblock_result tk), wait_for_leave t False wq, k)
     else wait_for_round cpu t False cond interruptible wq k
   }"

subsection \<open>Picking the next task\<close>

text \<open>\<open>sched_run_next\<close> up to the delivery of signals.\<close>

definition sched_pick_next :: "addr \<Rightarrow> kernel \<Rightarrow> (addr \<times> kernel) option" where
  "sched_pick_next cpu k = do {
     p \<leftarrow> processors k cpu;
     let first = list_first_entry (sched_list p) (run_nodes k);
     (to_run, k) \<leftarrow> (case first of
         Some t \<Rightarrow> do {
           let k = k\<lparr>run_nodes := list_append (sched_list p) t (list_remove t (run_nodes k))\<rparr>;
           k \<leftarrow> upd_processor cpu (sched_idle_update (\<lambda>_. False)) k;
           Some (t, k)
         }
       | None \<Rightarrow> do {
           k \<leftarrow> upd_processor cpu (sched_idle_update (\<lambda>_. True)) k;
           Some (idle_task p, k)
         });
     k \<leftarrow> upd_task to_run (sched_ticks_remaining_update (\<lambda>_. 5)) k;
     tk \<leftarrow> tasks k to_run;
     assert_that (sched_state tk \<noteq> WAITING \<and> sched_state tk \<noteq> STOPPED \<and> sched_state tk \<noteq> EXITING);
     Some (to_run, k)
   }"

definition set_current_task :: "addr \<Rightarrow> addr \<Rightarrow> kernel \<Rightarrow> kernel option" where
  "set_current_task cpu t k = upd_processor cpu (current_task_update (\<lambda>_. t)) k"

text \<open>The scheduler's tick: whether the processor then picks another task.\<close>

definition sched_tick :: "addr \<Rightarrow> kernel \<Rightarrow> (bool \<times> kernel) option" where
  "sched_tick cpu k = do {
     p \<leftarrow> processors k cpu;
     k \<leftarrow> upd_task (current_task p) (\<lambda>tk. if sched_ticks_remaining tk \<noteq> 0
            then tk\<lparr>sched_ticks_remaining := sched_ticks_remaining tk - 1\<rparr> else tk) k;
     yields \<leftarrow> sched_maybe_yield cpu k;
     Some (yields, k)
   }"


section \<open>Run lists and task states agree\<close>

definition running :: "task \<Rightarrow> bool" where
  "running tk \<longleftrightarrow> sched_state tk = RUNNING_INTERRUPTIBLE \<or> sched_state tk = RUNNING_UNINTERRUPTIBLE"

definition idles :: "kernel \<Rightarrow> addr set" where
  "idles k = {idle_task pr | p pr. processors k p = Some pr}"

definition runnable_on :: "kernel \<Rightarrow> addr \<Rightarrow> addr set" where
  "runnable_on k p = {t. t \<notin> idles k \<and> (\<exists>tk. tasks k t = Some tk \<and> running tk \<and> active_processor tk = p)}"

text \<open>
  The run list of every processor is well linked and holds exactly its runnable tasks, each once; an idle
  task is in none of them and can always run.
\<close>

definition heads_ok :: "kernel \<Rightarrow> bool" where
  "heads_ok k \<longleftrightarrow>
     (\<forall>p pr. processors k p = Some pr \<longrightarrow> tasks k (sched_list pr) = None) \<and>
     (\<forall>p p' pr pr'. processors k p = Some pr \<longrightarrow> processors k p' = Some pr' \<longrightarrow> p \<noteq> p' \<longrightarrow> sched_list pr \<noteq> sched_list pr') \<and>
     (\<forall>p pr. processors k p = Some pr \<longrightarrow> (\<exists>tk. tasks k (idle_task pr) = Some tk \<and> running tk)) \<and>
     (\<forall>t tk. tasks k t = Some tk \<longrightarrow> (\<exists>pr. processors k (active_processor tk) = Some pr))"

definition sched_inv :: "kernel \<Rightarrow> bool" where
  "sched_inv k \<longleftrightarrow> heads_ok k \<and>
     (\<forall>p pr. processors k p = Some pr \<longrightarrow>
        (\<exists>xs. is_list (run_nodes k) (sched_list pr) xs \<and> set xs = runnable_on k p))"

lemma heads_okD:
  assumes "heads_ok k"
  shows "processors k p = Some pr \<Longrightarrow> tasks k (sched_list pr) = None"
    and "processors k p = Some pr \<Longrightarrow> processors k p' = Some pr' \<Longrightarrow> p \<noteq> p' \<Longrightarrow> sched_list pr \<noteq> sched_list pr'"
    and "processors k p = Some pr \<Longrightarrow> \<exists>tk. tasks k (idle_task pr) = Some tk \<and> running tk"
    and "tasks k t = Some tk \<Longrightarrow> \<exists>pr. processors k (active_processor tk) = Some pr"
  using assms unfolding heads_ok_def by blast+

lemma running_simps [simp]:
  "sched_state tk = WAITING \<Longrightarrow> \<not> running tk" "running (tk\<lparr>sched_ticks_remaining := n\<rparr>) = running tk"
  "running (tk\<lparr>sched_state := s\<rparr>) \<longleftrightarrow> s = RUNNING_INTERRUPTIBLE \<or> s = RUNNING_UNINTERRUPTIBLE"
  "running (tk\<lparr>wait_interruptible := b\<rparr>) = running tk" "running (tk\<lparr>sig_pending := w\<rparr>) = running tk"
  "running (tk\<lparr>unblock_result := n\<rparr>) = running tk"
  by (simp_all add: running_def)

lemma runnable_not_head:
  "heads_ok k \<Longrightarrow> processors k p = Some pr \<Longrightarrow> sched_list pr \<notin> runnable_on k p'"
  by (auto simp: runnable_on_def dest: heads_okD(1))

lemma runnable_apart: "p \<noteq> p' \<Longrightarrow> runnable_on k p \<inter> runnable_on k p' = {}"
  by (auto simp: runnable_on_def)

lemma runnable_cong:
  assumes "idles k' = idles k" and "\<And>t. t \<notin> idles k \<Longrightarrow>
    (\<exists>tk. tasks k' t = Some tk \<and> running tk \<and> active_processor tk = p) \<longleftrightarrow>
    (\<exists>tk. tasks k t = Some tk \<and> running tk \<and> active_processor tk = p)"
  shows "runnable_on k' p = runnable_on k p"
  using assms by (auto simp: runnable_on_def)

lemma idles_upd [simp]: "idles (k\<lparr>run_nodes := m\<rparr>) = idles k" "idles (k\<lparr>tasks := ts\<rparr>) = idles k"
  "idles (k\<lparr>ipis := is\<rparr>) = idles k" "idles (k\<lparr>finalizer_queue := fq\<rparr>) = idles k"
  by (simp_all add: idles_def)

lemma runnable_upd [simp]: "runnable_on (k\<lparr>run_nodes := m\<rparr>) p = runnable_on k p"
  "runnable_on (k\<lparr>ipis := is\<rparr>) p = runnable_on k p"
  by (simp_all add: runnable_on_def)

lemma idle_in: "processors k p = Some pr \<Longrightarrow> idle_task pr \<in> idles k"
  by (auto simp: idles_def)

lemma heads_ok_upd [simp]: "heads_ok (k\<lparr>run_nodes := m\<rparr>) = heads_ok k" "heads_ok (k\<lparr>ipis := is\<rparr>) = heads_ok k"
  by (simp_all add: heads_ok_def)

lemma heads_ok_task:
  assumes "heads_ok k" "tasks k t = Some tk" "active_processor tk' = active_processor tk" "t \<in> idles k \<Longrightarrow> running tk'"
  shows "heads_ok (k\<lparr>tasks := (tasks k)(t \<mapsto> tk')\<rparr>)"
proof -
  have "tasks k (sched_list pr) = None \<and> sched_list pr \<noteq> t" if "processors k p = Some pr" for p pr
    using heads_okD(1) [OF assms(1) that] assms(2) by auto
  moreover have "\<exists>u. ((tasks k)(t \<mapsto> tk')) (idle_task pr) = Some u \<and> running u" if "processors k p = Some pr" for p pr
    using heads_okD(3) [OF assms(1) that] assms(4) idle_in [OF that] by auto
  moreover have "\<exists>pr. processors k (active_processor u) = Some pr" if "((tasks k)(t \<mapsto> tk')) s = Some u" for s u
    using that heads_okD(4) [OF assms(1)] assms(2,3) by (cases "s = t") auto
  ultimately show ?thesis
    using heads_okD(2) [OF assms(1)] unfolding heads_ok_def by (intro conjI allI impI) auto
qed

lemma sched_invD:
  assumes "sched_inv k"
  shows "heads_ok k" and "processors k p = Some pr \<Longrightarrow>
    \<exists>xs. is_list (run_nodes k) (sched_list pr) xs \<and> set xs = runnable_on k p"
  using assms by (simp_all add: sched_inv_def)

lemma lists_apart:
  assumes "heads_ok k" "processors k p = Some q" "processors k p' = Some pr" "p \<noteq> p'"
    and "set ws = runnable_on k p" "set xs = runnable_on k p'"
  shows "set (sched_list q # ws) \<inter> set (sched_list pr # xs) = {}"
  using assms(5,6) runnable_apart [OF assms(4)] runnable_not_head [OF assms(1,2)] runnable_not_head [OF assms(1,3)]
    heads_okD(2) [OF assms(1-4)] by auto

text \<open>A change of the fields that neither the run lists nor the idle tasks depend on.\<close>

lemma sched_inv_task:
  assumes "sched_inv k" "tasks k t = Some tk" "running tk' = running tk" "active_processor tk' = active_processor tk"
  shows "sched_inv (k\<lparr>tasks := (tasks k)(t \<mapsto> tk')\<rparr>)"
proof -
  let ?k = "k\<lparr>tasks := (tasks k)(t \<mapsto> tk')\<rparr>"
  have h: "heads_ok k" by (rule sched_invD(1) [OF assms(1)])
  have "running tk'" if "t \<in> idles k" using that heads_okD(3) [OF h] assms(2,3) unfolding idles_def by force
  then have "heads_ok ?k" by (rule heads_ok_task [OF h assms(2,4)])
  moreover have "runnable_on ?k p = runnable_on k p" for p
    using assms(2-) by (intro runnable_cong) auto
  ultimately show ?thesis using assms(1) by (simp add: sched_inv_def)
qed

lemma sched_inv_processor:
  assumes "sched_inv k" "processors k p = Some pr" "sched_list pr' = sched_list pr" "idle_task pr' = idle_task pr"
  shows "sched_inv (k\<lparr>processors := (processors k)(p \<mapsto> pr')\<rparr>)"
    and "idles (k\<lparr>processors := (processors k)(p \<mapsto> pr')\<rparr>) = idles k"
proof -
  let ?k = "k\<lparr>processors := (processors k)(p \<mapsto> pr')\<rparr>"
  have h: "heads_ok k" by (rule sched_invD(1) [OF assms(1)])
  have old: "\<exists>u. processors k q = Some u \<and> sched_list u = sched_list v \<and> idle_task u = idle_task v"
    if "processors ?k q = Some v" for q v using that assms(2-) by (cases "q = p") auto
  have new: "\<exists>v. processors ?k q = Some v \<and> idle_task u = idle_task v" if "processors k q = Some u" for q u
    using that assms(2-) by (cases "q = p") auto
  show i: "idles ?k = idles k"
  proof (rule set_eqI)
    fix t
    show "t \<in> idles ?k \<longleftrightarrow> t \<in> idles k" unfolding idles_def mem_Collect_eq using old new by metis
  qed
  have "heads_ok ?k"
    unfolding heads_ok_def
  proof (intro conjI allI impI)
    fix q v assume v: "processors ?k q = Some v"
    obtain u where u: "processors k q = Some u" "sched_list u = sched_list v" "idle_task u = idle_task v"
      using old [OF v] by blast
    show "tasks ?k (sched_list v) = None" using heads_okD(1) [OF h u(1)] u by simp
    show "\<exists>tk. tasks ?k (idle_task v) = Some tk \<and> running tk" using heads_okD(3) [OF h u(1)] u by simp
    fix q' v' assume v': "processors ?k q' = Some v'" "q \<noteq> q'"
    obtain u' where "processors k q' = Some u'" "sched_list u' = sched_list v'" using old [OF v'(1)] by blast
    then show "sched_list v \<noteq> sched_list v'" using heads_okD(2) [OF h u(1) _ v'(2)] u by metis
  next
    fix t tk assume "tasks ?k t = Some tk"
    then obtain u where "processors k (active_processor tk) = Some u" using heads_okD(4) [OF h] by auto
    then show "\<exists>pr. processors ?k (active_processor tk) = Some pr" using new by blast
  qed
  moreover have "runnable_on ?k q = runnable_on k q" for q
    using i by (intro runnable_cong) auto
  ultimately show "sched_inv ?k" using assms by (simp add: sched_inv_def)
qed

text \<open>Putting a task to sleep takes it off its run list; making it run puts it back.\<close>

lemma task_to_waiting:
  assumes "sched_inv k" "tasks k t = Some tk" "running tk" "t \<notin> idles k"
  shows "\<exists>k'. task_set_state_to_waiting t k = Some k' \<and> sched_inv k' \<and>
    tasks k' = (tasks k)(t \<mapsto> tk\<lparr>sched_state := WAITING\<rparr>) \<and> processors k' = processors k"
proof -
  let ?m = "list_remove t (run_nodes k)" and ?ts = "(tasks k)(t \<mapsto> tk\<lparr>sched_state := WAITING\<rparr>)"
  let ?k = "k\<lparr>run_nodes := ?m, tasks := ?ts\<rparr>" and ?a = "active_processor tk"
  have h: "heads_ok k" by (rule sched_invD(1) [OF assms(1)])
  have "heads_ok (k\<lparr>tasks := ?ts\<rparr>)" using assms(4) by (intro heads_ok_task [OF h assms(2)]) auto
  then have h': "heads_ok ?k" by (simp add: heads_ok_def)
  obtain pr where pr: "processors k ?a = Some pr" using heads_okD(4) [OF h assms(2)] by blast
  obtain xs where xs: "is_list (run_nodes k) (sched_list pr) xs" "set xs = runnable_on k ?a"
    using sched_invD(2) [OF assms(1) pr] by blast
  have "t \<in> set xs" using assms(2-) xs(2) by (simp add: runnable_on_def)
  then obtain ys zs where sp: "xs = ys @ t # zs" by (metis split_list)
  have r: "runnable_on ?k p = runnable_on k p - {t}" for p
    using assms(2-) by (auto simp: runnable_on_def)
  have "\<exists>xs. is_list ?m (sched_list q) xs \<and> set xs = runnable_on ?k p" if q: "processors k p = Some q" for p q
  proof (cases "p = ?a")
    case True
    then have "q = pr" using q pr by simp
    moreover have "is_list ?m (sched_list pr) (ys @ zs)" using list_remove_spec xs(1) sp by blast
    moreover have "set (ys @ zs) = runnable_on k ?a - {t}" using xs sp by (auto simp: is_list_def)
    ultimately show ?thesis using True r by metis
  next
    case False
    obtain ws where ws: "is_list (run_nodes k) (sched_list q) ws" "set ws = runnable_on k p"
      using sched_invD(2) [OF assms(1) q] by blast
    have "set (sched_list q # ws) \<inter> set (sched_list pr # ys @ t # zs) = {}"
      using lists_apart [OF h q pr False ws(2) xs(2)] sp by simp
    then have "is_list ?m (sched_list q) ws" using list_remove_frame ws(1) xs(1) sp by blast
    moreover have "t \<notin> runnable_on k p" using assms(2) False by (auto simp: runnable_on_def)
    ultimately show ?thesis using ws(2) r by blast
  qed
  then have "sched_inv ?k" using h' by (simp add: sched_inv_def)
  then show ?thesis
    using assms(2) by (auto simp: task_set_state_to_waiting_def local_sched_remove_task_def upd_task_def)
qed

lemma task_to_running:
  assumes "sched_inv k" "tasks k t = Some tk" "\<not> running tk" "t \<notin> idles k"
  shows "\<exists>k'. task_set_state_to_running cpu (active_processor tk) t b k = Some k' \<and> sched_inv k' \<and>
    tasks k' = (tasks k)(t \<mapsto> tk\<lparr>sched_state := if b then RUNNING_INTERRUPTIBLE else RUNNING_UNINTERRUPTIBLE\<rparr>) \<and>
    processors k' = processors k"
proof -
  let ?s = "if b then RUNNING_INTERRUPTIBLE else RUNNING_UNINTERRUPTIBLE"
  let ?ts = "(tasks k)(t \<mapsto> tk\<lparr>sched_state := ?s\<rparr>)" and ?a = "active_processor tk"
  have h: "heads_ok k" by (rule sched_invD(1) [OF assms(1)])
  obtain pr where pr: "processors k ?a = Some pr" using heads_okD(4) [OF h assms(2)] by blast
  define m where "m = (if t = current_task pr then list_append (sched_list pr) t (run_nodes k)
    else list_prepend (sched_list pr) t (run_nodes k))"
  define k' where "k' = k\<lparr>tasks := ?ts, run_nodes := m\<rparr>"
  define l where "l = (if cpu \<noteq> ?a \<and> sched_idle pr then ipis k @ [?a] else ipis k)"
  have "heads_ok (k\<lparr>tasks := ?ts\<rparr>)" using assms(4) by (intro heads_ok_task [OF h assms(2)]) auto
  then have h': "heads_ok k'" by (simp add: k'_def)
  obtain xs where xs: "is_list (run_nodes k) (sched_list pr) xs" "set xs = runnable_on k ?a"
    using sched_invD(2) [OF assms(1) pr] by blast
  have nh: "t \<noteq> sched_list q" if "processors k p = Some q" for p q
    using heads_okD(1) [OF h that] assms(2) by auto
  have t: "t \<notin> runnable_on k p" for p using assms(2,3) by (auto simp: runnable_on_def)
  have r: "runnable_on k' p = (if p = ?a then insert t (runnable_on k p) else runnable_on k p)" for p
    using assms(2-) by (auto simp: runnable_on_def k'_def)
  have "\<exists>xs. is_list m (sched_list q) xs \<and> set xs = runnable_on k' p" if q: "processors k p = Some q" for p q
  proof (cases "p = ?a")
    case True
    then have [simp]: "q = pr" using q pr by simp
    have "t \<notin> set (sched_list pr # xs)" using t [of ?a] xs(2) nh [OF pr] by simp
    then have "is_list m (sched_list pr) (if t = current_task pr then xs @ [t] else t # xs)"
      using list_append_spec [OF xs(1)] list_prepend_spec [OF xs(1)] by (auto simp: m_def)
    then show ?thesis using r [of p] True xs(2) by (intro exI [of _ "if t = current_task pr then xs @ [t] else t # xs"]) simp
  next
    case False
    obtain ws where ws: "is_list (run_nodes k) (sched_list q) ws" "set ws = runnable_on k p"
      using sched_invD(2) [OF assms(1) q] by blast
    have "set (sched_list q # ws) \<inter> set (sched_list pr # xs) = {}"
      by (rule lists_apart [OF h q pr False ws(2) xs(2)])
    moreover have "t \<notin> set (sched_list pr # xs)" "t \<notin> set (sched_list q # ws)"
      using t [of ?a] t [of p] xs(2) ws(2) nh [OF pr] nh [OF q] by simp_all
    ultimately have "is_list m (sched_list q) ws" using list_frame [OF xs(1) _ ws(1)] by (auto simp: m_def)
    then show ?thesis using ws(2) r [of p] False by auto
  qed
  then have "sched_inv k'" using h' by (simp add: sched_inv_def k'_def)
  then have "sched_inv (k'\<lparr>ipis := l\<rparr>)" by (simp add: sched_inv_def heads_ok_def)
  moreover have "task_set_state_to_running cpu ?a t b k = Some (k'\<lparr>ipis := l\<rparr>)"
    using assms(2) pr
    by (simp add: task_set_state_to_running_def upd_task_def local_sched_add_task_def k'_def m_def l_def)
  ultimately show ?thesis by (simp add: k'_def)
qed


section \<open>Waking and waiting\<close>

definition woken :: "int \<Rightarrow> task \<Rightarrow> task" where
  "woken result tk = tk\<lparr>sched_ticks_remaining := 5, unblock_result := result, wait_interruptible := False,
     sched_state := RUNNING_UNINTERRUPTIBLE\<rparr>"

definition asleep :: "bool \<Rightarrow> task \<Rightarrow> task" where
  "asleep interruptible tk = tk\<lparr>wait_interruptible := interruptible, sched_state := WAITING\<rparr>"

definition awake :: "task \<Rightarrow> task" where
  "awake tk = tk\<lparr>wait_interruptible := False, sched_state := RUNNING_UNINTERRUPTIBLE\<rparr>"

lemma running_changed [simp]: "running (woken r tk)" "\<not> running (asleep b tk)" "running (awake tk)"
  by (simp_all add: woken_def asleep_def awake_def)

lemma task_changes [simp]:
  "sched_state (woken r tk) = RUNNING_UNINTERRUPTIBLE" "unblock_result (woken r tk) = r"
  "sched_ticks_remaining (woken r tk) = 5" "active_processor (woken r tk) = active_processor tk"
  "wait_interruptible (woken r tk) = False" "sched_state (asleep b tk) = WAITING"
  "wait_interruptible (asleep b tk) = b" "unblock_result (asleep b tk) = unblock_result tk"
  "sched_ticks_remaining (asleep b tk) = sched_ticks_remaining tk" "active_processor (asleep b tk) = active_processor tk"
  "sched_state (awake tk) = RUNNING_UNINTERRUPTIBLE" "unblock_result (awake tk) = unblock_result tk"
  "sched_ticks_remaining (awake tk) = sched_ticks_remaining tk" "active_processor (awake tk) = active_processor tk"
  "wait_interruptible (awake tk) = False" "awake (asleep b tk) = awake tk"
  by (simp_all add: woken_def asleep_def awake_def)

lemma task_unblock_waiting:
  assumes "sched_inv k" "tasks k t = Some tk" "sched_state tk = WAITING" "t \<notin> idles k"
  shows "\<exists>k'. task_unblock cpu t r k = Some (False, k') \<and> sched_inv k' \<and>
    tasks k' = (tasks k)(t \<mapsto> woken r tk) \<and> processors k' = processors k"
proof -
  let ?tk = "tk\<lparr>sched_ticks_remaining := 5, unblock_result := r, wait_interruptible := False\<rparr>"
  let ?k = "k\<lparr>tasks := (tasks k)(t \<mapsto> ?tk)\<rparr>"
  have "sched_inv ?k" by (rule sched_inv_task [OF assms(1,2)]) simp_all
  then have "\<exists>k'. task_set_state_to_running cpu (active_processor ?tk) t False ?k = Some k' \<and> sched_inv k' \<and>
      tasks k' = (tasks ?k)(t \<mapsto> ?tk\<lparr>sched_state := RUNNING_UNINTERRUPTIBLE\<rparr>) \<and> processors k' = processors ?k"
    using task_to_running [of ?k t ?tk cpu False] assms(3,4) by (simp add: running_def)
  then show ?thesis
    using assms(2,3) by (auto simp: task_unblock_def upd_task_def woken_def fun_upd_idem_iff)
qed

lemma task_unblock_other:
  "tasks k t = Some tk \<Longrightarrow> sched_state tk \<noteq> WAITING \<Longrightarrow> task_unblock cpu t r k = Some (False, k)"
  by (simp add: task_unblock_def)

text \<open>All waiting tasks of a queue are woken, whatever number is asked for.\<close>

definition wake_tasks :: "wait_queue \<Rightarrow> (addr \<rightharpoonup> task) \<Rightarrow> addr \<rightharpoonup> task" where
  "wake_tasks wq ts t = map_option (\<lambda>tk. if t \<in> set wq \<and> sched_state tk = WAITING then woken 0 tk else tk) (ts t)"

lemma wake_tasks_Cons:
  "ts t = Some tk \<Longrightarrow> wake_tasks (t # wq) ts =
     wake_tasks wq (if sched_state tk = WAITING then ts(t \<mapsto> woken 0 tk) else ts)"
proof (rule ext)
  fix x assume "ts t = Some tk"
  then show "wake_tasks (t # wq) ts x = wake_tasks wq (if sched_state tk = WAITING then ts(t \<mapsto> woken 0 tk) else ts) x"
    by (cases "x = t") (auto simp: wake_tasks_def)
qed

lemma wake_tasks_dom: "wake_tasks wq ts t = None \<longleftrightarrow> ts t = None"
  by (simp add: wake_tasks_def)

lemma idles_eq: "processors k' = processors k \<Longrightarrow> idles k' = idles k"
  by (simp add: idles_def)

lemma wake_up_n_wakes_all:
  assumes "sched_inv k" "n > 0" "\<forall>t \<in> set wq. t \<in> dom (tasks k) \<and> t \<notin> idles k"
  shows "\<exists>k'. wake_up_n cpu wq n k = Some k' \<and> sched_inv k' \<and>
    tasks k' = wake_tasks wq (tasks k) \<and> processors k' = processors k"
proof -
  have "\<exists>k'. wake_entries cpu n 0 wq k = Some k' \<and> sched_inv k' \<and>
    tasks k' = wake_tasks wq (tasks k) \<and> processors k' = processors k"
    using assms(1,3)
  proof (induction wq arbitrary: k)
    case Nil
    then show ?case by (auto simp: wake_tasks_def option.map_ident)
  next
    case (Cons t ts)
    then obtain tk where tk: "tasks k t = Some tk" and t: "t \<notin> idles k" by auto
    define k1 where "k1 = (if sched_state tk = WAITING then snd (the (task_unblock cpu t 0 k)) else k)"
    have k1: "task_unblock cpu t 0 k = Some (False, k1)" "sched_inv k1" "processors k1 = processors k"
      "tasks k1 = (if sched_state tk = WAITING then (tasks k)(t \<mapsto> woken 0 tk) else tasks k)"
      using task_unblock_waiting [OF Cons.prems(1) tk _ t, of cpu 0] task_unblock_other [OF tk, of cpu 0] Cons.prems(1)
      by (auto simp: k1_def)
    have "\<forall>t \<in> set ts. t \<in> dom (tasks k1) \<and> t \<notin> idles k1"
      using Cons.prems(2) k1(4) idles_eq [OF k1(3)] by auto
    from Cons.IH [OF k1(2) this] obtain k' where "wake_entries cpu n 0 ts k1 = Some k'" "sched_inv k'"
      "tasks k' = wake_tasks ts (tasks k1)" "processors k' = processors k1" by blast
    then show ?case using assms(2) k1 wake_tasks_Cons [of "tasks k", OF tk] by (simp del: fun_upd_apply)
  qed
  then show ?thesis by (simp add: wake_up_n_def)
qed


lemma count_upd:
  assumes "sched_inv k" "processors k cpu = Some pr"
  shows "sched_inv (k\<lparr>processors := (processors k)(cpu \<mapsto> pr\<lparr>preemption_disabled_count := n\<rparr>)\<rparr>)"
    "idles (k\<lparr>processors := (processors k)(cpu \<mapsto> pr\<lparr>preemption_disabled_count := n\<rparr>)\<rparr>) = idles k"
  using sched_inv_processor [OF assms] by simp_all

lemma wait_prepare_sleeps:
  assumes "sched_inv k" "tasks k t = Some tk" "running tk" "t \<notin> idles k"
    and "processors k cpu = Some pr" "preemption_disabled_count pr \<ge> 0"
  shows "\<exists>k'. wait_prepare_sleep cpu t b k = Some k' \<and> sched_inv k' \<and> tasks k' = (tasks k)(t \<mapsto> asleep b tk) \<and>
    processors k' = (processors k)(cpu \<mapsto> pr\<lparr>preemption_disabled_count := preemption_disabled_count pr + 1\<rparr>)"
proof -
  let ?n = "preemption_disabled_count pr + 1" and ?tk = "tk\<lparr>wait_interruptible := b\<rparr>"
  define k1 where "k1 = k\<lparr>processors := (processors k)(cpu \<mapsto> pr\<lparr>preemption_disabled_count := ?n\<rparr>)\<rparr>"
  define k2 where "k2 = k1\<lparr>tasks := (tasks k)(t \<mapsto> ?tk)\<rparr>"
  have k1: "sched_inv k1" "idles k1 = idles k" using count_upd [OF assms(1,5)] by (simp_all add: k1_def)
  have "sched_inv (k1\<lparr>tasks := (tasks k1)(t \<mapsto> ?tk)\<rparr>)"
    by (rule sched_inv_task [OF k1(1)]) (use assms(2) in \<open>simp_all add: k1_def\<close>)
  then have k2: "sched_inv k2" "idles k2 = idles k" "tasks k2 t = Some ?tk"
    using k1(2) by (simp_all add: k2_def k1_def)
  have "running ?tk" "t \<notin> idles k2" using assms(3,4) k2(2) by simp_all
  from task_to_waiting [OF k2(1,3) this] obtain k' where
    "task_set_state_to_waiting t k2 = Some k'" "sched_inv k'"
    "tasks k' = (tasks k2)(t \<mapsto> ?tk\<lparr>sched_state := WAITING\<rparr>)" "processors k' = processors k2" by blast
  then show ?thesis using assms(2,5,6)
    by (auto simp: wait_prepare_sleep_def disable_preemption_def upd_processor_def upd_task_def k2_def k1_def asleep_def)
qed

lemma wait_cancel_wakes:
  assumes "sched_inv k" "tasks k t = Some tk" "sched_state tk = WAITING" "t \<notin> idles k"
    and "processors k cpu = Some pr" "preemption_disabled_count pr > 0" "current_task pr = t" "sched_ticks_remaining tk \<noteq> 0"
  shows "\<exists>k'. wait_cancel cpu t k = Some k' \<and> sched_inv k' \<and> tasks k' = (tasks k)(t \<mapsto> awake tk) \<and>
    processors k' = (processors k)(cpu \<mapsto> pr\<lparr>preemption_disabled_count := preemption_disabled_count pr - 1\<rparr>)"
proof -
  let ?tk = "tk\<lparr>wait_interruptible := False\<rparr>" and ?n = "preemption_disabled_count pr - 1"
  define k1 where "k1 = k\<lparr>tasks := (tasks k)(t \<mapsto> ?tk)\<rparr>"
  have k1: "sched_inv k1" unfolding k1_def by (rule sched_inv_task [OF assms(1,2)]) simp_all
  have "tasks k1 t = Some ?tk" "\<not> running ?tk" "t \<notin> idles k1" using assms(3,4) by (simp_all add: k1_def running_def)
  from task_to_running [OF k1 this, of cpu False] obtain k2 where k2:
    "task_set_state_to_running cpu (active_processor ?tk) t False k1 = Some k2" "sched_inv k2"
    "tasks k2 = (tasks k1)(t \<mapsto> ?tk\<lparr>sched_state := RUNNING_UNINTERRUPTIBLE\<rparr>)" "processors k2 = processors k1"
    by auto
  have p: "processors k2 cpu = Some pr" using k2(4) assms(5) by (simp add: k1_def)
  define k3 where "k3 = k2\<lparr>processors := (processors k2)(cpu \<mapsto> pr\<lparr>preemption_disabled_count := ?n\<rparr>)\<rparr>"
  have "sched_inv k3" using count_upd [OF k2(2) p] by (simp add: k3_def)
  moreover have "wait_cancel cpu t k = Some k3"
    using assms(2,6-8) k2(1,3) p
    by (simp add: wait_cancel_def upd_task_def k1_def [symmetric] enable_preemption_def do_enable_preemption_def
        upd_processor_def k3_def sched_maybe_yield_def) (simp add: k1_def)
  ultimately show ?thesis using k2(3,4) by (auto simp: k3_def k1_def awake_def)
qed

text \<open>One uninterruptible round: the task goes on if the condition holds and sleeps otherwise.\<close>

lemma wait_for_round_spec:
  assumes "sched_inv k" "tasks k t = Some tk" "running tk" "t \<notin> idles k"
    and "processors k cpu = Some pr" "preemption_disabled_count pr = 0" "current_task pr = t" "sched_ticks_remaining tk \<noteq> 0"
  shows "\<exists>k'. wait_for_round cpu t q cond False wq k =
      Some (if cond then (Wait_returns 0, wait_for_leave t q wq, k')
            else (Wait_blocks, if q then wq @ [t] else wq, k')) \<and>
    sched_inv k' \<and> tasks k' = (tasks k)(t \<mapsto> if cond then awake tk else asleep False tk) \<and> processors k' = processors k"
proof -
  obtain k1 where k1: "wait_prepare_sleep cpu t False k = Some k1" "sched_inv k1"
    "tasks k1 = (tasks k)(t \<mapsto> asleep False tk)" "processors k1 = (processors k)(cpu \<mapsto> pr\<lparr>preemption_disabled_count := 1\<rparr>)"
    using wait_prepare_sleeps [OF assms(1-5), of False] assms(6) by auto
  let ?pr = "pr\<lparr>preemption_disabled_count := 1\<rparr>"
  have p1: "processors k1 cpu = Some ?pr" "(processors k)(cpu \<mapsto> pr\<lparr>preemption_disabled_count := 0\<rparr>) = processors k"
    using k1(4) assms(5,6) by (simp_all add: fun_upd_idem)
  have "idles k1 = idles k"
    using sched_inv_processor(2) [OF assms(1,5), of ?pr] k1(4) by (simp add: idles_def)
  then have i: "t \<notin> idles k1" using assms(4) by simp
  show ?thesis
  proof (cases cond)
    case True
    obtain k2 where "wait_cancel cpu t k1 = Some k2" "sched_inv k2" "tasks k2 = (tasks k1)(t \<mapsto> awake (asleep False tk))"
      "processors k2 = (processors k1)(cpu \<mapsto> ?pr\<lparr>preemption_disabled_count := 0\<rparr>)"
      using wait_cancel_wakes [OF k1(2) _ _ i p1(1), of "asleep False tk"] k1(3) assms(7,8) by auto
    then show ?thesis using True k1 p1(2)
      by (auto simp: wait_for_round_def wait_prepare_def wait_prepare_check_def)
  next
    case False
    let ?k = "k1\<lparr>processors := (processors k1)(cpu \<mapsto> ?pr\<lparr>preemption_disabled_count := 0\<rparr>)\<rparr>"
    have "sched_inv ?k" by (rule count_upd [OF k1(2) p1(1)])
    then show ?thesis using False k1 p1
      by (auto simp: wait_for_round_def wait_prepare_def wait_prepare_check_def do_enable_preemption_def upd_processor_def
          wait_queue_enqueue_entry_def)
  qed
qed


text \<open>Picking the next task takes the first of the run list and moves it to the back.\<close>

lemma sched_rotate:
  assumes "sched_inv k" "processors k cpu = Some pr" "list_first_entry (sched_list pr) (run_nodes k) = Some t"
  shows "t \<in> runnable_on k cpu"
    and "sched_inv (k\<lparr>run_nodes := list_append (sched_list pr) t (list_remove t (run_nodes k))\<rparr>)"
proof -
  let ?m = "list_remove t (run_nodes k)" and ?h = "sched_list pr"
  have h: "heads_ok k" by (rule sched_invD(1) [OF assms(1)])
  obtain xs where xs: "is_list (run_nodes k) ?h xs" "set xs = runnable_on k cpu"
    using sched_invD(2) [OF assms(1,2)] by blast
  obtain ys where ys: "xs = t # ys" using list_queries(3) [OF xs(1)] assms(3) by (cases xs) auto
  then show t: "t \<in> runnable_on k cpu" using xs(2) by auto
  have m: "is_list ?m ?h ys" "t \<notin> set (?h # ys)" using list_remove_spec [of "run_nodes k" ?h "[]" t ys] xs(1) ys
    by (auto simp: is_list_def)
  have "\<exists>zs. is_list (list_append ?h t ?m) (sched_list q) zs \<and> set zs = runnable_on k p" if q: "processors k p = Some q" for p q
  proof (cases "p = cpu")
    case True
    then show ?thesis using q assms(2) list_append_spec [OF m] xs(2) ys by (intro exI [of _ "ys @ [t]"]) auto
  next
    case False
    obtain ws where ws: "is_list (run_nodes k) (sched_list q) ws" "set ws = runnable_on k p"
      using sched_invD(2) [OF assms(1) q] by blast
    have d: "set (sched_list q # ws) \<inter> set (?h # xs) = {}" by (rule lists_apart [OF h q assms(2) False ws(2) xs(2)])
    then have "is_list ?m (sched_list q) ws"
      using list_remove_frame [of "run_nodes k" ?h "[]" t ys "sched_list q" ws] xs(1) ws(1) ys by simp
    then have "is_list (list_append ?h t ?m) (sched_list q) ws" using list_frame(1) [OF m] d ys by auto
    then show ?thesis using ws(2) by blast
  qed
  then show "sched_inv (k\<lparr>run_nodes := list_append ?h t ?m\<rparr>)" using h by (simp add: sched_inv_def)
qed

lemma sched_pick_next_spec:
  assumes "sched_inv k" "processors k cpu = Some pr"
  shows "\<exists>t k' tk b. sched_pick_next cpu k = Some (t, k') \<and> sched_inv k' \<and> (t = idle_task pr \<or> t \<in> runnable_on k cpu) \<and>
    tasks k t = Some tk \<and> running tk \<and> tasks k' = (tasks k)(t \<mapsto> tk\<lparr>sched_ticks_remaining := 5\<rparr>) \<and>
    processors k' = (processors k)(cpu \<mapsto> pr\<lparr>sched_idle := b\<rparr>)"
proof -
  let ?f = "list_first_entry (sched_list pr) (run_nodes k)"
  define t where "t = (case ?f of Some t \<Rightarrow> t | None \<Rightarrow> idle_task pr)"
  define m where "m = (case ?f of Some t \<Rightarrow> list_append (sched_list pr) t (list_remove t (run_nodes k)) | None \<Rightarrow> run_nodes k)"
  define k1 where "k1 = k\<lparr>run_nodes := m, processors := (processors k)(cpu \<mapsto> pr\<lparr>sched_idle := (?f = None)\<rparr>)\<rparr>"
  have "sched_inv (k\<lparr>run_nodes := m\<rparr>)"
    using sched_rotate(2) [OF assms] assms(1) by (cases ?f) (simp_all add: m_def)
  then have k1: "sched_inv k1"
    using sched_inv_processor(1) [of "k\<lparr>run_nodes := m\<rparr>" cpu pr "pr\<lparr>sched_idle := (?f = None)\<rparr>"] assms(2) by (simp add: k1_def)
  have t: "t = idle_task pr \<or> t \<in> runnable_on k cpu"
    using sched_rotate(1) [OF assms] by (cases ?f) (simp_all add: t_def)
  then obtain tk where tk: "tasks k t = Some tk" "running tk"
    using heads_okD(3) [OF sched_invD(1) [OF assms(1)] assms(2)] by (auto simp: runnable_on_def)
  then have "sched_inv (k1\<lparr>tasks := (tasks k1)(t \<mapsto> tk\<lparr>sched_ticks_remaining := 5\<rparr>)\<rparr>)"
    by (intro sched_inv_task [OF k1]) (simp_all add: k1_def)
  moreover have "sched_pick_next cpu k = Some (t, k1\<lparr>tasks := (tasks k1)(t \<mapsto> tk\<lparr>sched_ticks_remaining := 5\<rparr>)\<rparr>)"
    using assms(2) tk by (cases ?f) (auto simp: sched_pick_next_def upd_processor_def upd_task_def k1_def m_def t_def running_def)
  ultimately show ?thesis using t tk by (intro exI conjI) (auto simp: k1_def)
qed

lemma set_current_inv:
  assumes "sched_inv k" "processors k cpu = Some pr"
  shows "\<exists>k'. set_current_task cpu t k = Some k' \<and> sched_inv k' \<and> tasks k' = tasks k \<and>
    processors k' = (processors k)(cpu \<mapsto> pr\<lparr>current_task := t\<rparr>)"
  using sched_inv_processor(1) [OF assms, of "pr\<lparr>current_task := t\<rparr>"] assms(2)
  by (simp add: set_current_task_def upd_processor_def)


section \<open>Signals and sleepers\<close>

definition deliverable :: "task \<Rightarrow> int \<Rightarrow> bool" where
  "deliverable tk i \<longleftrightarrow> bit (sig_pending tk) (nat (i - 1)) \<and> \<not> bit (sig_mask tk) (nat (i - 1))"

lemma sig_bit_tests:
  assumes "1 \<le> i" "i \<le> 64"
  shows "task_is_sig_pending tk i = Some (bit (sig_pending tk) (nat (i - 1)))"
    "task_is_sig_blocked tk i = Some (bit (sig_mask tk) (nat (i - 1)))"
  using assms by (simp_all add: task_is_sig_pending_def task_is_sig_blocked_def sig_bit_def bit_iff_and_push_bit_not_eq_0)

lemma next_sig_from_find:
  "set is \<subseteq> {1..64} \<Longrightarrow> next_sig_from tk is = Some (case find (deliverable tk) is of None \<Rightarrow> - 1 | Some i \<Rightarrow> i)"
  by (induction "is") (auto simp: sig_bit_tests deliverable_def)

text \<open>The lowest signal that is pending and not blocked.\<close>

lemma task_get_next_sig_find:
  "task_get_next_sig tk = Some (case find (deliverable tk) [1..64] of None \<Rightarrow> - 1 | Some i \<Rightarrow> i)"
proof (cases "sig_pending tk = 0")
  case True
  then have "find (deliverable tk) [1..64] = None" by (simp add: find_None_iff deliverable_def)
  then show ?thesis using True by (simp add: task_get_next_sig_def)
qed (simp add: task_get_next_sig_def next_sig_from_find)

lemma next_sig_some:
  assumes "deliverable tk n" "1 \<le> n" "n \<le> 64"
  shows "\<exists>s. task_get_next_sig tk = Some s \<and> s \<noteq> - 1"
proof -
  have "find (deliverable tk) [1..64] \<noteq> None" using assms by (auto simp: find_None_iff)
  then obtain i where i: "find (deliverable tk) [1..64] = Some i" by blast
  then have "i \<in> set [1..64]" by (auto simp: find_Some_iff in_set_conv_nth simp del: set_upto)
  then show ?thesis using i by (simp add: task_get_next_sig_find)
qed

text \<open>Adding a node to the end of the list a second time.\<close>

lemma links_last: "links m a xs b \<Longrightarrow> node_next m (last (a # xs)) = b"
  by (induction xs arbitrary: a) auto

lemma append_end:
  assumes "e \<noteq> h"
  shows "node_prev (list_append h e m) h = e"
    and "node_prev m h = e \<Longrightarrow> node_next (list_append h e m) e = e \<and> node_prev (list_append h e m) e = e \<and>
      node_next (list_append h e m) h = node_next m h"
  using assms by (simp_all add: list_append_def Let_def)

lemma append_twice_no_list:
  assumes "e \<noteq> h" "node_prev m h = e"
  shows "\<not> is_list (list_append h e m) h xs"
proof
  assume "is_list (list_append h e m) h xs"
  then have l: "links (list_append h e m) h xs h" by (simp add: is_list_def)
  have "last (h # xs) = e" using links_ends [OF l] append_end(1) [OF assms(1), of m] by simp
  then have "node_next (list_append h e m) e = h" using links_last [OF l] by simp
  then show False using append_end(2) [OF assms] assms(1) by simp
qed

lemma pick_stale:
  assumes "node_next (run_nodes k) h = t" "t \<noteq> h" "node_prev (run_nodes k) t = t" "node_next (run_nodes k) t = t"
    and "processors k cpu = Some pr" "sched_list pr = h" "tasks k t = Some tk"
  shows "\<exists>k'. task_set_state_to_waiting t k = Some k' \<and> sched_pick_next cpu k' = None"
  using assms by (auto simp: task_set_state_to_waiting_def local_sched_remove_task_def upd_task_def sched_pick_next_def
      list_first_entry_def list_is_empty_def list_remove_def Let_def upd_processor_def)


lemma signal_wakes:
  assumes "sched_inv k" "tasks k t = Some tk" "sched_state tk = WAITING" "wait_interruptible tk" "t \<notin> idles k"
    and "1 \<le> n" "n \<le> 64" "\<not> bit (sig_mask tk) (nat (n - 1))"
  shows "\<exists>k'. task_set_sig_pending cpu t n k = Some k' \<and> sched_inv k' \<and> processors k' = processors k \<and>
    tasks k' = (tasks k)(t \<mapsto> woken (- EINTR) (tk\<lparr>sig_pending := set_bit (nat (n - 1)) (sig_pending tk)\<rparr>))"
proof -
  let ?w = "sig_pending tk OR push_bit (nat (n - 1)) 1"
  let ?tk = "tk\<lparr>sig_pending := ?w\<rparr>"
  let ?k = "k\<lparr>tasks := (tasks k)(t \<mapsto> ?tk)\<rparr>"
  have w: "?w = set_bit (nat (n - 1)) (sig_pending tk)" by (simp add: set_bit_eq_or)
  have "sched_inv ?k" by (rule sched_inv_task [OF assms(1,2)]) simp_all
  then obtain k' where "task_unblock cpu t (- EINTR) ?k = Some (False, k')" "sched_inv k'"
    "tasks k' = (tasks ?k)(t \<mapsto> woken (- EINTR) ?tk)" "processors k' = processors ?k"
    using task_unblock_waiting [of ?k t ?tk cpu "- EINTR"] assms(3,5) by auto
  then show ?thesis using assms(2-4,6-) w sig_bit_tests(2) [OF assms(6,7), of ?tk]
    by (auto simp: task_set_sig_pending_def sig_bit_def upd_task_def)
qed

lemma signal_appends:
  assumes "task_set_sig_pending cpu t n k = Some k'" "tasks k t = Some tk" "sched_state tk = WAITING" "wait_interruptible tk"
    and "1 \<le> n" "n \<le> 64" "\<not> bit (sig_mask tk) (nat (n - 1))"
    and "processors k (active_processor tk) = Some pr" "current_task pr = t" "t \<noteq> sched_list pr"
  shows "node_prev (run_nodes k') (sched_list pr) = t"
  using assms append_end(1) [OF assms(10)] sig_bit_tests(2) [OF assms(5,6)]
  by (auto simp: task_set_sig_pending_def sig_bit_def upd_task_def task_unblock_def task_set_state_to_running_def
      local_sched_add_task_def Let_def split: if_splits)

lemma wait_cancel_twice:
  assumes "tasks k t = Some tk" "sched_ticks_remaining tk \<noteq> 0" "processors k (active_processor tk) = Some pr"
    and "current_task pr = t" "preemption_disabled_count pr > 0"
  shows "\<exists>k'. wait_cancel (active_processor tk) t k = Some k' \<and> tasks k' t = Some (awake tk) \<and>
    run_nodes k' = list_append (sched_list pr) t (run_nodes k) \<and>
    processors k' (active_processor tk) = Some (pr\<lparr>preemption_disabled_count := preemption_disabled_count pr - 1\<rparr>)"
  using assms by (simp add: wait_cancel_def upd_task_def task_set_state_to_running_def local_sched_add_task_def
      enable_preemption_def do_enable_preemption_def upd_processor_def sched_maybe_yield_def awake_def)

section \<open>Properties\<close>

text \<open>C16 (wake_during_prepare_breaks_run_list). A task that starts an interruptible wait marks itself as waiting
  before it looks at its pending signals. If an unblocked signal arrives in between, from an interrupt or
  from another processor, the task is woken and put back on the run list; it then sees the signal, cancels
  the wait and is put on the run list a second time. After that its node points to itself and the head no
  longer has a well-formed list; if it is the only task of the processor, the next time it goes to sleep
  the scheduler picks it nevertheless and panics.\<close>

theorem wake_during_prepare_breaks_run_list:
  assumes "sched_inv k" "processors k cpu = Some pr" "current_task pr = t" "preemption_disabled_count pr \<ge> 0"
    and "tasks k t = Some tk" "running tk" "active_processor tk = cpu" "t \<notin> idles k"
    and "1 \<le> n" "n \<le> 64" "\<not> bit (sig_mask tk) (nat (n - 1))"
  shows "\<exists>k1 k2 k3. wait_prepare_sleep cpu t True k = Some k1 \<and> sched_inv k1 \<and>
    task_set_sig_pending cpu' t n k1 = Some k2 \<and> sched_inv k2 \<and>
    wait_prepare_check cpu t True k2 = Some (- EINTR, k3) \<and>
    node_next (run_nodes k3) t = t \<and> (\<forall>xs. \<not> is_list (run_nodes k3) (sched_list pr) xs) \<and>
    (runnable_on k cpu = {t} \<longrightarrow>
      (\<exists>k4. task_set_state_to_waiting t k3 = Some k4 \<and> sched_pick_next cpu k4 = None))"
proof -
  let ?h = "sched_list pr" and ?n = "preemption_disabled_count pr + 1"
  let ?pr = "pr\<lparr>preemption_disabled_count := ?n\<rparr>"
  obtain k1 where k1: "wait_prepare_sleep cpu t True k = Some k1" "sched_inv k1"
    "tasks k1 = (tasks k)(t \<mapsto> asleep True tk)" "processors k1 = (processors k)(cpu \<mapsto> ?pr)"
    using wait_prepare_sleeps [OF assms(1,5,6,8,2,4), of True] by blast
  have i1: "t \<notin> idles k1" using sched_inv_processor(2) [OF assms(1,2), of ?pr] k1(4) assms(8) by (simp add: idles_def)
  define tk2 where "tk2 = woken (- EINTR) ((asleep True tk)\<lparr>sig_pending := set_bit (nat (n - 1)) (sig_pending tk)\<rparr>)"
  have mask: "sig_mask (asleep True tk) = sig_mask tk" "sig_pending (asleep True tk) = sig_pending tk"
    by (simp_all add: asleep_def)
  obtain k2 where k2: "task_set_sig_pending cpu' t n k1 = Some k2" "sched_inv k2" "processors k2 = processors k1"
    "tasks k2 = (tasks k1)(t \<mapsto> tk2)"
    using signal_wakes [OF k1(2) _ _ _ i1 assms(9,10), of "asleep True tk" cpu'] k1(3) assms(11) mask by (auto simp: tk2_def)
  have th: "t \<noteq> ?h" using heads_okD(1) [OF sched_invD(1) [OF assms(1)] assms(2)] assms(5) by auto
  have "nat (n - 1) < 64" using assms(9,10) by linarith
  then have a: "active_processor tk2 = cpu" "sched_ticks_remaining tk2 = 5" "deliverable tk2 n"
    using assms(7,11) by (simp_all add: tk2_def deliverable_def woken_def asleep_def bit_set_bit_iff)
  have e: "node_prev (run_nodes k2) ?h = t"
    using signal_appends [OF k2(1), of "asleep True tk" ?pr] k1(3,4) assms(3,7,9-11) mask th by simp
  obtain k3 where k3: "wait_cancel cpu t k2 = Some k3" "tasks k3 t = Some (awake tk2)"
    "run_nodes k3 = list_append ?h t (run_nodes k2)" "processors k3 cpu = Some pr"
    using wait_cancel_twice [of k2 t tk2 ?pr] k2(3,4) k1(4) a assms(3,4) by auto
  obtain s where "task_get_next_sig tk2 = Some s" "s \<noteq> - 1" using next_sig_some [OF a(3) assms(9,10)] by blast
  then have c: "wait_prepare_check cpu t True k2 = Some (- EINTR, k3)"
    using k2(4) k3(1) by (simp add: wait_prepare_check_def)
  have stale: "\<exists>k4. task_set_state_to_waiting t k3 = Some k4 \<and> sched_pick_next cpu k4 = None" if "runnable_on k cpu = {t}"
  proof -
    obtain zs where zs: "is_list (run_nodes k2) ?h zs" "set zs = runnable_on k2 cpu"
      using sched_invD(2) [OF k2(2), of cpu] k2(3) k1(4) by auto
    have "idles k2 = idles k" using sched_inv_processor(2) [OF assms(1,2), of ?pr] k1(4) k2(3) by (simp add: idles_def)
    then have "runnable_on k2 cpu = runnable_on k cpu"
      using assms(5,6,7) k1(3) k2(4) a(1) by (intro runnable_cong) (auto simp: tk2_def)
    then have "set zs = {t}" using that zs(2) by simp
    then have "zs \<noteq> []" "hd zs = t" using hd_in_set [of zs] by (cases zs; simp)+
    then have "list_first_entry ?h (run_nodes k2) = Some t" using list_queries(3) [OF zs(1)] by simp
    then have "node_next (run_nodes k2) ?h = t" by (simp add: list_first_entry_def split: if_splits)
    then show ?thesis using k3(2-4) append_end(2) [OF th e] th by (intro pick_stale [where h = ?h]) simp_all
  qed
  have "node_next (run_nodes k3) t = t" "\<not> is_list (run_nodes k3) ?h xs" for xs
    using append_end(2) [OF th e] append_twice_no_list [OF th e] k3(3) by simp_all
  with k1(1,2) k2(1,2) c stale show ?thesis by blast
qed


definition demo_task :: task where
  "demo_task = \<lparr>sched_state = RUNNING_UNINTERRUPTIBLE, sched_ticks_remaining = 5, unblock_result = 0,
     wait_interruptible = False, active_processor = 1, sig_mask = 0, sig_pending = 0, in_kernel = True,
     should_stop = False, should_exit = False\<rparr>"

definition demo_processor :: processor where
  "demo_processor = \<lparr>current_task = 20, idle_task = 10, sched_list = 30, sched_idle = False, preemption_disabled_count = 0\<rparr>"

definition demo_kernel :: kernel where
  "demo_kernel = \<lparr>tasks = [10 \<mapsto> demo_task, 20 \<mapsto> demo_task], processors = [1 \<mapsto> demo_processor],
     run_nodes = list_append 30 20 (init_list 30 \<lparr>node_next = id, node_prev = id\<rparr>), ipis = [], finalizer_queue = [],
     finalizer_waiters = []\<rparr>"

lemma demo_kernel_inv:
  "sched_inv demo_kernel" "idles demo_kernel = {10}" "runnable_on demo_kernel 1 = {20}"
proof -
  show i: "idles demo_kernel = {10}"
    by (auto simp: idles_def demo_kernel_def demo_processor_def)
  show r: "runnable_on demo_kernel 1 = {20}"
    using i by (auto simp: runnable_on_def demo_kernel_def demo_task_def running_def split: if_splits)
  have "is_list (run_nodes demo_kernel) 30 [20]"
    using list_append_spec [OF init_list_spec, of 20 30] by (simp add: demo_kernel_def)
  moreover have "heads_ok demo_kernel"
    by (auto simp: heads_ok_def demo_kernel_def demo_task_def demo_processor_def running_def split: if_splits)
  moreover have "p = 1 \<and> sched_list pr = 30" if "processors demo_kernel p = Some pr" for p pr
    using that by (auto simp: demo_kernel_def demo_processor_def split: if_splits)
  moreover have "set [20] = runnable_on demo_kernel 1" using r by simp
  ultimately show "sched_inv demo_kernel" unfolding sched_inv_def by metis
qed

theorem wake_during_prepare_breaks_run_list_witness:
  "\<exists>k1 k2 k3. wait_prepare_sleep 1 20 True demo_kernel = Some k1 \<and> task_set_sig_pending 1 20 14 k1 = Some k2 \<and>
    wait_prepare_check 1 20 True k2 = Some (- EINTR, k3) \<and> node_next (run_nodes k3) 20 = 20 \<and>
    (\<exists>k4. task_set_state_to_waiting 20 k3 = Some k4 \<and> sched_pick_next 1 k4 = None)"
proof -
  have "processors demo_kernel 1 = Some demo_processor" "current_task demo_processor = 20"
    "preemption_disabled_count demo_processor \<ge> 0" "tasks demo_kernel 20 = Some demo_task" "running demo_task"
    "active_processor demo_task = 1" "20 \<notin> idles demo_kernel" "\<not> bit (sig_mask demo_task) (nat (14 - 1))"
    using demo_kernel_inv(2) by (simp_all add: demo_kernel_def demo_processor_def demo_task_def running_def)
  from wake_during_prepare_breaks_run_list [OF demo_kernel_inv(1) this(1-7) _ _ this(8), of 1] demo_kernel_inv(3)
  show ?thesis by auto
qed

end
