(* ===== verification/Kernel_Mutex.thy ===== *)
theory Kernel_Mutex
  imports Task_Sched
begin

text \<open>
  The sleeping mutex of \<^verbatim>\<open>kernel/util/mutex.c\<close>, on the wait queues and run lists of theory Task_Sched. Every
  function runs under the spin lock of the queue, so that a call is one step up to its return or up to the
  point where it blocks; \<open>mutex_lock_resumed\<close> is what a blocked call does when its task runs again. The
  theory shows mutual exclusion, that no wake-up is lost and that the run lists stay intact, for any number
  of tasks and processors.
\<close>

section \<open>Model\<close>

record mutex =
  mx_queue :: wait_queue
  mx_lock :: int

definition init_mutex :: mutex where
  "init_mutex = \<lparr>mx_queue = init_wait_queue, mx_lock = 0\<rparr>"

definition get_current_task :: "addr \<Rightarrow> kernel \<Rightarrow> addr option" where
  "get_current_task cpu k = map_option current_task (processors k cpu)"

definition mutex_taken :: "wait_step \<Rightarrow> wait_queue \<Rightarrow> mutex \<Rightarrow> mutex" where
  "mutex_taken st q m = (case st of Wait_returns _ \<Rightarrow> m\<lparr>mx_queue := q, mx_lock := 1\<rparr> | Wait_blocks \<Rightarrow> m\<lparr>mx_queue := q\<rparr>)"

definition mutex_lock :: "addr \<Rightarrow> mutex \<Rightarrow> kernel \<Rightarrow> (wait_step \<times> mutex \<times> kernel) option" where
  "mutex_lock cpu m k = do {
     t \<leftarrow> get_current_task cpu k;
     (st, q, k) \<leftarrow> wait_for_round cpu t True (mx_lock m = 0) False (mx_queue m) k;
     Some (st, mutex_taken st q m, k)
   }"

definition mutex_lock_resumed :: "addr \<Rightarrow> mutex \<Rightarrow> kernel \<Rightarrow> (wait_step \<times> mutex \<times> kernel) option" where
  "mutex_lock_resumed cpu m k = do {
     t \<leftarrow> get_current_task cpu k;
     (st, q, k) \<leftarrow> wait_for_resume cpu t (mx_lock m = 0) False (mx_queue m) k;
     Some (st, mutex_taken st q m, k)
   }"

definition mutex_trylock :: "mutex \<Rightarrow> bool \<times> mutex" where
  "mutex_trylock m = (if mx_lock m = 0 then (True, m\<lparr>mx_lock := 1\<rparr>) else (False, m))"

definition mutex_unlock :: "addr \<Rightarrow> mutex \<Rightarrow> kernel \<Rightarrow> (mutex \<times> kernel) option" where
  "mutex_unlock cpu m k = do {
     assert_that (mx_lock m = 1);
     k \<leftarrow> wake_up_n cpu (mx_queue m) 1 k;
     Some (m\<lparr>mx_lock := 0\<rparr>, k)
   }"

section \<open>Tasks that share a mutex\<close>

text \<open>
  A task runs on a processor. It may take the mutex, try to, give it back, and go on with a blocked call;
  the scheduler may switch to another task, at a tick or at any time; any task may get a signal.
  \<open>holders\<close> are the tasks that have returned from taking the mutex and have not given it back.
  A switch to a task that has a signal to handle first is left out.
\<close>

definition executes :: "kernel \<Rightarrow> addr \<Rightarrow> addr \<Rightarrow> bool" where
  "executes k cpu t \<longleftrightarrow>
     (\<exists>pr tk. processors k cpu = Some pr \<and> current_task pr = t \<and> t \<notin> idles k \<and> tasks k t = Some tk \<and> running tk)"

text \<open>
  Every processor runs its idle task or one of its own tasks, with time left and preemption enabled;
  processors have different idle tasks. \<open>X\<close> are the processors that are about to switch.
\<close>

definition current_fits :: "kernel \<Rightarrow> addr \<Rightarrow> processor \<Rightarrow> bool" where
  "current_fits k p pr \<longleftrightarrow> (\<exists>tk. tasks k (current_task pr) = Some tk \<and> sched_ticks_remaining tk > 0 \<and>
     (current_task pr = idle_task pr \<or> current_task pr \<notin> idles k \<and> active_processor tk = p))"

definition currents_ok :: "addr set \<Rightarrow> kernel \<Rightarrow> bool" where
  "currents_ok X k \<longleftrightarrow>
     (\<forall>p pr. processors k p = Some pr \<longrightarrow> preemption_disabled_count pr = 0 \<and> (p \<notin> X \<longrightarrow> current_fits k p pr)) \<and>
     (\<forall>p p' pr pr'. processors k p = Some pr \<longrightarrow> processors k p' = Some pr' \<longrightarrow> p \<noteq> p' \<longrightarrow> idle_task pr \<noteq> idle_task pr')"

abbreviation current_ok :: "kernel \<Rightarrow> bool" where
  "current_ok k \<equiv> currents_ok {} k"

inductive mutex_reach :: "kernel \<Rightarrow> mutex \<Rightarrow> addr set \<Rightarrow> bool" where
  start: "sched_inv k \<Longrightarrow> current_ok k \<Longrightarrow> \<forall>tk \<in> ran (tasks k). running tk \<Longrightarrow> mutex_reach k init_mutex {}"
| lock: "mutex_reach k m holders \<Longrightarrow> executes k cpu t \<Longrightarrow> t \<notin> set (mx_queue m) \<Longrightarrow> t \<notin> holders \<Longrightarrow>
    mutex_lock cpu m k = Some (st, m', k') \<Longrightarrow>
    mutex_reach k' m' (if st = Wait_blocks then holders else insert t holders)"
| resume: "mutex_reach k m holders \<Longrightarrow> executes k cpu t \<Longrightarrow> t \<in> set (mx_queue m) \<Longrightarrow>
    mutex_lock_resumed cpu m k = Some (st, m', k') \<Longrightarrow>
    mutex_reach k' m' (if st = Wait_blocks then holders else insert t holders)"
| trylock: "mutex_reach k m holders \<Longrightarrow> executes k cpu t \<Longrightarrow> t \<notin> set (mx_queue m) \<Longrightarrow>
    mutex_trylock m = (taken, m') \<Longrightarrow> mutex_reach k m' (if taken then insert t holders else holders)"
| unlock: "mutex_reach k m holders \<Longrightarrow> executes k cpu t \<Longrightarrow> t \<in> holders \<Longrightarrow>
    mutex_unlock cpu m k = Some (m', k') \<Longrightarrow> mutex_reach k' m' (holders - {t})"
| tick: "mutex_reach k m holders \<Longrightarrow> sched_tick cpu k = Some (False, k') \<Longrightarrow> mutex_reach k' m holders"
| preempt: "mutex_reach k m holders \<Longrightarrow> sched_tick cpu k = Some (True, k1) \<Longrightarrow>
    sched_pick_next cpu k1 = Some (t, k2) \<Longrightarrow> set_current_task cpu t k2 = Some k' \<Longrightarrow> mutex_reach k' m holders"
| yield: "mutex_reach k m holders \<Longrightarrow> sched_pick_next cpu k = Some (t, k1) \<Longrightarrow>
    set_current_task cpu t k1 = Some k' \<Longrightarrow> mutex_reach k' m holders"
| signal: "mutex_reach k m holders \<Longrightarrow> task_set_sig_pending cpu t n k = Some k' \<Longrightarrow> mutex_reach k' m holders"


section \<open>The invariant\<close>

text \<open>
  A task is runnable, or it sleeps in the queue while the mutex is taken; a runnable task in the queue has
  been woken with result 0. The mutex is taken exactly when there is a holder, and then by one.
\<close>

definition task_fits :: "mutex \<Rightarrow> addr \<Rightarrow> task \<Rightarrow> bool" where
  "task_fits m t tk \<longleftrightarrow> running tk \<and> (t \<in> set (mx_queue m) \<longrightarrow> unblock_result tk = 0) \<or>
     sched_state tk = WAITING \<and> \<not> wait_interruptible tk \<and> t \<in> set (mx_queue m) \<and> mx_lock m = 1"

definition waiters_ok :: "kernel \<Rightarrow> mutex \<Rightarrow> bool" where
  "waiters_ok k m \<longleftrightarrow> distinct (mx_queue m) \<and> (\<forall>t \<in> set (mx_queue m). t \<in> dom (tasks k) \<and> t \<notin> idles k) \<and>
     (\<forall>t tk. tasks k t = Some tk \<longrightarrow> task_fits m t tk)"

definition holder_ok :: "mutex \<Rightarrow> addr set \<Rightarrow> bool" where
  "holder_ok m holders \<longleftrightarrow> set (mx_queue m) \<inter> holders = {} \<and>
     (mx_lock m = 0 \<and> holders = {} \<or> mx_lock m = 1 \<and> (\<exists>h. holders = {h}))"

definition mutex_inv :: "kernel \<Rightarrow> mutex \<Rightarrow> addr set \<Rightarrow> bool" where
  "mutex_inv k m holders \<longleftrightarrow> sched_inv k \<and> current_ok k \<and> waiters_ok k m \<and> holder_ok m holders"

lemma mutex_invD:
  assumes "mutex_inv k m holders"
  shows "sched_inv k" "current_ok k" "waiters_ok k m" "holder_ok m holders"
  using assms by (simp_all add: mutex_inv_def)

lemma waiters_okD:
  assumes "waiters_ok k m"
  shows "distinct (mx_queue m)" "t \<in> set (mx_queue m) \<Longrightarrow> t \<in> dom (tasks k) \<and> t \<notin> idles k"
    "tasks k t = Some tk \<Longrightarrow> task_fits m t tk"
  using assms by (auto simp: waiters_ok_def)

lemma currents_okD:
  assumes "currents_ok X k" "processors k p = Some pr"
  shows "preemption_disabled_count pr = 0" "p \<notin> X \<Longrightarrow> current_fits k p pr"
    "processors k p' = Some pr' \<Longrightarrow> p \<noteq> p' \<Longrightarrow> idle_task pr \<noteq> idle_task pr'"
  using assms unfolding currents_ok_def by blast+

lemma executesE:
  assumes "executes k cpu t" "current_ok k"
  obtains pr tk where "processors k cpu = Some pr" "current_task pr = t" "t \<notin> idles k" "tasks k t = Some tk"
    "running tk" "preemption_disabled_count pr = 0" "sched_ticks_remaining tk \<noteq> 0"
  using assms currents_okD(1,2) [OF assms(2)] unfolding executes_def current_fits_def by fastforce

lemma fits_ticks [simp]: "task_fits m t (tk\<lparr>sched_ticks_remaining := n\<rparr>) = task_fits m t tk"
  by (simp add: task_fits_def)

lemma fits_running [simp]: "running tk \<Longrightarrow> t \<notin> set (mx_queue m) \<Longrightarrow> task_fits m t tk"
  by (simp add: task_fits_def)

lemma current_ok_task:
  assumes "current_ok k" "processors k' = processors k" "\<And>t tk. tasks k t = Some tk \<Longrightarrow>
    \<exists>tk'. tasks k' t = Some tk' \<and> active_processor tk' = active_processor tk \<and>
      (sched_ticks_remaining tk > 0 \<longrightarrow> sched_ticks_remaining tk' > 0)"
  shows "current_ok k'"
proof -
  have "current_fits k' p pr" if "processors k p = Some pr" for p pr
    using currents_okD(2) [OF assms(1) that] assms(3) [of "current_task pr"] idles_eq [OF assms(2)]
    unfolding current_fits_def by fastforce
  then show ?thesis using currents_okD(1,3) [OF assms(1)] assms(2) unfolding currents_ok_def by auto
qed

text \<open>A round of a waiting call: taking the mutex, or going to sleep in its queue.\<close>

lemma mutex_round:
  assumes "mutex_inv k m holders" "executes k cpu t" "q \<longleftrightarrow> t \<notin> set (mx_queue m)" "t \<notin> holders"
  shows "\<exists>st wq k'. wait_for_round cpu t q (mx_lock m = 0) False (mx_queue m) k = Some (st, wq, k') \<and>
    st = (if mx_lock m = 0 then Wait_returns 0 else Wait_blocks) \<and>
    mutex_inv k' (mutex_taken st wq m) (if st = Wait_blocks then holders else insert t holders)"
proof -
  let ?free = "mx_lock m = 0"
  define wq where "wq = (if ?free then wait_for_leave t q (mx_queue m) else if q then mx_queue m @ [t] else mx_queue m)"
  define st where "st = (if ?free then Wait_returns 0 else Wait_blocks)"
  define m' where "m' = mutex_taken st wq m"
  note inv = mutex_invD [OF assms(1)]
  note w = waiters_okD [OF inv(3)]
  obtain pr tk where r: "processors k cpu = Some pr" "current_task pr = t" "t \<notin> idles k" "tasks k t = Some tk"
    "running tk" "preemption_disabled_count pr = 0" "sched_ticks_remaining tk \<noteq> 0"
    using executesE [OF assms(2) inv(2)] .
  define tk' where "tk' = (if ?free then awake tk else asleep False tk)"
  from wait_for_round_spec [OF inv(1) r(4,5,3,1,6,2,7), of q ?free "mx_queue m"] obtain k' where
    k': "wait_for_round cpu t q ?free False (mx_queue m) k = Some (st, wq, k')" "sched_inv k'"
      "tasks k' = (tasks k)(t \<mapsto> tk')" "processors k' = processors k"
    by (auto simp: st_def wq_def tk'_def split: if_splits)
  have lock: "mx_lock m = 0 \<or> mx_lock m = 1" using inv(4) by (auto simp: holder_ok_def)
  have q': "mx_queue m' = wq" "mx_lock m' = 1" using lock by (auto simp: m'_def mutex_taken_def st_def)
  have wq: "distinct wq" "set wq = (if ?free then set (mx_queue m) - {t} else insert t (set (mx_queue m)))"
    using w(1) assms(3) by (auto simp: wq_def wait_for_leave_def wait_queue_dequeue_entry_def)
  have "current_ok k'"
    using r(4) k'(3) by (intro current_ok_task [OF inv(2) k'(4)]) (auto simp: tk'_def)
  moreover have "waiters_ok k' m'"
  proof -
    have "task_fits m' s u" if "tasks k' s = Some u" for s u
    proof (cases "s = t")
      case True
      then have "u = tk'" using that k'(3) by simp
      then show ?thesis using True q' wq(2) by (cases ?free) (simp_all add: task_fits_def tk'_def)
    next
      case False
      then have "task_fits m s u" using that k'(3) w(3) by simp
      then show ?thesis using False q' wq(2) lock by (auto simp: task_fits_def split: if_splits)
    qed
    moreover have "s \<in> dom (tasks k') \<and> s \<notin> idles k'" if "s \<in> set wq" for s
      using that wq(2) w(2) [of s] r(3,4) k'(3) idles_eq [OF k'(4)] by (auto split: if_splits)
    ultimately show ?thesis using wq(1) q'(1) by (simp add: waiters_ok_def)
  qed
  moreover have "holder_ok m' (if st = Wait_blocks then holders else insert t holders)"
    using inv(4) q' wq(2) assms(4) by (auto simp: holder_ok_def st_def)
  ultimately show ?thesis using k'(1,2) by (auto simp: mutex_inv_def m'_def st_def)
qed

lemma mutex_lock_step:
  assumes "mutex_inv k m holders" "executes k cpu t" "t \<notin> set (mx_queue m)" "t \<notin> holders"
  shows "\<exists>st m' k'. mutex_lock cpu m k = Some (st, m', k') \<and> st = (if mx_lock m = 0 then Wait_returns 0 else Wait_blocks) \<and>
    mutex_inv k' m' (if st = Wait_blocks then holders else insert t holders)"
proof -
  have "get_current_task cpu k = Some t" using assms(2) by (auto simp: executes_def get_current_task_def)
  then show ?thesis using mutex_round [OF assms(1,2) _ assms(4), of True] assms(3) by (auto simp: mutex_lock_def)
qed

lemma mutex_resume_step:
  assumes "mutex_inv k m holders" "executes k cpu t" "t \<in> set (mx_queue m)"
  shows "\<exists>st m' k'. mutex_lock_resumed cpu m k = Some (st, m', k') \<and> st = (if mx_lock m = 0 then Wait_returns 0 else Wait_blocks) \<and>
    mutex_inv k' m' (if st = Wait_blocks then holders else insert t holders)"
proof -
  obtain tk where tk: "tasks k t = Some tk" "running tk" using assms(2) by (auto simp: executes_def)
  have "get_current_task cpu k = Some t" using assms(2) by (auto simp: executes_def get_current_task_def)
  moreover have "t \<notin> holders" using mutex_invD(4) [OF assms(1)] assms(3) by (auto simp: holder_ok_def)
  moreover have "unblock_result tk = 0"
    using waiters_okD(3) [OF mutex_invD(3) [OF assms(1)] tk(1)] tk(2) assms(3) by (auto simp: task_fits_def running_def)
  ultimately show ?thesis using mutex_round [OF assms(1,2), of False] assms(3) tk(1)
    by (auto simp: mutex_lock_resumed_def wait_for_resume_def)
qed


text \<open>The other steps.\<close>

lemma mutex_unlock_step:
  assumes "mutex_inv k m holders" "t \<in> holders"
  shows "\<exists>m' k'. mutex_unlock cpu m k = Some (m', k') \<and> mutex_inv k' m' (holders - {t})"
proof -
  note inv = mutex_invD [OF assms(1)]
  note w = waiters_okD [OF inv(3)]
  have h: "mx_lock m = 1" "holders = {t}" using inv(4) assms(2) by (auto simp: holder_ok_def)
  obtain k' where k': "wake_up_n cpu (mx_queue m) 1 k = Some k'" "sched_inv k'"
    "tasks k' = wake_tasks (mx_queue m) (tasks k)" "processors k' = processors k"
    using wake_up_n_wakes_all [OF inv(1), of 1 "mx_queue m" cpu] w(2) by auto
  have "current_ok k'"
    using k'(3) by (intro current_ok_task [OF inv(2) k'(4)]) (auto simp: wake_tasks_def)
  moreover have "task_fits (m\<lparr>mx_lock := 0\<rparr>) s u" if s: "tasks k' s = Some u" for s u
  proof -
    obtain v where v: "tasks k s = Some v" "u = (if s \<in> set (mx_queue m) \<and> sched_state v = WAITING then woken 0 v else v)"
      using s k'(3) by (auto simp: wake_tasks_def)
    then show ?thesis using w(3) [OF v(1)] by (auto simp: task_fits_def)
  qed
  moreover have "s \<in> dom (tasks k') \<and> s \<notin> idles k'" if "s \<in> set (mx_queue m)" for s
    using w(2) [OF that] k'(3) idles_eq [OF k'(4)] wake_tasks_dom by (auto simp: domIff)
  ultimately show ?thesis using k' h w(1)
    by (auto simp: mutex_unlock_def mutex_inv_def waiters_ok_def holder_ok_def)
qed

lemma mutex_trylock_step:
  assumes "mutex_inv k m holders" "t \<notin> set (mx_queue m)" "mutex_trylock m = (taken, m')"
  shows "mutex_inv k m' (if taken then insert t holders else holders)"
proof (cases taken)
  case True
  then have m: "m' = m\<lparr>mx_lock := 1\<rparr>" "mx_lock m = 0" using assms(3) by (auto simp: mutex_trylock_def split: if_splits)
  note inv = mutex_invD [OF assms(1)]
  have "task_fits m' s u" if "tasks k s = Some u" for s u
    using waiters_okD(3) [OF inv(3) that] m by (auto simp: task_fits_def)
  then show ?thesis using True inv m assms(2) by (auto simp: mutex_inv_def waiters_ok_def holder_ok_def)
qed (use assms in \<open>auto simp: mutex_trylock_def split: if_splits\<close>)

text \<open>Steps that leave the mutex alone.\<close>

lemma mutex_inv_tasks:
  assumes "mutex_inv k m holders" "sched_inv k'" "current_ok k'" "idles k' = idles k"
    and "tasks k t = Some tk" "tasks k' = (tasks k)(t \<mapsto> tk')" "task_fits m t tk \<Longrightarrow> task_fits m t tk'"
  shows "mutex_inv k' m holders"
proof -
  note w = waiters_okD [OF mutex_invD(3) [OF assms(1)]]
  have "task_fits m s u" if "tasks k' s = Some u" for s u
    using that assms(5-7) w(3) by (cases "s = t") auto
  moreover have "s \<in> dom (tasks k') \<and> s \<notin> idles k'" if "s \<in> set (mx_queue m)" for s
    using w(2) [OF that] assms(4,6) by auto
  ultimately show ?thesis using assms(1-3) w(1) by (simp add: mutex_inv_def waiters_ok_def)
qed

lemma mutex_signal_step:
  assumes "mutex_inv k m holders" "task_set_sig_pending cpu t n k = Some k'"
  shows "mutex_inv k' m holders"
proof -
  note inv = mutex_invD [OF assms(1)]
  obtain tk b where tk: "tasks k t = Some tk" "sig_bit n = Some b"
    using assms(2) by (auto simp: task_set_sig_pending_def upd_task_def split: bind_splits)
  let ?tk = "tk\<lparr>sig_pending := sig_pending tk OR b\<rparr>"
  have "\<not> (sched_state tk = WAITING \<and> wait_interruptible tk)"
    using waiters_okD(3) [OF inv(3) tk(1)] by (auto simp: task_fits_def running_def)
  then have k': "k' = k\<lparr>tasks := (tasks k)(t \<mapsto> ?tk)\<rparr>"
    using assms(2) tk by (auto simp: task_set_sig_pending_def upd_task_def split: if_splits)
  have "sched_inv k'" unfolding k' by (rule sched_inv_task [OF inv(1) tk(1)]) simp_all
  moreover have "current_ok k'" by (rule current_ok_task [OF inv(2)]) (use tk(1) in \<open>auto simp: k'\<close>)
  moreover have "task_fits m t tk \<Longrightarrow> task_fits m t ?tk" by (simp add: task_fits_def)
  ultimately show ?thesis by (intro mutex_inv_tasks [OF assms(1) _ _ _ tk(1), of k' ?tk]) (simp_all add: k')
qed


text \<open>Switching to the next task.\<close>

lemma current_apart:
  assumes "current_fits k p pr" "current_fits k p' pr'" "processors k p = Some pr" "processors k p' = Some pr'" "p \<noteq> p'"
    and "idle_task pr \<noteq> idle_task pr'"
  shows "current_task pr \<noteq> current_task pr'"
  using assms idle_in [OF assms(3)] idle_in [OF assms(4)] unfolding current_fits_def by fastforce

lemma switched_current:
  assumes "currents_ok {cpu} k" "processors k cpu = Some pr"
    and "t = idle_task pr \<or> t \<in> runnable_on k cpu" "tasks k t = Some tk"
    and "tasks k' = (tasks k)(t \<mapsto> tk\<lparr>sched_ticks_remaining := 5\<rparr>)" "idles k' = idles k"
    and "processors k' = (processors k)(cpu \<mapsto> pr\<lparr>sched_idle := b, current_task := t\<rparr>)"
  shows "current_ok k'"
proof -
  have "current_fits k' cpu (pr\<lparr>sched_idle := b, current_task := t\<rparr>)"
    using assms(3-6) by (auto simp: current_fits_def runnable_on_def)
  moreover have "current_fits k' p q" if "processors k p = Some q" "p \<noteq> cpu" for p q
    using currents_okD(2) [OF assms(1) that(1)] that(2) assms(4-6) unfolding current_fits_def by fastforce
  moreover have "idle_task q \<noteq> idle_task q'" if "processors k' p = Some q" "processors k' p' = Some q'" "p \<noteq> p'" for p p' q q'
    using that currents_okD(3) [OF assms(1)] assms(2,7) by (fastforce split: if_splits)
  ultimately show ?thesis
    using currents_okD(1) [OF assms(1)] assms(2,7) unfolding currents_ok_def by (auto split: if_splits)
qed

lemma mutex_switch_step:
  assumes "sched_inv k" "currents_ok {cpu} k" "waiters_ok k m" "holder_ok m holders"
    and "sched_pick_next cpu k = Some (t, k1)" "set_current_task cpu t k1 = Some k'"
  shows "mutex_inv k' m holders"
proof -
  obtain pr where pr: "processors k cpu = Some pr"
    using assms(5) by (auto simp: sched_pick_next_def split: bind_splits)
  obtain tk b where t: "sched_inv k1" "t = idle_task pr \<or> t \<in> runnable_on k cpu" "tasks k t = Some tk" "running tk"
    "tasks k1 = (tasks k)(t \<mapsto> tk\<lparr>sched_ticks_remaining := 5\<rparr>)" "processors k1 = (processors k)(cpu \<mapsto> pr\<lparr>sched_idle := b\<rparr>)"
    using sched_pick_next_spec [OF assms(1) pr] assms(5) by auto
  let ?pr = "pr\<lparr>sched_idle := b, current_task := t\<rparr>"
  have k': "sched_inv k'" "tasks k' = tasks k1" "processors k' = (processors k)(cpu \<mapsto> ?pr)"
    using set_current_inv [OF t(1), of cpu "pr\<lparr>sched_idle := b\<rparr>" t] assms(6) t(6) by auto
  have i: "idles k' = idles k" using sched_inv_processor(2) [OF assms(1) pr, of ?pr] k'(3) by (simp add: idles_def)
  have c: "current_ok k'" using switched_current [OF assms(2) pr t(2,3) _ i k'(3)] k'(2) t(5) by simp
  have "task_fits m s u" if "tasks k' s = Some u" for s u
    using that k'(2) t(3,5) waiters_okD(3) [OF assms(3)] by (cases "s = t") auto
  moreover have "s \<in> dom (tasks k') \<and> s \<notin> idles k'" if "s \<in> set (mx_queue m)" for s
    using waiters_okD(2) [OF assms(3) that] k'(2) t(5) i by auto
  ultimately show ?thesis
    using k'(1) c assms(4) waiters_okD(1) [OF assms(3)] by (simp add: mutex_inv_def waiters_ok_def)
qed


lemma sched_tick_spec:
  assumes "mutex_inv k m holders" "sched_tick cpu k = Some (yields, k')"
  shows "sched_inv k'" "currents_ok (if yields then {cpu} else {}) k'" "waiters_ok k' m" "holder_ok m holders"
proof -
  note inv = mutex_invD [OF assms(1)]
  obtain pr where pr: "processors k cpu = Some pr" using assms(2) by (auto simp: sched_tick_def split: bind_splits)
  note fit = currents_okD(2) [OF inv(2)]
  let ?s = "current_task pr"
  obtain sk where sk: "tasks k ?s = Some sk" "sched_ticks_remaining sk > 0"
    using fit [OF pr] by (auto simp: current_fits_def)
  define sk' where "sk' = sk\<lparr>sched_ticks_remaining := sched_ticks_remaining sk - 1\<rparr>"
  have k': "k' = k\<lparr>tasks := (tasks k)(?s \<mapsto> sk')\<rparr>" "yields \<longleftrightarrow> sched_ticks_remaining sk' = 0"
    using assms(2) pr sk currents_okD(1) [OF inv(2) pr]
    by (auto simp: sched_tick_def upd_task_def sched_maybe_yield_def sk'_def)
  have i: "idles k' = idles k" "processors k' = processors k" by (simp_all add: k'(1))
  show "sched_inv k'" unfolding k'(1) by (rule sched_inv_task [OF inv(1) sk(1)]) (simp_all add: sk'_def)
  have "task_fits m u v" if "tasks k' u = Some v" for u v
    using that sk(1) waiters_okD(3) [OF inv(3)] by (cases "u = ?s") (auto simp: k'(1) sk'_def)
  then show "waiters_ok k' m" using inv(3) i(1) by (auto simp: waiters_ok_def k'(1))
  show "holder_ok m holders" by (rule inv(4))
  show "currents_ok (if yields then {cpu} else {}) k'"
  proof (cases yields)
    case True
    have "current_fits k' p q" if q: "processors k p = Some q" "p \<noteq> cpu" for p q
    proof -
      have "current_task q \<noteq> ?s"
        using current_apart [OF fit [OF q(1)] fit [OF pr] q(1) pr q(2)] currents_okD(3) [OF inv(2) q(1) pr q(2)] by simp
      then show ?thesis using fit [OF q(1)] i(1) by (auto simp: current_fits_def k'(1))
    qed
    then show ?thesis using True inv(2) i(2) by (auto simp: currents_ok_def)
  next
    case False
    then have "sched_ticks_remaining sk' > 0" using k'(2) sk(2) by (simp add: sk'_def)
    then show ?thesis using False sk(1) by simp (rule current_ok_task [OF inv(2) i(2)], auto simp: k'(1) sk'_def)
  qed
qed

lemma currents_weaken: "current_ok k \<Longrightarrow> currents_ok X k"
  by (auto simp: currents_ok_def)

lemma mutex_reach_inv: "mutex_reach k m holders \<Longrightarrow> mutex_inv k m holders"
proof (induction rule: mutex_reach.induct)
  case (start k)
  have "task_fits init_mutex t tk" if "tasks k t = Some tk" for t tk
    using start(3) that by (auto simp: ran_def init_mutex_def init_wait_queue_def)
  then show ?case using start
    by (simp add: mutex_inv_def waiters_ok_def holder_ok_def init_mutex_def init_wait_queue_def)
next
  case (lock k m holders cpu t st m' k')
  then show ?case using mutex_lock_step [OF lock.IH lock.hyps(2-4)] by auto
next
  case (resume k m holders cpu t st m' k')
  then show ?case using mutex_resume_step [OF resume.IH resume.hyps(2,3)] by auto
next
  case (unlock k m holders cpu t m' k')
  then show ?case using mutex_unlock_step [OF unlock.IH unlock.hyps(3), of cpu] by auto
next
  case (tick k m holders cpu k')
  then show ?case using sched_tick_spec [OF tick.IH tick.hyps(2)] by (simp add: mutex_inv_def)
next
  case (preempt k m holders cpu k1 t k2 k')
  then show ?case using sched_tick_spec [OF preempt.IH preempt.hyps(2)] mutex_switch_step by simp
next
  case (yield k m holders cpu t k1 k')
  show ?case
    using mutex_switch_step [OF _ currents_weaken _ _ yield.hyps(2,3)] mutex_invD [OF yield.IH] by simp
next
  case (trylock k m holders cpu t taken m')
  show ?case by (rule mutex_trylock_step [OF trylock.IH trylock.hyps(3,4)])
next
  case (signal k m holders cpu t n k')
  show ?case by (rule mutex_signal_step [OF signal.IH signal.hyps(2)])
qed

section \<open>Properties\<close>

text \<open>C6 (mutex_reachable_ok). Whatever tasks on whatever processors do with a mutex, with ticks, switches and signals
  in between: at most one task holds it, and the lock word says whether there is one; when it is free, no
  task sleeps in its queue, so that no wake-up is lost; the run lists are well linked and hold exactly the
  runnable tasks. No call gets stuck: taking the mutex, also on from a wake-up, succeeds if it is free and
  blocks otherwise, giving it back always succeeds, and every processor finds a task to run.\<close>

theorem mutex_reachable_ok:
  assumes "mutex_reach k m holders"
  shows "(mx_lock m = 0 \<and> holders = {} \<or> mx_lock m = 1 \<and> (\<exists>h. holders = {h} \<and> h \<notin> set (mx_queue m))) \<and>
    (mx_lock m = 0 \<longrightarrow> (\<forall>t \<in> set (mx_queue m). \<exists>p. t \<in> runnable_on k p)) \<and> sched_inv k \<and>
    (\<forall>cpu t. executes k cpu t \<and> t \<notin> set (mx_queue m) \<and> t \<notin> holders \<longrightarrow>
      (\<exists>m' k'. mutex_lock cpu m k = Some (if mx_lock m = 0 then Wait_returns 0 else Wait_blocks, m', k'))) \<and>
    (\<forall>cpu t. executes k cpu t \<and> t \<in> set (mx_queue m) \<longrightarrow>
      (\<exists>m' k'. mutex_lock_resumed cpu m k = Some (if mx_lock m = 0 then Wait_returns 0 else Wait_blocks, m', k'))) \<and>
    (\<forall>cpu t. executes k cpu t \<and> t \<in> holders \<longrightarrow> mutex_unlock cpu m k \<noteq> None) \<and>
    (\<forall>cpu. processors k cpu \<noteq> None \<longrightarrow> sched_pick_next cpu k \<noteq> None)"
proof -
  have inv: "mutex_inv k m holders" by (rule mutex_reach_inv [OF assms])
  note i = mutex_invD [OF inv]
  note w = waiters_okD [OF i(3)]
  have "\<exists>p. t \<in> runnable_on k p" if t: "mx_lock m = 0" "t \<in> set (mx_queue m)" for t
  proof -
    obtain tk where "tasks k t = Some tk" "t \<notin> idles k" using w(2) [OF t(2)] by auto
    moreover from this have "running tk" using w(3) t(1) by (auto simp: task_fits_def)
    ultimately show ?thesis by (auto simp: runnable_on_def)
  qed
  moreover have "sched_pick_next cpu k \<noteq> None" if "processors k cpu \<noteq> None" for cpu
    using sched_pick_next_spec [OF i(1)] that by fastforce
  moreover have "mx_lock m = 0 \<and> holders = {} \<or> mx_lock m = 1 \<and> (\<exists>h. holders = {h} \<and> h \<notin> set (mx_queue m))"
    using i(4) by (auto simp: holder_ok_def)
  moreover have "\<exists>m' k'. mutex_lock cpu m k = Some (if mx_lock m = 0 then Wait_returns 0 else Wait_blocks, m', k')"
    if "executes k cpu t \<and> t \<notin> set (mx_queue m) \<and> t \<notin> holders" for cpu t
    using mutex_lock_step [OF inv, of cpu t] that by blast
  moreover have "\<exists>m' k'. mutex_lock_resumed cpu m k = Some (if mx_lock m = 0 then Wait_returns 0 else Wait_blocks, m', k')"
    if "executes k cpu t \<and> t \<in> set (mx_queue m)" for cpu t
    using mutex_resume_step [OF inv, of cpu t] that by blast
  moreover have "mutex_unlock cpu m k \<noteq> None" if "executes k cpu t \<and> t \<in> holders" for cpu t
    using mutex_unlock_step [OF inv, of t cpu] that by auto
  ultimately show ?thesis using i(1) by blast
qed


lemma mutex_demo_reach: "mutex_reach demo_kernel init_mutex {}" "executes demo_kernel 1 20"
proof -
  have "current_ok demo_kernel"
    using demo_kernel_inv(2)
    by (auto simp: currents_ok_def current_fits_def demo_kernel_def demo_processor_def demo_task_def split: if_splits)
  moreover have "\<forall>tk \<in> ran (tasks demo_kernel). running tk"
    by (auto simp: ran_def demo_kernel_def demo_task_def running_def split: if_splits)
  ultimately show "mutex_reach demo_kernel init_mutex {}" by (rule mutex_reach.start [OF demo_kernel_inv(1)])
  show "executes demo_kernel 1 20"
    using demo_kernel_inv(2) by (simp add: executes_def demo_kernel_def demo_processor_def demo_task_def running_def)
qed

theorem mutex_reachable_ok_witness:
  "\<exists>m k. mutex_lock 1 init_mutex demo_kernel = Some (Wait_returns 0, m, k) \<and> mutex_reach k m {20} \<and>
    mx_lock m = 1 \<and> sched_inv k"
proof -
  have q: "20 \<notin> set (mx_queue init_mutex)" "mx_lock init_mutex = 0" by (simp_all add: init_mutex_def init_wait_queue_def)
  obtain m k where l: "mutex_lock 1 init_mutex demo_kernel = Some (Wait_returns 0, m, k)"
    using mutex_reachable_ok [OF mutex_demo_reach(1)] mutex_demo_reach(2) q by fastforce
  then have "mutex_reach k m {20}" using mutex_reach.lock [OF mutex_demo_reach q(1) _ l] by simp
  moreover from this have "mx_lock m = 1 \<and> sched_inv k" using mutex_reachable_ok by blast
  ultimately show ?thesis using l by blast
qed

end
