(* ===== verification/Clock_Time.thy ===== *)
theory Clock_Time
  imports Iros_Prelude "HOL-Library.Signed_Division"
begin

text \<open>
  Time values: the arithmetic on \<open>struct timespec\<close> and \<open>struct timeval\<close> of
  \<^verbatim>\<open>kernel/include/kernel/time/clock.h\<close>. The fields are \<open>long\<close>; they are integers here, an overflow of the
  seconds being out of reach. The theory relates the arithmetic to nanoseconds and states, as a locale,
  what timers rely on.
\<close>

section \<open>Model\<close>

record timespec =
  tv_sec :: int
  tv_nsec :: int

record timeval =
  tvl_sec :: int
  tvl_usec :: int

record itimerspec =
  it_interval :: timespec
  it_value :: timespec

record itimerval =
  itv_interval :: timeval
  itv_value :: timeval

definition time_compare :: "timespec \<Rightarrow> timespec \<Rightarrow> int" where
  "time_compare t1 t2 = (if tv_sec t1 = tv_sec t2 then tv_nsec t1 - tv_nsec t2 else tv_sec t1 - tv_sec t2)"

definition time_add :: "timespec \<Rightarrow> timespec \<Rightarrow> timespec" where
  "time_add t1 t2 =
     (let t1 = \<lparr>tv_sec = tv_sec t1 + tv_sec t2, tv_nsec = tv_nsec t1 + tv_nsec t2\<rparr>
      in if tv_nsec t1 \<ge> 1000000000
         then \<lparr>tv_sec = tv_sec t1 + 1, tv_nsec = tv_nsec t1 smod 1000000000\<rparr> else t1)"

definition time_add_timeval :: "timeval \<Rightarrow> timeval \<Rightarrow> timeval" where
  "time_add_timeval t1 t2 =
     (let t1 = \<lparr>tvl_sec = tvl_sec t1 + tvl_sec t2, tvl_usec = tvl_usec t1 + tvl_usec t2\<rparr>
      in if tvl_usec t1 \<ge> 1000000
         then \<lparr>tvl_sec = tvl_sec t1 + 1, tvl_usec = tvl_usec t1 smod 1000000\<rparr> else t1)"

definition time_sub :: "timespec \<Rightarrow> timespec \<Rightarrow> timespec" where
  "time_sub t1 t2 =
     (let t1 = \<lparr>tv_sec = tv_sec t1 - tv_sec t2, tv_nsec = tv_nsec t1 - tv_nsec t2\<rparr>
      in if tv_nsec t1 < 0
         then \<lparr>tv_sec = tv_sec t1 - 1, tv_nsec = tv_nsec t1 + 1000000000\<rparr> else t1)"

definition time_divide :: "int \<Rightarrow> timespec \<Rightarrow> int option" where
  "time_divide frequency interval = do {
     let ns = tv_sec interval * 1000000000 + tv_nsec interval;
     assert_that (ns \<noteq> 0);
     let frequency_interval = 1000000000 sdiv ns;
     assert_that (frequency_interval \<noteq> 0);
     Some (frequency sdiv frequency_interval)
   }"

definition time_from_timeval :: "timeval \<Rightarrow> timespec" where
  "time_from_timeval v = \<lparr>tv_sec = tvl_sec v, tv_nsec = tvl_usec v * 1000\<rparr>"

definition timeval_from_time :: "timespec \<Rightarrow> timeval" where
  "timeval_from_time s = \<lparr>tvl_sec = tv_sec s, tvl_usec = tv_nsec s sdiv 1000\<rparr>"

definition itimerspec_from_itimerval :: "itimerval \<Rightarrow> itimerspec" where
  "itimerspec_from_itimerval v =
     \<lparr>it_interval = time_from_timeval (itv_interval v), it_value = time_from_timeval (itv_value v)\<rparr>"

definition itimerval_from_itimerspec :: "itimerspec \<Rightarrow> itimerval" where
  "itimerval_from_itimerspec s =
     \<lparr>itv_interval = timeval_from_time (it_interval s), itv_value = timeval_from_time (it_value s)\<rparr>"

section \<open>Nanoseconds\<close>

definition nanos :: "timespec \<Rightarrow> int" where
  "nanos t = tv_sec t * 1000000000 + tv_nsec t"

definition normal :: "timespec \<Rightarrow> bool" where
  "normal t \<longleftrightarrow> 0 \<le> tv_nsec t \<and> tv_nsec t < 1000000000"

lemma smod_once: "0 \<le> a \<Longrightarrow> 0 < b \<Longrightarrow> (a :: int) smod b = a mod b"
  by (cases "a = 0") (simp_all add: signed_modulo_int_def signed_divide_int_def minus_div_mult_eq_mod)

lemma time_add_nanos:
  assumes "normal a" "normal b"
  shows "normal (time_add a b)" "nanos (time_add a b) = nanos a + nanos b"
proof -
  have m: "x smod 1000000000 = x - 1000000000" if "1000000000 \<le> x" "x < 2000000000" for x :: int
  proof -
    have "x mod 1000000000 = (x - 1000000000) mod 1000000000" by (rule minus_mod_self2 [symmetric])
    also have "\<dots> = x - 1000000000" by (rule mod_pos_pos_trivial) (use that in linarith)+
    finally show ?thesis using smod_once [of x 1000000000] that by linarith
  qed
  have "tv_nsec a + tv_nsec b < 2000000000" "0 \<le> tv_nsec a + tv_nsec b" using assms by (simp_all add: normal_def)
  then show "normal (time_add a b)" "nanos (time_add a b) = nanos a + nanos b"
    using m [of "tv_nsec a + tv_nsec b"] by (auto simp: time_add_def normal_def nanos_def Let_def)
qed

lemma time_sub_nanos:
  assumes "normal a" "normal b"
  shows "normal (time_sub a b)" "nanos (time_sub a b) = nanos a - nanos b"
  using assms by (auto simp: time_sub_def normal_def nanos_def Let_def)

lemma nanos_inj: "normal a \<Longrightarrow> normal b \<Longrightarrow> nanos a = nanos b \<Longrightarrow> a = b"
proof -
  assume "normal a" "normal b" and eq: "nanos a = nanos b"
  then have s: "tv_sec a = tv_sec b"
    unfolding normal_def nanos_def by (cases "tv_sec a < tv_sec b"; cases "tv_sec b < tv_sec a") linarith+
  then have "tv_nsec a = tv_nsec b" using eq by (simp add: nanos_def)
  with s show "a = b" by simp
qed

lemma nanos_le_0: "normal t \<Longrightarrow> (tv_sec t < 0 \<or> tv_sec t = 0 \<and> tv_nsec t = 0) \<longleftrightarrow> nanos t \<le> 0"
  unfolding normal_def nanos_def by (cases "tv_sec t < 0"; cases "tv_sec t = 0") (simp_all, linarith+)

lemma time_compare_sign: "normal a \<Longrightarrow> normal b \<Longrightarrow> (time_compare a b < 0 \<longleftrightarrow> nanos a < nanos b)"
proof -
  assume n: "normal a" "normal b"
  have "nanos a < nanos b" if "tv_sec a < tv_sec b" using that n unfolding normal_def nanos_def by linarith
  moreover have "\<not> nanos a < nanos b" if "tv_sec b < tv_sec a" using that n unfolding normal_def nanos_def by linarith
  ultimately show ?thesis 
    by (cases "tv_sec a" "tv_sec b" rule: linorder_cases) (auto simp: time_compare_def nanos_def)
qed

section \<open>Interface: durations\<close>

text \<open>
  What timers rely on: addition and subtraction on well-formed values are those of their lengths.
\<close>

locale duration =
  fixes len :: "'t \<Rightarrow> int"
    and wf :: "'t \<Rightarrow> bool"
    and plus_t :: "'t \<Rightarrow> 't \<Rightarrow> 't"
    and minus_t :: "'t \<Rightarrow> 't \<Rightarrow> 't"
  assumes plus_law: "wf a \<Longrightarrow> wf b \<Longrightarrow> wf (plus_t a b) \<and> len (plus_t a b) = len a + len b"
    and minus_law: "wf a \<Longrightarrow> wf b \<Longrightarrow> wf (minus_t a b) \<and> len (minus_t a b) = len a - len b"
    and len_inj: "wf a \<Longrightarrow> wf b \<Longrightarrow> len a = len b \<Longrightarrow> a = b"
begin

lemma minus_plus: "wf a \<Longrightarrow> wf b \<Longrightarrow> minus_t (plus_t a b) b = a"
  using plus_law minus_law len_inj by (metis add_diff_cancel_right')

lemma repeated:
  assumes "wf v" "wf i"
  shows "wf (((\<lambda>x. plus_t x i) ^^ n) v) \<and> len (((\<lambda>x. plus_t x i) ^^ n) v) = len v + int n * len i"
  using assms plus_law by (induction n) (auto simp: algebra_simps)

text \<open>How often a positive interval is added to a value that is not positive until it is.\<close>

lemma catch_up:
  assumes "wf v" "wf i" "len i > 0" "len v \<le> 0" and n_def: "n = Suc (nat (- len v div len i))"
  shows "\<forall>j < n. len (((\<lambda>x. plus_t x i) ^^ j) v) \<le> 0"
    and "0 < len (((\<lambda>x. plus_t x i) ^^ n) v)" "len (((\<lambda>x. plus_t x i) ^^ n) v) = len i - (- len v) mod len i"
proof -
  let ?d = "- len v div len i"
  have d: "0 \<le> ?d" "?d * len i + (- len v) mod len i = - len v" "0 \<le> (- len v) mod len i" "(- len v) mod len i < len i"
    using pos_imp_zdiv_nonneg_iff [OF assms(3), of "- len v"] assms(4) div_mult_mod_eq [of "- len v" "len i"]
      pos_mod_sign [OF assms(3), of "- len v"] pos_mod_bound [OF assms(3), of "- len v"] by linarith+
  show "\<forall>j < n. len (((\<lambda>x. plus_t x i) ^^ j) v) \<le> 0"
  proof (intro allI impI)
    fix j assume "j < n"
    then have "int j \<le> ?d" using d(1) by (simp add: n_def)
    then have "int j * len i \<le> ?d * len i" using assms(3) by (simp add: mult_right_mono)
    then show "len (((\<lambda>x. plus_t x i) ^^ j) v) \<le> 0" using repeated [OF assms(1,2), of j] d(2,3) by linarith
  qed
  have "int n = ?d + 1" using d(1) by (simp add: n_def)
  then have "len (((\<lambda>x. plus_t x i) ^^ n) v) = len v + ?d * len i + len i"
    using repeated [OF assms(1,2), of n] by (simp add: algebra_simps)
  then show "0 < len (((\<lambda>x. plus_t x i) ^^ n) v)" "len (((\<lambda>x. plus_t x i) ^^ n) v) = len i - (- len v) mod len i"
    using d(2-4) by linarith+
qed

end

lemma times_duration: "duration nanos normal time_add time_sub"
proof
  fix a b
  assume a: "normal a" and b: "normal b"
  show "normal (time_add a b) \<and> nanos (time_add a b) = nanos a + nanos b" using time_add_nanos [OF a b] by (rule conjI)
  show "normal (time_sub a b) \<and> nanos (time_sub a b) = nanos a - nanos b" using time_sub_nanos [OF a b] by (rule conjI)
  assume "nanos a = nanos b"
  then show "a = b" by (rule nanos_inj [OF a b])
qed

interpretation times: duration nanos normal time_add time_sub
  by (rule times_duration)

end
