(* ===== verification/Timers.thy ===== *)
theory Timers
  imports Clock_Time Task_Sched
begin

text \<open>
  Clocks and timers, \<^verbatim>\<open>kernel/time/clock.c\<close>, \<^verbatim>\<open>kernel/time/timer.c\<close> and \<open>time_inc_clock\<close> of \<^verbatim>\<open>clock.h\<close>. The timers
  that wait on a clock are a circular list of theory Linked_List, a timer standing for its node; the timers
  of a process are a sequence; the hash maps of timers and clocks are maps. Memory from \<open>malloc\<close> comes as an
  argument, with its unspecified contents. What happens to a signal that is queued and what a kernel
  callback does are arguments, \<open>enqueue\<close> and \<open>callback\<close>. Theory Timer_Ticks holds the properties.
\<close>

section \<open>Model\<close>

abbreviation (input) SIGALRM :: int where "SIGALRM \<equiv> 14"
abbreviation (input) SIGPROF :: int where "SIGPROF \<equiv> 22"
abbreviation (input) SIGVTALRM :: int where "SIGVTALRM \<equiv> 25"
abbreviation (input) SI_TIMER :: int where "SI_TIMER \<equiv> 2"
abbreviation (input) SIGEV_NONE :: int where "SIGEV_NONE \<equiv> 0"
abbreviation (input) SIGEV_SIGNAL :: int where "SIGEV_SIGNAL \<equiv> 1"
abbreviation (input) SIGEV_THREAD :: int where "SIGEV_THREAD \<equiv> 2"
abbreviation (input) SIGEV_KERNEL :: int where "SIGEV_KERNEL \<equiv> 3"
abbreviation (input) SIGEV_WAKEUP :: int where "SIGEV_WAKEUP \<equiv> 4"
abbreviation (input) CLOCK_MONOTONIC :: int where "CLOCK_MONOTONIC \<equiv> 0"
abbreviation (input) CLOCK_PROCESS_CPUTIME_ID :: int where "CLOCK_PROCESS_CPUTIME_ID \<equiv> 1"
abbreviation (input) CLOCK_REALTIME :: int where "CLOCK_REALTIME \<equiv> 2"
abbreviation (input) CLOCK_THREAD_CPUTIME_ID :: int where "CLOCK_THREAD_CPUTIME_ID \<equiv> 3"
abbreviation (input) ITIMER_PROF :: int where "ITIMER_PROF \<equiv> 3"
abbreviation (input) ITIMER_REAL :: int where "ITIMER_REAL \<equiv> 1"
abbreviation (input) ITIMER_VIRTUAL :: int where "ITIMER_VIRTUAL \<equiv> 2"
abbreviation (input) QUEUED_SIGNAL_DONT_FREE_FLAG :: u32 where "QUEUED_SIGNAL_DONT_FREE_FLAG \<equiv> 1"

definition zero_time :: timespec where
  "zero_time = \<lparr>tv_sec = 0, tv_nsec = 0\<rparr>"

record queued_signal =
  qs_flags :: u32
  qs_signo :: int
  qs_code :: int
  qs_value :: u64

record sigevent =
  sigev_notify :: int
  sigev_signo :: int
  sigev_value :: u64

record timer =
  tm_clock :: "addr option"
  tm_callback :: "addr option"
  tm_closure :: addr
  tm_spec :: itimerspec
  tm_event_type :: int
  tm_overuns :: int
  tm_id :: int
  tm_signal :: "addr option"
  tm_task :: addr
  tm_ignore_kernel_ticks :: bool

record clock =
  ck_id :: int
  ck_resolution :: timespec
  ck_time :: timespec
  ck_timer_list :: addr

record timed_process =
  pt_timer_list :: "addr list"
  pt_alarm_timer :: "addr option"
  pt_profile_timer :: "addr option"
  pt_virtual_timer :: "addr option"
  pt_clock :: "addr option"

record time_state =
  ts_kernel :: kernel
  ts_timers :: "addr \<rightharpoonup> timer"
  ts_clocks :: "addr \<rightharpoonup> clock"
  ts_nodes :: list_mem
  ts_signals :: "addr \<rightharpoonup> queued_signal"
  ts_timer_map :: "int \<rightharpoonup> addr"
  ts_clock_map :: "int \<rightharpoonup> addr"
  ts_next_timer :: int
  ts_next_clock :: int
  ts_monotonic :: addr
  ts_realtime :: addr
  ts_processes :: "addr \<rightharpoonup> timed_process"
  ts_process_of :: "addr \<rightharpoonup> addr"
  ts_task_clock :: "addr \<Rightarrow> addr option"

definition upd_timer :: "addr \<Rightarrow> (timer \<Rightarrow> timer) \<Rightarrow> time_state \<Rightarrow> time_state option" where
  "upd_timer a f s = do { tm \<leftarrow> ts_timers s a; Some (s\<lparr>ts_timers := (ts_timers s)(a \<mapsto> f tm)\<rparr>) }"

definition upd_timed_process :: "addr \<Rightarrow> (timed_process \<Rightarrow> timed_process) \<Rightarrow> time_state \<Rightarrow> time_state option" where
  "upd_timed_process p f s = do { pr \<leftarrow> ts_processes s p; Some (s\<lparr>ts_processes := (ts_processes s)(p \<mapsto> f pr)\<rparr>) }"

subsection \<open>Clocks\<close>

definition allocate_clockid :: "time_state \<Rightarrow> int \<times> time_state" where
  "allocate_clockid s = (ts_next_clock s, s\<lparr>ts_next_clock := ts_next_clock s + 1\<rparr>)"

definition time_create_clock :: "int \<Rightarrow> addr \<Rightarrow> addr \<Rightarrow> timespec \<Rightarrow> time_state \<Rightarrow> addr option \<times> time_state" where
  "time_create_clock id' mem head max_resolution s =
     (if id' = CLOCK_PROCESS_CPUTIME_ID \<or> id' = CLOCK_THREAD_CPUTIME_ID then
        let (real_id, s) = allocate_clockid s;
            clock = \<lparr>ck_id = real_id, ck_resolution = max_resolution, ck_time = zero_time, ck_timer_list = head\<rparr>
        in (Some mem, s\<lparr>ts_clocks := (ts_clocks s)(mem \<mapsto> clock), ts_nodes := init_list head (ts_nodes s),
              ts_clock_map := (ts_clock_map s)(real_id \<mapsto> mem)\<rparr>)
      else (None, s))"

definition time_destroy_clock :: "addr \<Rightarrow> time_state \<Rightarrow> time_state option" where
  "time_destroy_clock clock s = do {
     c \<leftarrow> ts_clocks s clock;
     Some (s\<lparr>ts_clock_map := (ts_clock_map s)(ck_id c := None), ts_clocks := (ts_clocks s)(clock := None)\<rparr>)
   }"

definition time_get_clock :: "addr \<Rightarrow> int \<Rightarrow> time_state \<Rightarrow> addr option option" where
  "time_get_clock cur id' s =
     (if id' = CLOCK_MONOTONIC then Some (Some (ts_monotonic s))
      else if id' = CLOCK_REALTIME then Some (Some (ts_realtime s))
      else if id' = CLOCK_PROCESS_CPUTIME_ID then do {
        p \<leftarrow> ts_process_of s cur;
        pr \<leftarrow> ts_processes s p;
        Some (pt_clock pr)
      }
      else if id' = CLOCK_THREAD_CPUTIME_ID then Some (ts_task_clock s cur)
      else Some (ts_clock_map s id'))"

definition time_read_clock :: "addr \<Rightarrow> int \<Rightarrow> time_state \<Rightarrow> timespec option" where
  "time_read_clock cur id' s = do {
     p \<leftarrow> time_get_clock cur id' s;
     clock \<leftarrow> p;
     c \<leftarrow> ts_clocks s clock;
     Some (ck_time c)
   }"

definition time_add_timer_to_clock :: "addr option \<Rightarrow> addr \<Rightarrow> time_state \<Rightarrow> time_state option" where
  "time_add_timer_to_clock clock tm s = do {
     a \<leftarrow> clock;
     c \<leftarrow> ts_clocks s a;
     Some (s\<lparr>ts_nodes := list_append (ck_timer_list c) tm (ts_nodes s)\<rparr>)
   }"

definition time_remove_timer_from_clock :: "addr option \<Rightarrow> addr \<Rightarrow> time_state \<Rightarrow> time_state option" where
  "time_remove_timer_from_clock clock tm s = do {
     a \<leftarrow> clock;
     c \<leftarrow> ts_clocks s a;
     Some (s\<lparr>ts_nodes := list_remove tm (ts_nodes s)\<rparr>)
   }"

text \<open>\<open>__time_remove_timer_from_clock\<close> does not look at the clock.\<close>

definition unlink_timer :: "addr \<Rightarrow> time_state \<Rightarrow> time_state option" where
  "unlink_timer tm s = Some (s\<lparr>ts_nodes := list_remove tm (ts_nodes s)\<rparr>)"

subsection \<open>Timers\<close>

definition allocate_timerid :: "time_state \<Rightarrow> int \<times> time_state" where
  "allocate_timerid s = (ts_next_timer s, s\<lparr>ts_next_timer := ts_next_timer s + 1\<rparr>)"

definition time_get_timer :: "int \<Rightarrow> time_state \<Rightarrow> addr option" where
  "time_get_timer id' s = ts_timer_map s id'"

definition time_is_timer_armed :: "timer \<Rightarrow> bool" where
  "time_is_timer_armed tm \<longleftrightarrow> tv_sec (it_value (tm_spec tm)) \<noteq> 0 \<or> tv_nsec (it_value (tm_spec tm)) \<noteq> 0"

text \<open>The fields \<open>time_create_timer\<close> sets before it allocates the signal; the others keep the contents of the new memory.\<close>

definition fresh_timer :: "timer \<Rightarrow> addr \<Rightarrow> addr option \<Rightarrow> sigevent option \<Rightarrow> int \<Rightarrow> timer" where
  "fresh_timer junk cur clock sevp id' = junk\<lparr>tm_overuns := 0,
     tm_event_type := (case sevp of Some e \<Rightarrow> sigev_notify e | None \<Rightarrow> SIGEV_SIGNAL), tm_id := id',
     tm_spec := \<lparr>it_interval = zero_time, it_value = zero_time\<rparr>, tm_clock := clock, tm_task := cur\<rparr>"

definition timer_signal :: "sigevent option \<Rightarrow> int \<Rightarrow> queued_signal" where
  "timer_signal sevp id' = (case sevp of
     Some e \<Rightarrow> \<lparr>qs_flags = 0, qs_signo = sigev_signo e, qs_code = SI_TIMER, qs_value = sigev_value e\<rparr>
   | None \<Rightarrow> \<lparr>qs_flags = 0, qs_signo = SIGALRM, qs_code = SI_TIMER, qs_value = of_int (take_bit 32 id')\<rparr>)"

definition time_create_timer ::
  "addr \<Rightarrow> addr option \<Rightarrow> sigevent option \<Rightarrow> (addr \<times> timer) option \<Rightarrow> addr option \<Rightarrow> time_state \<Rightarrow>
   (int \<times> int option \<times> time_state) option" where
  "time_create_timer cur clock sevp mem sigmem s = (case mem of
     None \<Rightarrow> Some (- EAGAIN, None, s)
   | Some (to_add, junk) \<Rightarrow> do {
       let (id', s) = allocate_timerid s;
       let tm = fresh_timer junk cur clock sevp id';
       let s = s\<lparr>ts_nodes := init_list to_add (ts_nodes s)\<rparr>;
       let wants_signal = (tm_event_type tm = SIGEV_SIGNAL \<or> tm_event_type tm = SIGEV_THREAD);
       if wants_signal \<and> sigmem = None then Some (- EAGAIN, None, s)
       else do {
         let tm = (if wants_signal then tm\<lparr>tm_signal := sigmem\<rparr> else tm);
         let s = (if wants_signal then s\<lparr>ts_signals := (ts_signals s)(the sigmem \<mapsto> timer_signal sevp id')\<rparr> else s);
         let s = s\<lparr>ts_timers := (ts_timers s)(to_add \<mapsto> tm)\<rparr>;
         p \<leftarrow> ts_process_of s cur;
         s \<leftarrow> upd_timed_process p (\<lambda>pr. pr\<lparr>pt_timer_list := pt_timer_list pr @ [to_add]\<rparr>) s;
         Some (0, Some id', s\<lparr>ts_timer_map := (ts_timer_map s)(id' \<mapsto> to_add)\<rparr>)
       }
     })"

definition task_free_queued_signal :: "addr \<Rightarrow> time_state \<Rightarrow> time_state option" where
  "task_free_queued_signal a s = do {
     q \<leftarrow> ts_signals s a;
     Some (if qs_flags q AND QUEUED_SIGNAL_DONT_FREE_FLAG \<noteq> 0
           then s\<lparr>ts_signals := (ts_signals s)(a \<mapsto> q\<lparr>qs_flags := qs_flags q AND NOT QUEUED_SIGNAL_DONT_FREE_FLAG\<rparr>)\<rparr>
           else s\<lparr>ts_signals := (ts_signals s)(a := None)\<rparr>)
   }"

definition time_delete_timer :: "addr \<Rightarrow> time_state \<Rightarrow> (int \<times> time_state) option" where
  "time_delete_timer a s = do {
     tm \<leftarrow> ts_timers s a;
     s \<leftarrow> (if time_is_timer_armed tm then time_remove_timer_from_clock (tm_clock tm) a s else Some s);
     s \<leftarrow> (case tm_signal tm of Some g \<Rightarrow> task_free_queued_signal g s | None \<Rightarrow> Some s);
     s \<leftarrow> (if tm_id tm \<noteq> 0 then do {
           p \<leftarrow> ts_process_of s (tm_task tm);
           s \<leftarrow> upd_timed_process p (\<lambda>pr. pr\<lparr>pt_timer_list := remove1 a (pt_timer_list pr)\<rparr>) s;
           Some (s\<lparr>ts_timer_map := (ts_timer_map s)(tm_id tm := None)\<rparr>)
         } else Some s);
     Some (0, s\<lparr>ts_timers := (ts_timers s)(a := None)\<rparr>)
   }"

definition time_get_timer_overrun :: "timer \<Rightarrow> int" where
  "time_get_timer_overrun tm = tm_overuns tm"

definition time_get_timer_value :: "timer \<Rightarrow> int \<times> itimerspec" where
  "time_get_timer_value tm = (0, tm_spec tm)"

text \<open>The second result is what is stored through \<open>old\<close>, if that is not NULL.\<close>

definition time_set_timer :: "addr \<Rightarrow> itimerspec option \<Rightarrow> time_state \<Rightarrow> (int \<times> itimerspec \<times> time_state) option" where
  "time_set_timer a new_spec s = do {
     tm \<leftarrow> ts_timers s a;
     let old = tm_spec tm;
     (case new_spec of
        None \<Rightarrow> Some (0, old, s)
      | Some spec \<Rightarrow> do {
          let was_armed = time_is_timer_armed tm;
          let tm = tm\<lparr>tm_spec := spec\<rparr>;
          s \<leftarrow> upd_timer a (\<lambda>_. tm) s;
          let now_armed = time_is_timer_armed tm;
          s \<leftarrow> (if was_armed \<noteq> now_armed then
                 if now_armed then time_add_timer_to_clock (tm_clock tm) a s
                 else time_remove_timer_from_clock (tm_clock tm) a s
               else Some s);
          Some (0, old, s)
        })
   }"

subsection \<open>Kernel callbacks\<close>

definition time_register_kernel_callback ::
  "addr \<Rightarrow> timespec \<Rightarrow> addr \<Rightarrow> addr \<Rightarrow> addr option \<Rightarrow> time_state \<Rightarrow> (addr \<times> time_state) option" where
  "time_register_kernel_callback cur delay fn closure mem s = do {
     a \<leftarrow> mem;
     clock \<leftarrow> time_get_clock cur CLOCK_MONOTONIC s;
     let tm = \<lparr>tm_clock = clock, tm_callback = Some fn, tm_closure = closure,
       tm_spec = \<lparr>it_interval = zero_time, it_value = delay\<rparr>, tm_event_type = SIGEV_KERNEL, tm_overuns = 0, tm_id = 0,
       tm_signal = None, tm_task = 0, tm_ignore_kernel_ticks = False\<rparr>;
     s \<leftarrow> time_add_timer_to_clock clock a (s\<lparr>ts_timers := (ts_timers s)(a \<mapsto> tm)\<rparr>);
     Some (a, s)
   }"

definition reset_kernel_callback_locked :: "addr \<Rightarrow> timespec \<Rightarrow> time_state \<Rightarrow> time_state option" where
  "reset_kernel_callback_locked a new_delay s = do {
     s \<leftarrow> upd_timer a (\<lambda>tm. tm\<lparr>tm_spec := (tm_spec tm)\<lparr>it_value := new_delay\<rparr>\<rparr>) s;
     tm \<leftarrow> ts_timers s a;
     time_add_timer_to_clock (tm_clock tm) a s
   }"

definition time_reset_kernel_callback :: "addr \<Rightarrow> timespec \<Rightarrow> time_state \<Rightarrow> time_state option" where
  "time_reset_kernel_callback a new_delay s =
     map_option (\<lambda>(_, _, s). s) (time_set_timer a (Some \<lparr>it_interval = zero_time, it_value = new_delay\<rparr>) s)"

definition time_cancel_kernel_callback :: "addr \<Rightarrow> time_state \<Rightarrow> time_state option" where
  "time_cancel_kernel_callback a s = map_option snd (time_delete_timer a s)"


subsection \<open>Firing and ticking\<close>

type_synonym enqueue_op = "addr \<Rightarrow> addr \<Rightarrow> time_state \<Rightarrow> time_state option"
type_synonym callback_op = "addr \<Rightarrow> addr \<Rightarrow> addr \<Rightarrow> time_state \<Rightarrow> time_state option"

definition time_fire_timer :: "enqueue_op \<Rightarrow> callback_op \<Rightarrow> addr \<Rightarrow> addr \<Rightarrow> time_state \<Rightarrow> time_state option" where
  "time_fire_timer enqueue callback cpu a s = do {
     tm \<leftarrow> ts_timers s a;
     if tm_event_type tm = SIGEV_SIGNAL \<or> tm_event_type tm = SIGEV_THREAD then do {
       g \<leftarrow> tm_signal tm;
       q \<leftarrow> ts_signals s g;
       if qs_flags q AND QUEUED_SIGNAL_DONT_FREE_FLAG \<noteq> 0 then do {
         assert_that (tm_overuns tm < INT_MAX);
         upd_timer a (\<lambda>tm. tm\<lparr>tm_overuns := tm_overuns tm + 1\<rparr>) s
       } else
         enqueue (tm_task tm) g
           (s\<lparr>ts_signals := (ts_signals s)(g \<mapsto> q\<lparr>qs_flags := qs_flags q OR QUEUED_SIGNAL_DONT_FREE_FLAG\<rparr>)\<rparr>)
     }
     else if tm_event_type tm = SIGEV_KERNEL then do {
       fn \<leftarrow> tm_callback tm;
       callback fn a (tm_closure tm) s
     }
     else if tm_event_type tm = SIGEV_WAKEUP then do {
       (_, k) \<leftarrow> task_unblock cpu (tm_task tm) 0 (ts_kernel s);
       Some (s\<lparr>ts_kernel := k\<rparr>)
     }
     else if tm_event_type tm = SIGEV_NONE then Some s
     else None
   }"

definition time_expired :: "timespec \<Rightarrow> bool" where
  "time_expired v \<longleftrightarrow> tv_sec v < 0 \<or> (tv_sec v = 0 \<and> tv_nsec v = 0)"

text \<open>The loop that fires a periodic timer until its value is in the future again.\<close>

partial_function (option) fire_until_future ::
  "enqueue_op \<Rightarrow> callback_op \<Rightarrow> addr \<Rightarrow> addr \<Rightarrow> time_state \<Rightarrow> time_state option" where
  "fire_until_future enqueue callback cpu a s = do {
     s \<leftarrow> time_fire_timer enqueue callback cpu a s;
     s \<leftarrow> upd_timer a (\<lambda>tm. tm\<lparr>tm_spec := (tm_spec tm)\<lparr>it_value := time_add (it_value (tm_spec tm)) (it_interval (tm_spec tm))\<rparr>\<rparr>) s;
     tm \<leftarrow> ts_timers s a;
     if time_expired (it_value (tm_spec tm)) then fire_until_future enqueue callback cpu a s else Some s
   }"

definition time_tick_timer ::
  "enqueue_op \<Rightarrow> callback_op \<Rightarrow> addr \<Rightarrow> addr \<Rightarrow> timespec \<Rightarrow> bool \<Rightarrow> time_state \<Rightarrow> time_state option" where
  "time_tick_timer enqueue callback cpu a to_sub kernel_time s = do {
     tm \<leftarrow> ts_timers s a;
     if tm_ignore_kernel_ticks tm \<and> kernel_time then Some s
     else do {
       s \<leftarrow> upd_timer a (\<lambda>tm. tm\<lparr>tm_spec := (tm_spec tm)\<lparr>it_value := time_sub (it_value (tm_spec tm)) to_sub\<rparr>\<rparr>) s;
       tm \<leftarrow> ts_timers s a;
       if time_expired (it_value (tm_spec tm)) then
         if tv_sec (it_interval (tm_spec tm)) \<noteq> 0 \<or> tv_nsec (it_interval (tm_spec tm)) \<noteq> 0
         then fire_until_future enqueue callback cpu a s
         else do {
           s \<leftarrow> upd_timer a (\<lambda>tm. tm\<lparr>tm_spec := (tm_spec tm)\<lparr>it_value := zero_time\<rparr>\<rparr>) s;
           s \<leftarrow> unlink_timer a s;
           time_fire_timer enqueue callback cpu a s
         }
       else Some s
     }
   }"

text \<open>One tick of a clock: its time advances and every timer on its list is ticked, by the safe iteration.\<close>

definition time_inc_clock_timers ::
  "enqueue_op \<Rightarrow> callback_op \<Rightarrow> addr \<Rightarrow> addr \<Rightarrow> timespec \<Rightarrow> bool \<Rightarrow> time_state \<Rightarrow> time_state option" where
  "time_inc_clock_timers enqueue callback cpu timer_list amt kernel_time s =
     map_option (\<lambda>(m, s). s\<lparr>ts_nodes := m\<rparr>)
       (list_for_each_entry_safe timer_list
          (\<lambda>a (m, s). map_option (\<lambda>s. (ts_nodes s, s)) (time_tick_timer enqueue callback cpu a amt kernel_time (s\<lparr>ts_nodes := m\<rparr>)))
          (ts_nodes s, s))"

definition time_inc_clock ::
  "enqueue_op \<Rightarrow> callback_op \<Rightarrow> addr \<Rightarrow> addr \<Rightarrow> timespec \<Rightarrow> bool \<Rightarrow> time_state \<Rightarrow> time_state option" where
  "time_inc_clock enqueue callback cpu clock amt kernel_time s = do {
     c \<leftarrow> ts_clocks s clock;
     let s = s\<lparr>ts_clocks := (ts_clocks s)(clock \<mapsto> c\<lparr>ck_time := time_add (ck_time c) amt\<rparr>)\<rparr>;
     time_inc_clock_timers enqueue callback cpu (ck_timer_list c) amt kernel_time s
   }"

definition inc_global_clocks ::
  "enqueue_op \<Rightarrow> callback_op \<Rightarrow> addr \<Rightarrow> timespec \<Rightarrow> time_state \<Rightarrow> time_state option" where
  "inc_global_clocks enqueue callback cpu interval s = do {
     s \<leftarrow> time_inc_clock enqueue callback cpu (ts_monotonic s) interval False s;
     time_inc_clock enqueue callback cpu (ts_realtime s) interval False s
   }"

subsection \<open>Interval timers of a process\<close>

definition itimer_of :: "int \<Rightarrow> timed_process \<Rightarrow> addr option option" where
  "itimer_of which pr =
     (if which = ITIMER_REAL then Some (pt_alarm_timer pr)
      else if which = ITIMER_PROF then Some (pt_profile_timer pr)
      else if which = ITIMER_VIRTUAL then Some (pt_virtual_timer pr)
      else None)"

definition set_itimer_of :: "int \<Rightarrow> addr option \<Rightarrow> timed_process \<Rightarrow> timed_process" where
  "set_itimer_of which a pr =
     (if which = ITIMER_REAL then pr\<lparr>pt_alarm_timer := a\<rparr>
      else if which = ITIMER_PROF then pr\<lparr>pt_profile_timer := a\<rparr>
      else pr\<lparr>pt_virtual_timer := a\<rparr>)"

definition zero_itimerval :: itimerval where
  "zero_itimerval = \<lparr>itv_interval = \<lparr>tvl_sec = 0, tvl_usec = 0\<rparr>, itv_value = \<lparr>tvl_sec = 0, tvl_usec = 0\<rparr>\<rparr>"

definition time_getitimer :: "addr \<Rightarrow> int \<Rightarrow> time_state \<Rightarrow> (int \<times> itimerval option) option" where
  "time_getitimer cur which s = do {
     p \<leftarrow> ts_process_of s cur;
     pr \<leftarrow> ts_processes s p;
     (case itimer_of which pr of
        None \<Rightarrow> Some (- EINVAL, None)
      | Some None \<Rightarrow> Some (0, Some zero_itimerval)
      | Some (Some a) \<Rightarrow> do {
          tm \<leftarrow> ts_timers s a;
          Some (0, Some (itimerval_from_itimerspec (snd (time_get_timer_value tm))))
        })
   }"

text \<open>The clock and signal of a new interval timer.\<close>

definition itimer_source :: "addr \<Rightarrow> int \<Rightarrow> time_state \<Rightarrow> timed_process \<Rightarrow> (addr option \<times> int) option" where
  "itimer_source cur which s pr =
     (if which = ITIMER_REAL then do { c \<leftarrow> time_get_clock cur CLOCK_REALTIME s; Some (c, SIGALRM) }
      else if which = ITIMER_PROF then Some (pt_clock pr, SIGPROF)
      else Some (pt_clock pr, SIGVTALRM))"

definition time_setitimer ::
  "addr \<Rightarrow> int \<Rightarrow> itimerval option \<Rightarrow> bool \<Rightarrow> (addr \<times> timer) option \<Rightarrow> addr option \<Rightarrow> time_state \<Rightarrow>
   (int \<times> itimerval option \<times> time_state) option" where
  "time_setitimer cur which nval wants_old mem sigmem s =
     (if nval = None \<and> \<not> wants_old then Some (- EINVAL, None, s)
      else do {
        p \<leftarrow> ts_process_of s cur;
        pr \<leftarrow> ts_processes s p;
        (case itimer_of which pr of
           None \<Rightarrow> Some (- EINVAL, None, s)
         | Some timerp \<Rightarrow> do {
             (ret, timerp, s) \<leftarrow> (case timerp of
                 Some a \<Rightarrow> Some (0, Some a, s)
               | None \<Rightarrow> do {
                   (clock, signo) \<leftarrow> itimer_source cur which s pr;
                   (ret, id', s) \<leftarrow> time_create_timer cur clock
                     (Some \<lparr>sigev_notify = SIGEV_SIGNAL, sigev_signo = signo, sigev_value = 0\<rparr>) mem sigmem s;
                   (case id' of
                      None \<Rightarrow> Some (ret, None, s)
                    | Some id' \<Rightarrow> do {
                        a \<leftarrow> time_get_timer id' s;
                        s \<leftarrow> upd_timed_process p (set_itimer_of which (Some a)) s;
                        s \<leftarrow> upd_timer a (\<lambda>tm. tm\<lparr>tm_ignore_kernel_ticks := (which = ITIMER_VIRTUAL)\<rparr>) s;
                        Some (0, Some a, s)
                      })
                 });
             (case timerp of
                None \<Rightarrow> Some (ret, None, s)
              | Some a \<Rightarrow> do {
                  tm \<leftarrow> ts_timers s a;
                  let old = (if wants_old then Some (itimerval_from_itimerspec (tm_spec tm)) else None);
                  (case nval of
                     None \<Rightarrow> Some (0, old, s)
                   | Some v \<Rightarrow> do {
                       (ret, _, s) \<leftarrow> time_set_timer a (Some (itimerspec_from_itimerval v)) s;
                       Some (ret, old, s)
                     })
                })
           })
      })"

subsection \<open>Sleeping for a time\<close>

text \<open>
  \<open>time_wakeup_after\<close> up to the point where the task blocks or returns, and what it does when it runs again.
  The timer is a variable of the function, at address \<open>a\<close>. The variant \<open>__time_wakeup_after\<close> is called by a task
  that has prepared its wait already.
\<close>

definition sleep_timer :: "addr \<Rightarrow> addr option \<Rightarrow> timespec \<Rightarrow> timer" where
  "sleep_timer cur clock delta = \<lparr>tm_clock = clock, tm_callback = None, tm_closure = 0,
     tm_spec = \<lparr>it_interval = zero_time, it_value = delta\<rparr>, tm_event_type = SIGEV_WAKEUP, tm_overuns = 0, tm_id = 0,
     tm_signal = None, tm_task = cur, tm_ignore_kernel_ticks = False\<rparr>"

definition time_wakeup_start ::
  "bool \<Rightarrow> addr \<Rightarrow> addr \<Rightarrow> int \<Rightarrow> timespec \<Rightarrow> addr \<Rightarrow> time_state \<Rightarrow> (wait_step \<times> time_state) option" where
  "time_wakeup_start prepared cpu cur clockid delta a s = do {
     clock \<leftarrow> time_get_clock cur clockid s;
     let tm = sleep_timer cur clock delta;
     if \<not> time_is_timer_armed tm then Some (Wait_returns 0, s)
     else do {
       s \<leftarrow> time_add_timer_to_clock clock a (s\<lparr>ts_timers := (ts_timers s)(a \<mapsto> tm)\<rparr>);
       (ret, k) \<leftarrow> (if prepared then Some (0, ts_kernel s) else wait_prepare cpu cur True (ts_kernel s));
       if ret \<noteq> 0 then Some (Wait_returns ret, s\<lparr>ts_kernel := k\<rparr>)
       else do {
         k \<leftarrow> do_enable_preemption cpu k;
         Some (Wait_blocks, s\<lparr>ts_kernel := k\<rparr>)
       }
     }
   }"

definition time_wakeup_finish :: "addr \<Rightarrow> time_state \<Rightarrow> (timespec \<times> time_state) option" where
  "time_wakeup_finish a s = do {
     tm \<leftarrow> ts_timers s a;
     s \<leftarrow> (if time_is_timer_armed tm then time_remove_timer_from_clock (tm_clock tm) a s else Some s);
     Some (it_value (tm_spec tm), s\<lparr>ts_timers := (ts_timers s)(a := None)\<rparr>)
   }"

end
