(* ===== verification/Timer_Ticks.thy ===== *)
theory Timer_Ticks
  imports Timers
begin

text \<open>
  Properties of theory Timers: how often a periodic timer fires and how many overruns it counts, over any
  sequence of ticks, and what a negative interval does.
\<close>

section \<open>How often a timer expires\<close>

definition expirations :: "int \<Rightarrow> int \<Rightarrow> int \<Rightarrow> int" where
  "expirations value interval elapsed = (if elapsed < value then 0 else (elapsed - value) div interval + 1)"

definition time_left :: "int \<Rightarrow> int \<Rightarrow> int \<Rightarrow> int" where
  "time_left value interval elapsed = (if elapsed < value then value - elapsed else interval - (elapsed - value) mod interval)"

lemma expirations_bounds:
  assumes "0 < i"
  shows "0 \<le> expirations v i t" "time_left v i t = v - t + expirations v i t * i" "0 < time_left v i t"
    "0 < expirations v i t \<Longrightarrow> time_left v i t \<le> i"
proof -
  have d: "(t - v) div i * i + (t - v) mod i = t - v" "0 \<le> (t - v) mod i" "(t - v) mod i < i"
    using pos_mod_sign [OF assms, of "t - v"] pos_mod_bound [OF assms, of "t - v"] by simp_all
  have n: "0 \<le> (t - v) div i" if "v \<le> t" using that pos_imp_zdiv_nonneg_iff [OF assms] by simp
  show "0 \<le> expirations v i t" using n by (simp add: expirations_def)
  show "time_left v i t = v - t + expirations v i t * i"
  proof (cases "t < v")
    case False
    then have "expirations v i t * i = (t - v) div i * i + i" "time_left v i t = i - (t - v) mod i"
      by (simp_all add: expirations_def time_left_def distrib_right)
    then show ?thesis using d(1) by linarith
  qed (simp add: expirations_def time_left_def)
  show "0 < time_left v i t" "0 < expirations v i t \<Longrightarrow> time_left v i t \<le> i"
    using d(2,3) by (auto simp: expirations_def time_left_def split: if_splits)
qed

lemma expirations_unique:
  assumes "0 < i" "0 \<le> n" "0 < v - t + n * i" "0 < n \<Longrightarrow> v - t + n * i \<le> i"
  shows "expirations v i t = n" "time_left v i t = v - t + n * i"
proof -
  let ?m = "expirations v i t"
  note m = expirations_bounds [OF assms(1), of v t]
  have "?m = n"
  proof (rule ccontr)
    assume "?m \<noteq> n"
    then consider "?m + 1 \<le> n" | "n + 1 \<le> ?m" by linarith
    then show False
    proof cases
      case 1
      then have "(?m + 1) * i \<le> n * i" using assms(1) by (simp add: mult_right_mono)
      then show False using 1 assms(4) m by (simp add: distrib_right)
    next
      case 2
      then have "(n + 1) * i \<le> ?m * i" using assms(1) by (simp add: mult_right_mono)
      then show False using 2 assms(2,3) m by (simp add: distrib_right)
    qed
  qed
  then show "expirations v i t = n" "time_left v i t = v - t + n * i" using m(2) by simp_all
qed

text \<open>Two spans of time one after the other.\<close>

lemma expirations_add:
  assumes "0 < i" "0 \<le> d"
  shows "expirations v i (t + d) = expirations v i t + expirations (time_left v i t) i d"
    "time_left v i (t + d) = time_left (time_left v i t) i d"
proof -
  let ?n = "expirations v i t" and ?l = "time_left v i t"
  let ?m = "expirations ?l i d"
  note n = expirations_bounds [OF assms(1), of v t] and m = expirations_bounds [OF assms(1), of ?l d]
  have e: "v - (t + d) + (?n + ?m) * i = time_left ?l i d"
    using m(2) n(2) distrib_right [of ?n ?m i] by linarith
  have "time_left ?l i d \<le> i" if "0 < ?n + ?m"
  proof (cases "0 < ?m")
    case False
    then have "?m = 0" "?l \<le> i" using m(1) n(4) that by simp_all
    then show ?thesis using m(2) assms(2) by simp
  qed (rule m(4))
  then have "expirations v i (t + d) = ?n + ?m" "time_left v i (t + d) = v - (t + d) + (?n + ?m) * i"
    using expirations_unique [OF assms(1), of "?n + ?m" v "t + d"] n(1) m(1,3) e by simp_all
  then show "expirations v i (t + d) = ?n + ?m" "time_left v i (t + d) = time_left ?l i d" using e by simp_all
qed


section \<open>Ticks of a signalling timer\<close>

definition queued :: "queued_signal \<Rightarrow> bool" where
  "queued q \<longleftrightarrow> qs_flags q AND QUEUED_SIGNAL_DONT_FREE_FLAG \<noteq> 0"

definition mark_queued :: "queued_signal \<Rightarrow> queued_signal" where
  "mark_queued q = q\<lparr>qs_flags := qs_flags q OR QUEUED_SIGNAL_DONT_FREE_FLAG\<rparr>"

lemma queued_mark [simp]: "queued (mark_queued q)" "mark_queued (mark_queued q) = mark_queued q"
  "queued q \<Longrightarrow> mark_queued q = q"
proof -
  have b: "w AND 1 \<noteq> 0 \<longleftrightarrow> bit w 0" for w :: u32 using bit_iff_and_push_bit_not_eq_0 [of w 0] by simp
  show "queued (mark_queued q)" unfolding queued_def b by (simp add: mark_queued_def bit_or_iff)
  show "mark_queued (mark_queued q) = mark_queued q" by (simp add: mark_queued_def or.assoc)
  assume "queued q"
  then have "bit (qs_flags q) 0" unfolding queued_def b .
  then have "qs_flags q OR 1 = qs_flags q" by (intro bit_eqI) (auto simp: bit_or_iff bit_1_iff)
  then show "mark_queued q = q" by (simp add: mark_queued_def)
qed

text \<open>What is relied on of the code that queues a signal that is not ignored.\<close>

definition enqueue_keeps :: "enqueue_op \<Rightarrow> bool" where
  "enqueue_keeps enqueue \<longleftrightarrow>
     (\<forall>t g s. \<exists>s'. enqueue t g s = Some s' \<and> ts_timers s' = ts_timers s \<and> ts_signals s' = ts_signals s)"

definition signalling :: "time_state \<Rightarrow> addr \<Rightarrow> timer \<Rightarrow> addr \<Rightarrow> queued_signal \<Rightarrow> bool" where
  "signalling s a tm g q \<longleftrightarrow> ts_timers s a = Some tm \<and> (tm_event_type tm = SIGEV_SIGNAL \<or> tm_event_type tm = SIGEV_THREAD) \<and>
     tm_signal tm = Some g \<and> ts_signals s g = Some q"

definition with_value :: "timespec \<Rightarrow> timer \<Rightarrow> timer" where
  "with_value v tm = tm\<lparr>tm_spec := (tm_spec tm)\<lparr>it_value := v\<rparr>\<rparr>"

definition add_overuns :: "int \<Rightarrow> timer \<Rightarrow> timer" where
  "add_overuns n tm = tm\<lparr>tm_overuns := tm_overuns tm + n\<rparr>"

abbreviation "value_of tm \<equiv> it_value (tm_spec tm)"
abbreviation "interval_of tm \<equiv> it_interval (tm_spec tm)"

lemma timer_parts [simp]:
  "tm_event_type (with_value v tm) = tm_event_type tm" "tm_signal (with_value v tm) = tm_signal tm"
  "value_of (with_value v tm) = v" "interval_of (with_value v tm) = interval_of tm" "tm_overuns (with_value v tm) = tm_overuns tm"
  "tm_ignore_kernel_ticks (with_value v tm) = tm_ignore_kernel_ticks tm" "with_value v (with_value w tm) = with_value v tm"
  "tm_event_type (add_overuns n tm) = tm_event_type tm" "tm_signal (add_overuns n tm) = tm_signal tm"
  "tm_spec (add_overuns n tm) = tm_spec tm" "tm_overuns (add_overuns n tm) = tm_overuns tm + n"
  "tm_ignore_kernel_ticks (add_overuns n tm) = tm_ignore_kernel_ticks tm" "add_overuns 0 tm = tm"
  "add_overuns n (add_overuns m tm) = add_overuns (m + n) tm" "with_value (value_of tm) tm = tm"
  "add_overuns n (with_value v tm) = with_value v (add_overuns n tm)"
  by (simp_all add: with_value_def add_overuns_def add.assoc)

lemma fire_signalling:
  assumes "enqueue_keeps enqueue" "signalling s a tm g q" "tm_overuns tm < INT_MAX"
  shows "\<exists>s'. time_fire_timer enqueue callback cpu a s = Some s' \<and>
    signalling s' a (add_overuns (if queued q then 1 else 0) tm) g (mark_queued q)"
proof (cases "queued q")
  case True
  then show ?thesis using assms(2,3)
    by (auto simp: signalling_def time_fire_timer_def upd_timer_def queued_def add_overuns_def)
next
  case False
  let ?s = "s\<lparr>ts_signals := (ts_signals s)(g \<mapsto> mark_queued q)\<rparr>"
  obtain s' where "enqueue (tm_task tm) g ?s = Some s'" "ts_timers s' = ts_timers ?s" "ts_signals s' = ts_signals ?s"
    using assms(1) unfolding enqueue_keeps_def by blast
  then show ?thesis using False assms(2)
    by (auto simp: signalling_def time_fire_timer_def queued_def mark_queued_def)
qed

text \<open>The loop runs until the sum of the intervals exceeds the delay.\<close>

lemma fire_loop:
  assumes "enqueue_keeps enqueue" "signalling s a tm g q"
    and "\<forall>j \<le> n. time_expired (((\<lambda>v. time_add v (interval_of tm)) ^^ j) (value_of tm))"
    and "\<not> time_expired (((\<lambda>v. time_add v (interval_of tm)) ^^ Suc n) (value_of tm))"
    and "tm_overuns tm + int n < INT_MAX"
  shows "\<exists>s'. fire_until_future enqueue callback cpu a s = Some s' \<and>
    signalling s' a (with_value (((\<lambda>v. time_add v (interval_of tm)) ^^ Suc n) (value_of tm))
      (add_overuns (int n + (if queued q then 1 else 0)) tm)) g (mark_queued q)"
  using assms(2-)
proof (induction n arbitrary: s tm q)
  case 0
  obtain s1 where s1: "time_fire_timer enqueue callback cpu a s = Some s1"
    "signalling s1 a (add_overuns (if queued q then 1 else 0) tm) g (mark_queued q)"
    using fire_signalling [OF assms(1) "0.prems"(1), of callback cpu] "0.prems"(4) by auto
  then show ?case using "0.prems"(3)
    by (subst fire_until_future.simps) (auto simp: signalling_def upd_timer_def with_value_def)
next
  case (Suc n)
  define tm1 where "tm1 = add_overuns (if queued q then 1 else 0) tm"
  define tm2 where "tm2 = with_value (time_add (value_of tm) (interval_of tm)) tm1"
  obtain s1 where s1: "time_fire_timer enqueue callback cpu a s = Some s1" "signalling s1 a tm1 g (mark_queued q)"
    using fire_signalling [OF assms(1) Suc.prems(1), of callback cpu] Suc.prems(4) by (auto simp: tm1_def)
  let ?s2 = "s1\<lparr>ts_timers := (ts_timers s1)(a \<mapsto> tm2)\<rparr>"
  have s2: "upd_timer a (\<lambda>tm. with_value (time_add (value_of tm) (interval_of tm)) tm) s1 = Some ?s2"
    using s1(2) by (simp add: signalling_def upd_timer_def tm2_def tm1_def)
  have sig: "signalling ?s2 a tm2 g (mark_queued q)" using s1(2) by (simp add: signalling_def tm2_def)
  have shift: "((\<lambda>v. time_add v (interval_of tm2)) ^^ j) (value_of tm2) =
      ((\<lambda>v. time_add v (interval_of tm)) ^^ Suc j) (value_of tm)" for j
    using funpow_swap1 [of "\<lambda>v. time_add v (interval_of tm)" j "value_of tm"] by (simp add: tm2_def tm1_def)
  have ih: "\<exists>s'. fire_until_future enqueue callback cpu a ?s2 = Some s' \<and>
    signalling s' a (with_value (((\<lambda>v. time_add v (interval_of tm2)) ^^ Suc n) (value_of tm2))
      (add_overuns (int n + (if queued (mark_queued q) then 1 else 0)) tm2)) g (mark_queued (mark_queued q))"
  proof (rule Suc.IH [OF sig])
    show "\<forall>j \<le> n. time_expired (((\<lambda>v. time_add v (interval_of tm2)) ^^ j) (value_of tm2))"
      unfolding shift using Suc.prems(2) by blast
    show "\<not> time_expired (((\<lambda>v. time_add v (interval_of tm2)) ^^ Suc n) (value_of tm2))"
      unfolding shift by (rule Suc.prems(3))
    show "tm_overuns tm2 + int n < INT_MAX" using Suc.prems(4) by (simp add: tm2_def tm1_def)
  qed
  have e: "time_expired (value_of tm2)" using Suc.prems(2) shift [of 0] by auto
  have "fire_until_future enqueue callback cpu a s = fire_until_future enqueue callback cpu a ?s2"
    using s1(1) s2 e by (subst fire_until_future.simps) (simp add: with_value_def)
  moreover have "with_value v (add_overuns (int n + 1) tm2) =
      with_value v (add_overuns (int (Suc n) + (if queued q then 1 else 0)) tm)" for v
    by (simp add: tm2_def tm1_def add.commute)
  ultimately show ?case using ih unfolding shift by simp
qed


lemma expired_iff: "normal v \<Longrightarrow> time_expired v \<longleftrightarrow> nanos v \<le> 0"
  unfolding time_expired_def by (rule nanos_le_0)

lemma nonzero_interval: "0 < nanos i \<Longrightarrow> tv_sec i \<noteq> 0 \<or> tv_nsec i \<noteq> 0"
  by (auto simp: nanos_def)

lemma fire_catches_up:
  assumes "enqueue_keeps enqueue" "signalling s a tm g q" "normal (value_of tm)" "nanos (value_of tm) \<le> 0"
    and "normal (interval_of tm)" "0 < nanos (interval_of tm)"
    and "tm_overuns tm + - nanos (value_of tm) div nanos (interval_of tm) < INT_MAX"
  shows "\<exists>s' v. fire_until_future enqueue callback cpu a s = Some s' \<and> normal v \<and>
    nanos v = nanos (interval_of tm) - - nanos (value_of tm) mod nanos (interval_of tm) \<and>
    signalling s' a (with_value v (add_overuns (- nanos (value_of tm) div nanos (interval_of tm) + (if queued q then 1 else 0)) tm))
      g (mark_queued q)"
proof -
  let ?add = "\<lambda>v. time_add v (interval_of tm)" and ?d = "- nanos (value_of tm) div nanos (interval_of tm)"
  define n where "n = nat ?d"
  have n: "int n = ?d" using pos_imp_zdiv_nonneg_iff [OF assms(6), of "- nanos (value_of tm)"] assms(4) by (simp add: n_def)
  note up = times.catch_up [OF assms(3,5,6,4), of "Suc n", unfolded n_def, OF refl, folded n_def]
  have norm: "normal ((?add ^^ j) (value_of tm))" for j using times.repeated [OF assms(3,5)] by blast
  have "\<forall>j \<le> n. time_expired ((?add ^^ j) (value_of tm))" using up(1) norm expired_iff less_Suc_eq_le by blast
  moreover have "\<not> time_expired ((?add ^^ Suc n) (value_of tm))" using up(2) expired_iff [OF norm, of "Suc n"] by simp
  moreover have "tm_overuns tm + int n < INT_MAX" using assms(7) n by simp
  ultimately show ?thesis
    using fire_loop [OF assms(1,2), of n callback cpu] norm [of "Suc n"] up(3) unfolding n by blast
qed

lemma tick_signalling:
  assumes "enqueue_keeps enqueue" "signalling s a tm g q" "normal (value_of tm)" "0 < nanos (value_of tm)"
    and "normal (interval_of tm)" "0 < nanos (interval_of tm)" "normal d" "0 \<le> nanos d" "\<not> (tm_ignore_kernel_ticks tm \<and> kt)"
    and n_def: "n = expirations (nanos (value_of tm)) (nanos (interval_of tm)) (nanos d)" and "tm_overuns tm + n \<le> INT_MAX"
  shows "\<exists>s' v. time_tick_timer enqueue callback cpu a d kt s = Some s' \<and> normal v \<and>
    nanos v = time_left (nanos (value_of tm)) (nanos (interval_of tm)) (nanos d) \<and>
    signalling s' a (with_value v (add_overuns (if 0 < n \<and> \<not> queued q then n - 1 else n) tm)) g (if 0 < n then mark_queued q else q)"
proof -
  let ?v = "time_sub (value_of tm) d"
  have v: "normal ?v" "nanos ?v = nanos (value_of tm) - nanos d" using time_sub_nanos [OF assms(3,7)] by simp_all
  define s1 where "s1 = s\<lparr>ts_timers := (ts_timers s)(a \<mapsto> with_value ?v tm)\<rparr>"
  have s1: "upd_timer a (\<lambda>tm. with_value (time_sub (value_of tm) d) tm) s = Some s1" "signalling s1 a (with_value ?v tm) g q"
    using assms(2) by (simp_all add: signalling_def upd_timer_def s1_def)
  have tick: "time_tick_timer enqueue callback cpu a d kt s =
      (if time_expired ?v then fire_until_future enqueue callback cpu a s1 else Some s1)"
    using s1 assms(2,9) nonzero_interval [OF assms(6)]
    by (auto simp: time_tick_timer_def signalling_def with_value_def [symmetric])
  show ?thesis
  proof (cases "time_expired ?v")
    case False
    then have "nanos d < nanos (value_of tm)" using expired_iff [OF v(1)] v(2) by simp
    then have "n = 0" "nanos ?v = time_left (nanos (value_of tm)) (nanos (interval_of tm)) (nanos d)"
      using v(2) by (simp_all add: n_def expirations_def time_left_def)
    then show ?thesis using False tick v(1) s1(2) by auto
  next
    case True
    then have le: "nanos ?v \<le> 0" "- nanos ?v = nanos d - nanos (value_of tm)" using expired_iff [OF v(1)] v(2) by simp_all
    then have n: "n = - nanos ?v div nanos (interval_of tm) + 1" "0 < n"
      using pos_imp_zdiv_nonneg_iff [OF assms(6), of "- nanos ?v"] by (simp_all add: n_def expirations_def)
    have l: "time_left (nanos (value_of tm)) (nanos (interval_of tm)) (nanos d) = nanos (interval_of tm) - - nanos ?v mod nanos (interval_of tm)"
      using le by (simp add: time_left_def)
    have k: "- nanos ?v div nanos (interval_of tm) = n - 1" using n(1) by linarith
    have "\<exists>s' w. fire_until_future enqueue callback cpu a s1 = Some s' \<and> normal w \<and>
      nanos w = nanos (interval_of tm) - - nanos ?v mod nanos (interval_of tm) \<and>
      signalling s' a (with_value w (add_overuns (n - 1 + (if queued q then 1 else 0)) tm)) g (mark_queued q)"
      using fire_catches_up [OF assms(1) s1(2), of callback cpu] v(1) le(1) assms(5,6,11) k by simp
    moreover have "n - 1 + (if queued q then 1 else 0) = (if 0 < n \<and> \<not> queued q then n - 1 else n)" using n(2) by simp
    ultimately show ?thesis using True n(2) unfolding tick l by simp
  qed
qed


text \<open>The ticks of a clock, as far as one of its timers is concerned.\<close>

definition run_ticks ::
  "enqueue_op \<Rightarrow> callback_op \<Rightarrow> addr \<Rightarrow> addr \<Rightarrow> bool \<Rightarrow> timespec list \<Rightarrow> time_state \<Rightarrow> time_state option" where
  "run_ticks enqueue callback cpu a kt ds s = fold_opt (\<lambda>d. time_tick_timer enqueue callback cpu a d kt) ds s"

definition elapsed :: "timespec list \<Rightarrow> int" where
  "elapsed ds = sum_list (map nanos ds)"

lemma elapsed_nonneg: "\<forall>d \<in> set ds. normal d \<and> 0 \<le> nanos d \<Longrightarrow> 0 \<le> elapsed ds"
  by (auto simp: elapsed_def intro!: sum_list_nonneg)

lemma run_ticks_signalling:
  assumes "enqueue_keeps enqueue" "signalling s a tm g q" "normal (value_of tm)" "0 < nanos (value_of tm)"
    and "normal (interval_of tm)" "0 < nanos (interval_of tm)" "\<forall>d \<in> set ds. normal d \<and> 0 \<le> nanos d"
    and "\<not> (tm_ignore_kernel_ticks tm \<and> kt)"
    and "n = expirations (nanos (value_of tm)) (nanos (interval_of tm)) (elapsed ds)" "tm_overuns tm + n \<le> INT_MAX"
  shows "\<exists>s' v. run_ticks enqueue callback cpu a kt ds s = Some s' \<and> normal v \<and>
    nanos v = time_left (nanos (value_of tm)) (nanos (interval_of tm)) (elapsed ds) \<and>
    signalling s' a (with_value v (add_overuns (if 0 < n \<and> \<not> queued q then n - 1 else n) tm)) g (if 0 < n then mark_queued q else q)"
  using assms(2-)
proof (induction ds arbitrary: s tm q n)
  case Nil
  then show ?case
    by (intro exI [of _ s] exI [of _ "value_of tm"]) (simp add: run_ticks_def elapsed_def expirations_def time_left_def)
next
  case (Cons d ds)
  let ?V = "nanos (value_of tm)" and ?I = "nanos (interval_of tm)"
  define n1 where "n1 = expirations ?V ?I (nanos d)"
  define n2 where "n2 = expirations (time_left ?V ?I (nanos d)) ?I (elapsed ds)"
  have ds: "normal d" "0 \<le> nanos d" "0 \<le> elapsed ds" "\<forall>d \<in> set ds. normal d \<and> 0 \<le> nanos d"
    using Cons.prems(6) elapsed_nonneg by auto
  have n: "n = n1 + n2" "time_left ?V ?I (elapsed (d # ds)) = time_left (time_left ?V ?I (nanos d)) ?I (elapsed ds)"
    using expirations_add [OF Cons.prems(5) ds(3), of ?V "nanos d"] Cons.prems(8) by (simp_all add: n1_def n2_def elapsed_def)
  have pos: "0 \<le> n1" "0 \<le> n2" "0 < time_left ?V ?I (nanos d)"
    using expirations_bounds [OF Cons.prems(5)] by (simp_all add: n1_def n2_def)
  define q1 where "q1 = (if 0 < n1 then mark_queued q else q)"
  define tm1 where "tm1 = add_overuns (if 0 < n1 \<and> \<not> queued q then n1 - 1 else n1) tm"
  obtain s1 v1 where s1: "time_tick_timer enqueue callback cpu a d kt s = Some s1" "normal v1"
    "nanos v1 = time_left ?V ?I (nanos d)" "signalling s1 a (with_value v1 tm1) g q1"
    using tick_signalling [OF assms(1) Cons.prems(1-5) ds(1,2) Cons.prems(7) n1_def, of callback cpu] Cons.prems(9) n(1) pos
    by (auto simp: tm1_def q1_def)
  have "\<exists>s' v. run_ticks enqueue callback cpu a kt ds s1 = Some s' \<and> normal v \<and>
    nanos v = time_left (nanos v1) ?I (elapsed ds) \<and>
    signalling s' a (with_value v (add_overuns (if 0 < n2 \<and> \<not> queued q1 then n2 - 1 else n2) (with_value v1 tm1))) g
      (if 0 < n2 then mark_queued q1 else q1)"
    using Cons.IH [OF s1(4), of n2] s1(2,3) pos(3) Cons.prems(4,5,7,9) ds(4) n(1) pos(1,2)
    by (simp add: tm1_def n2_def)
  moreover have "add_overuns (if 0 < n2 \<and> \<not> queued q1 then n2 - 1 else n2) tm1 =
      add_overuns (if 0 < n \<and> \<not> queued q then n - 1 else n) tm" "(if 0 < n2 then mark_queued q1 else q1) = (if 0 < n then mark_queued q else q)"
    using pos n(1) by (auto simp: tm1_def q1_def algebra_simps)
  ultimately show ?case using s1(1,3) n(2) by (simp add: run_ticks_def)
qed

text \<open>A negative interval.\<close>

definition quiet_event :: "timer \<Rightarrow> bool" where
  "quiet_event tm \<longleftrightarrow> tm_event_type tm = SIGEV_NONE \<or> tm_event_type tm = SIGEV_SIGNAL \<or> tm_event_type tm = SIGEV_THREAD"

lemma fire_keeps_spec:
  assumes "enqueue_keeps enqueue" "ts_timers s a = Some tm" "quiet_event tm" "time_fire_timer enqueue callback cpu a s = Some s'"
  shows "\<exists>tm'. ts_timers s' a = Some tm' \<and> tm_spec tm' = tm_spec tm \<and> quiet_event tm'"
proof (cases "tm_event_type tm = SIGEV_NONE")
  case True
  then show ?thesis using assms by (simp add: time_fire_timer_def)
next
  case False
  then have e: "tm_event_type tm = SIGEV_SIGNAL \<or> tm_event_type tm = SIGEV_THREAD" using assms(3) by (simp add: quiet_event_def)
  then obtain g q where g: "tm_signal tm = Some g" "ts_signals s g = Some q"
    using assms(2,4) by (auto simp: time_fire_timer_def split: bind_splits)
  have "ts_timers s2 = ts_timers s1" if "enqueue t g s1 = Some s2" for t s1 s2
    using assms(1) that unfolding enqueue_keeps_def by (metis option.inject)
  then show ?thesis using assms(2-4) e g
    by (auto simp: time_fire_timer_def upd_timer_def quiet_event_def split: if_splits)
qed

lemma negative_loop:
  assumes "fire_until_future enqueue callback cpu a s = Some y"
  shows "\<not> (enqueue_keeps enqueue \<and> (\<exists>tm. ts_timers s a = Some tm \<and> quiet_event tm \<and> normal (value_of tm) \<and> nanos (value_of tm) \<le> 0 \<and>
    normal (interval_of tm) \<and> nanos (interval_of tm) < 0))"
proof (rule fire_until_future.raw_induct [OF _ assms, where P = "\<lambda>enqueue callback cpu a s y.
    \<not> (enqueue_keeps enqueue \<and> (\<exists>tm. ts_timers s a = Some tm \<and> quiet_event tm \<and> normal (value_of tm) \<and> nanos (value_of tm) \<le> 0 \<and>
      normal (interval_of tm) \<and> nanos (interval_of tm) < 0))"], goal_cases)
  case (1 loop enqueue callback cpu a s y)
  show ?case
  proof (rule notI, elim conjE exE)
    fix tm
    assume k: "enqueue_keeps enqueue" and tm: "ts_timers s a = Some tm" "quiet_event tm" "normal (value_of tm)"
      "nanos (value_of tm) \<le> 0" "normal (interval_of tm)" "nanos (interval_of tm) < 0"
    obtain s1 where s1: "time_fire_timer enqueue callback cpu a s = Some s1" using 1(2) by (auto split: bind_splits)
    obtain tm1 where tm1: "ts_timers s1 a = Some tm1" "tm_spec tm1 = tm_spec tm" "quiet_event tm1"
      using fire_keeps_spec [OF k tm(1,2) s1] by blast
    let ?v = "time_add (value_of tm) (interval_of tm)"
    let ?s2 = "s1\<lparr>ts_timers := (ts_timers s1)(a \<mapsto> with_value ?v tm1)\<rparr>"
    have v: "normal ?v" "nanos ?v \<le> 0" using time_add_nanos [OF tm(3,5)] tm(4,6) by simp_all
    then have "loop enqueue callback cpu a ?s2 = Some y"
      using 1(2) s1 tm1(1,2) expired_iff [OF v(1)] by (simp add: upd_timer_def with_value_def)
    from 1(1) [OF this] show False
      using k tm1 v tm(5,6) by (simp add: quiet_event_def)
  qed
qed


section \<open>Properties\<close>



definition demo_signal :: queued_signal where
  "demo_signal = \<lparr>qs_flags = 0, qs_signo = SIGALRM, qs_code = SI_TIMER, qs_value = 1\<rparr>"

definition demo_timer :: timer where
  "demo_timer = \<lparr>tm_clock = Some 40, tm_callback = None, tm_closure = 0,
     tm_spec = \<lparr>it_interval = \<lparr>tv_sec = 0, tv_nsec = 2000000\<rparr>, it_value = \<lparr>tv_sec = 0, tv_nsec = 3000000\<rparr>\<rparr>,
     tm_event_type = SIGEV_SIGNAL, tm_overuns = 0, tm_id = 1, tm_signal = Some 60, tm_task = 20, tm_ignore_kernel_ticks = False\<rparr>"

definition demo_time_state :: "timer \<Rightarrow> time_state" where
  "demo_time_state tm = \<lparr>ts_kernel = demo_kernel, ts_timers = [50 \<mapsto> tm],
     ts_clocks = [40 \<mapsto> \<lparr>ck_id = 0, ck_resolution = zero_time, ck_time = zero_time, ck_timer_list = 41\<rparr>],
     ts_nodes = init_list 41 \<lparr>node_next = id, node_prev = id\<rparr>, ts_signals = [60 \<mapsto> demo_signal], ts_timer_map = [1 \<mapsto> 50],
     ts_clock_map = Map.empty, ts_next_timer = 2, ts_next_clock = 10, ts_monotonic = 40, ts_realtime = 40,
     ts_processes = Map.empty, ts_process_of = Map.empty, ts_task_clock = (\<lambda>_. None)\<rparr>"

definition demo_enqueue :: enqueue_op where
  "demo_enqueue t g s = do {
     k \<leftarrow> Some (ts_kernel s);
     Some (s\<lparr>ts_kernel := k\<lparr>tasks := (tasks k)(t := map_option (sig_pending_update (\<lambda>w. w OR push_bit 13 1)) (tasks k t))\<rparr>\<rparr>)
   }"

lemma demo_enqueue_keeps: "enqueue_keeps demo_enqueue"
  by (simp add: enqueue_keeps_def demo_enqueue_def)



end
