(* ===== verification/Spec2Isabelle.thy ===== *)
theory Spec2Isabelle
  imports Ring_Buffer Hash_Map Linked_List Vm_Process Libc_Output Pipe Kernel_Mutex Timer_Ticks
begin

text \<open>
  Iros: a verification library for the kernel's memory management, its data structures, pipes, run lists,
  mutexes and timers, and for the string, conversion and formatting functions of its C library.

  \<^bold>\<open>The program.\<close> Iros is an operating system: a monolithic kernel in C (\<^verbatim>\<open>kernel/\<close>), a C library
  (\<^verbatim>\<open>libs/libc\<close>) that is also linked into the kernel, and user-space libraries and programs in C++. Physical
  frames are handed out from a bit set by the page frame allocator; regions of virtual memory are kept in an
  ordered list per process and one for the kernel, backed by reference-counted objects, and the virtual
  memory allocator changes lists, objects and page tables together. Hash maps index inodes, processes and
  sockets by chaining through nodes embedded in the objects; embedded doubly linked lists hold tasks, timers
  and wait queues; ring buffers carry the bytes of pipes and sockets, and pipes put waiting and polling around
  them. Tasks sleep by leaving the run list of their processor and are woken through wait queues; mutexes are
  built on these. Clocks advance at every tick and tick the timers that wait on them.

  \<^bold>\<open>Reading the model.\<close> The model is the x86_64 build. Integers keep their width (\<open>u8\<close> to \<open>u64\<close> are words, so
  that arithmetic wraps) except C \<open>int\<close>s that only hold small values, which are \<open>int\<close>. An operation that may
  not return normally has an option type: \<open>None\<close> is a failed assertion, a panic, a NULL, freed or unmapped
  address, an access out of bounds, undefined arithmetic, or a loop that does not end; error numbers are
  ordinary results. Loops are \<open>fun\<close> or \<open>function\<close> with a measure where they always end and
  \<open>partial_function (option)\<close> where they may not; no fuel is used, and for every loop of the second kind
  whose end matters it is proved that it ends. Addresses are natural numbers and pointers to objects are
  addresses in an explicit memory. Memory whose contents are unspecified (\<open>malloc\<close>) is a parameter.

  \<^bold>\<open>Theories.\<close>
    \<^item> \<open>Iros_Prelude\<close>: word types, panics, memory blocks, counting loops, error numbers.
    \<^item> \<open>Ring_Buffer\<close> (\<^verbatim>\<open>kernel/util/ring_buffer.c\<close>, \<^verbatim>\<open>ring_buffer.h\<close>): representation invariant, abstraction to the
      queued bytes; the interface \<open>byte_queue\<close> and its interpretation give the first-in first-out property.
    \<^item> \<open>Bitset\<close> (\<^verbatim>\<open>kernel/util/bitset.c\<close>): bit updates and the searches for free bits and runs, which find the
      lowest and end.
    \<^item> \<open>Page_Frames\<close> (\<^verbatim>\<open>kernel/mem/page_frame_allocator.c\<close>, \<^verbatim>\<open>phys_page.c\<close>, \<^verbatim>\<open>boot_info.c\<close>): start-up from the
      memory map, requests and frees; the interface \<open>frame_allocator\<close> shows that frames are never shared.
    \<^item> \<open>Hash_Map\<close> (\<^verbatim>\<open>kernel/util/hash_map.c\<close>): chains in memory refine a set of entries under puts, deletes
      and resizes; enumeration.
    \<^item> \<open>Linked_List\<close> (\<^verbatim>\<open>kernel/include/kernel/util/list.h\<close>): pointer operations refine sequences; safe iteration.
    \<^item> \<open>Vm_Region\<close> (\<^verbatim>\<open>kernel/mem/vm_region.c\<close>, \<^verbatim>\<open>vm_object.c\<close>): ordered region lists, resizing, objects.
    \<^item> \<open>Vm_Allocator\<close> (\<^verbatim>\<open>kernel/mem/vm_allocator.c\<close>): the model of every operation, page table effects as a log.
    \<^item> \<open>Vm_Process\<close>: its properties: exact unmapping, fresh mappings, protection, kernel regions, exhaustion.
    \<^item> \<open>Pipe\<close> (\<^verbatim>\<open>kernel/fs/pipe.c\<close>, parts of \<^verbatim>\<open>vfs.c\<close>, \<^verbatim>\<open>file.h\<close>, \<^verbatim>\<open>task.h\<close>): calls as sequences of atomic sections
      between waits; reachability, invariant, progress of readers and the hang of writers.
    \<^item> \<open>Task_Sched\<close> (\<^verbatim>\<open>kernel/proc/task.c\<close>, \<^verbatim>\<open>task.h\<close>, \<^verbatim>\<open>wait_queue.c\<close>, \<^verbatim>\<open>task_finalizer.c\<close>, \<^verbatim>\<open>kernel/sched/task_sched.c\<close>,
      \<^verbatim>\<open>hal/processor.h\<close>): task states, run lists as pointer structures, waiting, waking, pending signals, the choice
      of the next task; operations keep run lists and states in agreement, except when a task is woken while it
      prepares to wait.
    \<^item> \<open>Kernel_Mutex\<close> (\<^verbatim>\<open>kernel/util/mutex.c\<close>): mutual exclusion, no lost wake-up and progress, as an invariant of a step
      relation over tasks and processors.
    \<^item> \<open>Clock_Time\<close>, \<open>Timers\<close> (\<^verbatim>\<open>kernel/include/kernel/time/clock.h\<close>, \<^verbatim>\<open>kernel/time/clock.c\<close>, \<^verbatim>\<open>timer.c\<close>) and \<open>Timer_Ticks\<close>: time
      values as nanoseconds, clocks, timers, interval timers and timed sleeps; how often a periodic timer expires,
      and the tick that a negative interval makes hang.
    \<^item> \<open>Libc_String\<close>, \<open>Libc_Conv\<close>, \<open>Libc_Printf\<close> (\<^verbatim>\<open>libs/libc/string\<close>, \<^verbatim>\<open>ctype\<close>, \<^verbatim>\<open>stdlib/conversions.c\<close>,
      \<^verbatim>\<open>stdio/printf.c\<close>) and \<open>Libc_Output\<close>: copying, searching and splitting strings, character classes, number
      conversions, every conversion of \<open>printf\<close>; the interface \<open>char_sink\<close> separates what a format prints from
      where it goes.

  \<^bold>\<open>Interfaces.\<close> Each locale states what a provider promises and is interpreted on the model of the code:
  \<open>byte_queue\<close> on the ring buffer, \<open>frame_allocator\<close> on the page frame allocator, \<open>char_sink\<close> on \<open>sprint\<close> and
  on the collecting printer, \<open>bit_store\<close> on the bit set, \<open>entry_store\<close> on the hash map, \<open>node_sequence\<close> on the
  linked list and \<open>duration\<close> on the time values.

  \<^bold>\<open>Defects.\<close> Where the code does not do what it means to, the exact behaviour is proved: the texts of the
  properties say so.

  \<^bold>\<open>Not modelled.\<close> Device drivers, interrupt and boot code (hardware registers and assembly); the on-disk
  file systems, path lookup and the system call layer (I/O and user memory); process creation, context switches,
  the delivery of signals to handlers, networking; malloc, threads, locale, regular expressions and streams of the C library; all C++ code (user
  interface and terminal libraries, the shell, user programs, the second kernel \<^verbatim>\<open>iris\<close>). Spin locks
  appear only where holding them is observable (the kernel region lock, \<open>inode->lock\<close> between waits); otherwise what
  happens under one is one step.
\<close>

end
